(* ===== verification/Prelude.thy ===== *)
theory Prelude
  imports Main "HOL-Library.Word"
begin

unbundle bit_operations_syntax

text \<open>
  Shared vocabulary of the development: the machine types of the Rust code, the \<open>Result\<close> type
  with an explicit panic outcome, the three-valued \<open>Ordering\<close> of \<open>core::cmp\<close>, big-endian
  encodings of the fixed width integers and the ASCII case folding of \<open>core\<close>.

  Octets are \<open>8 word\<close>, the fixed width integers are words of their width.  A \<open>usize\<close> that
  counts or indexes octets of a buffer in memory is a \<open>nat\<close>; where the source subtracts on
  \<open>usize\<close> the definitions write the underflow out as a panic.
\<close>

section \<open>Types\<close>

type_synonym octet = "8 word"
type_synonym octets = "octet list"
type_synonym u16 = "16 word"
type_synonym u32 = "32 word"
type_synonym u64 = "64 word"

named_theorems wire_simps \<open>evaluation of wire format primitives\<close>
named_theorems cmp_simps \<open>rules for the three-valued comparison\<close>

section \<open>Results\<close>

text \<open>
  Rust's \<open>Result\<close>, with a third constructor for a panic of the running thread (an \<open>unwrap\<close> of
  an error, an index out of range, an arithmetic underflow).
\<close>

datatype ('a, 'e) result = Ok 'a | Err 'e | Panic

fun rbind :: "('a, 'e) result \<Rightarrow> ('a \<Rightarrow> ('b, 'e) result) \<Rightarrow> ('b, 'e) result" where
  "rbind (Ok x) f = f x"
| "rbind (Err e) f = Err e"
| "rbind Panic f = Panic"

fun rmap :: "('a \<Rightarrow> 'b) \<Rightarrow> ('a, 'e) result \<Rightarrow> ('b, 'e) result" where
  "rmap f (Ok x) = Ok (f x)"
| "rmap f (Err e) = Err e"
| "rmap f Panic = Panic"

fun rmap_err :: "('e \<Rightarrow> 'f) \<Rightarrow> ('a, 'e) result \<Rightarrow> ('a, 'f) result" where
  "rmap_err f (Ok x) = Ok x"
| "rmap_err f (Err e) = Err (f e)"
| "rmap_err f Panic = Panic"

text \<open>\<open>Result::unwrap\<close> and \<open>expect\<close>: an error becomes a panic.\<close>

fun runwrap :: "('a, 'e) result \<Rightarrow> ('a, 'f) result" where
  "runwrap (Ok x) = Ok x"
| "runwrap (Err e) = Panic"
| "runwrap Panic = Panic"

fun is_ok :: "('a, 'e) result \<Rightarrow> bool" where
  "is_ok (Ok x) = True"
| "is_ok (Err e) = False"
| "is_ok Panic = False"

lemma rbind_cong [fundef_cong]:
  "m = m' \<Longrightarrow> (\<And>x. m' = Ok x \<Longrightarrow> f x = f' x) \<Longrightarrow> rbind m f = rbind m' f'"
  by (cases m') simp_all

lemma rbind_Ok_iff: "rbind m f = Ok y \<longleftrightarrow> (\<exists>x. m = Ok x \<and> f x = Ok y)"
  by (cases m) auto

lemma rbind_Err_iff: "rbind m f = Err e \<longleftrightarrow> m = Err e \<or> (\<exists>x. m = Ok x \<and> f x = Err e)"
  by (cases m) auto

lemma rbind_Panic_iff: "rbind m f = Panic \<longleftrightarrow> m = Panic \<or> (\<exists>x. m = Ok x \<and> f x = Panic)"
  by (cases m) auto

lemma rmap_Ok_iff: "rmap f m = Ok y \<longleftrightarrow> (\<exists>x. m = Ok x \<and> y = f x)"
  by (cases m) auto

lemma rmap_err_Ok_iff [simp]: "rmap_err f m = Ok y \<longleftrightarrow> m = Ok y"
  by (cases m) auto

lemma rmap_err_Panic_iff [simp]: "rmap_err f m = Panic \<longleftrightarrow> m = Panic"
  by (cases m) auto

lemma rmap_Panic_iff [simp]: "rmap f m = Panic \<longleftrightarrow> m = Panic"
  by (cases m) auto

lemma rbind_assoc: "rbind (rbind m f) g = rbind m (\<lambda>x. rbind (f x) g)"
  by (cases m) simp_all

lemma rmap_rbind: "rmap h (rbind m f) = rbind m (\<lambda>x. rmap h (f x))"
  by (cases m) simp_all

lemma rbind_rmap: "rbind (rmap h m) f = rbind m (\<lambda>x. f (h x))"
  by (cases m) simp_all

lemma is_ok_iff: "is_ok m \<longleftrightarrow> (\<exists>x. m = Ok x)"
  by (cases m) auto

section \<open>Operations on a state\<close>

text \<open>A method with \<open>&mut self\<close>: a result together with the new state; \<open>sbind\<close> is the \<open>?\<close> operator.\<close>

type_synonym ('s, 'a, 'e) step = "'s \<Rightarrow> ('a, 'e) result \<times> 's"

definition sreturn :: "'a \<Rightarrow> ('s, 'a, 'e) step" where
  "sreturn a s = (Ok a, s)"

definition sbind :: "('s, 'a, 'e) step \<Rightarrow> ('a \<Rightarrow> ('s, 'b, 'e) step) \<Rightarrow> ('s, 'b, 'e) step" where
  "sbind m f s = (case m s of (Ok a, s') \<Rightarrow> f a s' | (Err e, s') \<Rightarrow> (Err e, s') | (Panic, s') \<Rightarrow> (Panic, s'))"

definition smap_err :: "('e \<Rightarrow> 'f) \<Rightarrow> ('s, 'a, 'e) step \<Rightarrow> ('s, 'a, 'f) step" where
  "smap_err f m s = (case m s of (r, s') \<Rightarrow> (rmap_err f r, s'))"

text \<open>\<open>try_for_each\<close>.\<close>

fun sfor :: "('x \<Rightarrow> ('s, unit, 'e) step) \<Rightarrow> 'x list \<Rightarrow> ('s, unit, 'e) step" where
  "sfor f [] = sreturn ()"
| "sfor f (x # xs) = sbind (f x) (\<lambda>_. sfor f xs)"

lemma sfor_append: "sfor f (xs @ ys) s = sbind (sfor f xs) (\<lambda>_. sfor f ys) s"
  by (induction xs arbitrary: s) (auto simp: sbind_def sreturn_def split: result.splits prod.splits)

lemma sreturn_simps [simp]: "sreturn a s = (Ok b, s') \<longleftrightarrow> b = a \<and> s' = s" "fst (sreturn a s) = Ok a"
  by (auto simp: sreturn_def)

lemma sbind_Ok: "sbind m f s = (Ok b, s') \<longleftrightarrow> (\<exists>a t. m s = (Ok a, t) \<and> f a t = (Ok b, s'))"
  by (auto simp: sbind_def split: prod.splits result.splits)

lemma sbind_Ok_eq [simp]: "m s = (Ok a, t) \<Longrightarrow> sbind m f s = f a t"
  by (simp add: sbind_def)

lemma sbind_Err_eq: "m s = (Err e, t) \<Longrightarrow> sbind m f s = (Err e, t)"
  by (simp add: sbind_def)

lemma smap_err_Ok [simp]: "smap_err f m s = (Ok a, s') \<longleftrightarrow> m s = (Ok a, s')"
  by (auto simp: smap_err_def split: prod.splits)

lemma smap_err_Err: "smap_err f m s = (Err e, s') \<longleftrightarrow> (\<exists>e'. m s = (Err e', s') \<and> e = f e')"
proof (cases "m s")
  case (Pair r t)
  then show ?thesis by (cases r) (auto simp: smap_err_def)
qed

section \<open>Comparisons\<close>

text \<open>\<open>core::cmp::Ordering\<close>, the \<open>cmp\<close> of an \<open>Ord\<close> type and the lexicographic \<open>cmp\<close> of slices
  and iterators.\<close>

datatype ordering = Less | Equal | Greater

definition ord_cmp :: "'a::linorder \<Rightarrow> 'a \<Rightarrow> ordering" where
  "ord_cmp a b = (if a < b then Less else if a = b then Equal else Greater)"

fun list_cmp :: "('a \<Rightarrow> 'a \<Rightarrow> ordering) \<Rightarrow> 'a list \<Rightarrow> 'a list \<Rightarrow> ordering" where
  "list_cmp c [] [] = Equal"
| "list_cmp c [] (y # ys) = Less"
| "list_cmp c (x # xs) [] = Greater"
| "list_cmp c (x # xs) (y # ys) = (case c x y of Equal \<Rightarrow> list_cmp c xs ys | r \<Rightarrow> r)"

fun ord_reverse :: "ordering \<Rightarrow> ordering" where
  "ord_reverse Less = Greater"
| "ord_reverse Equal = Equal"
| "ord_reverse Greater = Less"

lemma ord_cmp_Equal [simp, cmp_simps]: "ord_cmp a b = Equal \<longleftrightarrow> a = b"
  by (auto simp: ord_cmp_def)

lemma ord_cmp_Less [simp, cmp_simps]: "ord_cmp a b = Less \<longleftrightarrow> a < b"
  by (auto simp: ord_cmp_def)

lemma ord_cmp_Greater [simp, cmp_simps]: "ord_cmp a b = Greater \<longleftrightarrow> b < a"
  by (auto simp: ord_cmp_def)

text \<open>\<open>Iterator::cmp\<close> is the lexicographic order.\<close>

lemma list_cmp_lexord:
  assumes "\<And>x y. c x y = Less \<longleftrightarrow> (k x, k y) \<in> R" "\<And>x y. c x y = Equal \<longleftrightarrow> k x = k y"
  shows "list_cmp c xs ys = Less \<longleftrightarrow> (map k xs, map k ys) \<in> lexord R"
proof (induction xs ys rule: list_induct2')
  case (4 x xs y ys)
  then show ?case using assms(1) [of x y] assms(2) [of x y] by (cases "c x y") auto
qed simp_all

text \<open>
  The contract of a comparison function: the laws the Rust documentation of \<open>Ord\<close> demands,
  with equality up to a key.  A comparison that satisfies it lifts to lists.
\<close>

locale total_cmp =
  fixes cmp :: "'a \<Rightarrow> 'a \<Rightarrow> ordering"
    and key :: "'a \<Rightarrow> 'k"
  assumes cmp_Equal: "cmp a b = Equal \<longleftrightarrow> key a = key b"
    and cmp_flip: "cmp b a = ord_reverse (cmp a b)"
    and cmp_trans: "cmp a b = Less \<Longrightarrow> cmp b c = Less \<Longrightarrow> cmp a c = Less"
    and cmp_key_left: "key a = key a' \<Longrightarrow> cmp a b = cmp a' b"
begin

lemma cmp_refl: "cmp a a = Equal"
  by (simp add: cmp_Equal)

lemma cmp_key_right: "key b = key b' \<Longrightarrow> cmp a b = cmp a b'"
  using cmp_key_left [of b b' a] cmp_flip [of a b] cmp_flip [of a b'] by simp

lemma list_cmp_Cons_eq:
  "list_cmp cmp (x # xs) (y # ys) = (if key x = key y then list_cmp cmp xs ys else cmp x y)"
  by (cases "cmp x y") (auto simp flip: cmp_Equal)

lemma list_cmp_Equal: "list_cmp cmp xs ys = Equal \<longleftrightarrow> map key xs = map key ys"
  by (induction xs ys rule: list_induct2') (auto simp: list_cmp_Cons_eq cmp_Equal simp del: list_cmp.simps(4))

lemma list_cmp_flip: "list_cmp cmp ys xs = ord_reverse (list_cmp cmp xs ys)"
  by (induction xs ys rule: list_induct2')
    (auto simp: list_cmp_Cons_eq simp del: list_cmp.simps(4) intro: cmp_flip)

lemma list_cmp_trans:
  "list_cmp cmp xs ys = Less \<Longrightarrow> list_cmp cmp ys zs = Less \<Longrightarrow> list_cmp cmp xs zs = Less"
proof (induction xs arbitrary: ys zs)
  case Nil
  then show ?case by (cases ys; cases zs) auto
next
  case (Cons x xs)
  from Cons.prems obtain y ys' where ys: "ys = y # ys'" by (cases ys) auto
  with Cons.prems obtain z zs' where zs: "zs = z # zs'" by (cases zs) auto
  have ne: "cmp x z = Less \<Longrightarrow> key x \<noteq> key z" using cmp_Equal [of x z] by auto
  show ?case
    using Cons cmp_trans [of x y z] cmp_key_left [of x y z] cmp_key_right [of y z x] ne
    unfolding ys zs list_cmp_Cons_eq
    by (auto split: if_splits)
qed

lemma list_cmp_key_left: "map key xs = map key xs' \<Longrightarrow> list_cmp cmp xs ys = list_cmp cmp xs' ys"
proof (induction xs arbitrary: xs' ys)
  case (Cons x xs)
  then show ?case
    by (cases xs'; cases ys) (auto simp: list_cmp_Cons_eq simp del: list_cmp.simps(4) intro: cmp_key_left)
qed simp

lemma total_list_cmp: "total_cmp (list_cmp cmp) (map key)"
  by unfold_locales
    (simp add: list_cmp_Equal, rule list_cmp_flip, erule (1) list_cmp_trans, erule list_cmp_key_left)

end

text \<open>The \<open>Ord\<close> of the machine integers satisfies the contract, with the value itself as key.\<close>

interpretation ord_cmp: total_cmp "ord_cmp :: 'a::linorder \<Rightarrow> 'a \<Rightarrow> ordering" "\<lambda>x. x"
  by unfold_locales (auto simp: ord_cmp_def split: if_splits)

lemma total_cmp_image:
  assumes "total_cmp c k"
  shows "total_cmp (\<lambda>a b. c (f a) (f b)) (\<lambda>a. k (f a))"
proof (rule total_cmp.intro)
  fix x y z x' y'
  show "c (f x) (f y) = Equal \<longleftrightarrow> k (f x) = k (f y)" by (rule total_cmp.cmp_Equal [OF assms])
  show "c (f y) (f x) = ord_reverse (c (f x) (f y))" by (rule total_cmp.cmp_flip [OF assms])
  show "c (f x) (f y) = Less \<Longrightarrow> c (f y) (f z) = Less \<Longrightarrow> c (f x) (f z) = Less"
    by (rule total_cmp.cmp_trans [OF assms])
  show "k (f x) = k (f x') \<Longrightarrow> c (f x) (f y) = c (f x') (f y)"
    by (rule total_cmp.cmp_key_left [OF assms])
qed

section \<open>Big-endian encodings\<close>

text \<open>\<open>to_be_bytes\<close> and \<open>from_be_bytes\<close> of the integer types, at any width of whole octets.\<close>

fun be_octets :: "nat \<Rightarrow> nat \<Rightarrow> octets" where
  "be_octets 0 x = []"
| "be_octets (Suc n) x = be_octets n (x div 256) @ [of_nat (x mod 256)]"

fun be_value :: "nat \<Rightarrow> octets \<Rightarrow> nat" where
  "be_value a [] = a"
| "be_value a (b # bs) = be_value (a * 256 + unat b) bs"

definition to_be_bytes :: "'a::len word \<Rightarrow> octets" where
  "to_be_bytes w = be_octets (LENGTH('a) div 8) (unat w)"

definition from_be_bytes :: "octets \<Rightarrow> 'a::len word" where
  "from_be_bytes bs = of_nat (be_value 0 bs)"

lemma length_be_octets [simp]: "length (be_octets n x) = n"
  by (induction n arbitrary: x) auto

lemma length_to_be_bytes [simp]: "length (to_be_bytes (w :: 'a::len word)) = LENGTH('a) div 8"
  by (simp add: to_be_bytes_def)

lemma be_value_append: "be_value a (xs @ ys) = be_value (be_value a xs) ys"
  by (induction xs arbitrary: a) auto

lemma unat_octet_less [simp]: "unat (b :: octet) < 256"
  using unsigned_less [of b] by simp

lemma unat_of_nat_octet [simp]: "unat (of_nat (x mod 256) :: octet) = x mod 256"
  by (simp add: unat_of_nat)

lemma be_value_be_octets: "be_value a (be_octets n x) = a * 256 ^ n + x mod 256 ^ n"
proof (induction n arbitrary: a x)
  case (Suc n)
  have "x mod 256 ^ Suc n = 256 * (x div 256 mod 256 ^ n) + x mod 256"
    by (simp add: mod_mult2_eq)
  with Suc show ?case by (simp add: be_value_append algebra_simps)
qed simp

lemma be_value_less: "be_value a bs < (a + 1) * 256 ^ length bs"
proof (induction bs arbitrary: a)
  case (Cons b bs)
  have "unat b + 1 \<le> 256" using unat_octet_less [of b] by linarith
  then have "a * 256 + unat b + 1 \<le> (a + 1) * 256" by (simp add: algebra_simps)
  then have "(a * 256 + unat b + 1) * 256 ^ length bs \<le> ((a + 1) * 256) * 256 ^ length bs"
    by (rule mult_right_mono) simp
  with Cons.IH have "be_value (a * 256 + unat b) bs < ((a + 1) * 256) * 256 ^ length bs"
    by (rule less_le_trans)
  then show ?case by (simp add: algebra_simps)
qed simp

lemma be_value_eq: "be_value a bs = a * 256 ^ length bs + be_value 0 bs"
proof (induction bs arbitrary: a)
  case (Cons b bs)
  show ?case
    using Cons.IH [of "a * 256 + unat b"] Cons.IH [of "unat b"] by (simp add: algebra_simps)
qed simp

lemma be_octets_be_value: "be_octets (length bs) (be_value 0 bs) = bs"
proof (induction bs rule: rev_induct)
  case (snoc b bs)
  have b: "unat b < 256" by simp
  show ?case using snoc b by (simp add: be_value_append)
qed simp

lemma from_to_be_bytes [simp]:
  fixes w :: "'a::len word"
  assumes "LENGTH('a) = 8 * (LENGTH('a) div 8)"
  shows "from_be_bytes (to_be_bytes w) = w"
proof -
  have "(256::nat) ^ (LENGTH('a) div 8) = 2 ^ LENGTH('a)"
    by (subst assms) (simp add: power_mult)
  then show ?thesis
    by (simp add: from_be_bytes_def to_be_bytes_def be_value_be_octets unsigned_less)
qed

lemma to_from_be_bytes:
  assumes "LENGTH('a::len) = 8 * length bs"
  shows "to_be_bytes (from_be_bytes bs :: 'a word) = bs"
proof -
  have "(256::nat) ^ length bs = 2 ^ LENGTH('a)"
    by (subst assms) (simp add: power_mult)
  with be_value_less [of 0 bs] have "be_value 0 bs < 2 ^ LENGTH('a)" by simp
  with assms show ?thesis
    by (simp add: from_be_bytes_def to_be_bytes_def unat_of_nat be_octets_be_value)
qed

section \<open>ASCII case\<close>

definition to_ascii_lowercase :: "octet \<Rightarrow> octet" where
  "to_ascii_lowercase c = (if 65 \<le> c \<and> c \<le> 90 then c + 32 else c)"

definition eq_ignore_ascii_case :: "octets \<Rightarrow> octets \<Rightarrow> bool" where
  "eq_ignore_ascii_case xs ys \<longleftrightarrow> map to_ascii_lowercase xs = map to_ascii_lowercase ys"

lemma to_ascii_lowercase_small: "c < 65 \<Longrightarrow> to_ascii_lowercase c = c"
  by (simp add: to_ascii_lowercase_def not_le)

lemma to_ascii_lowercase_idem [simp]:
  "to_ascii_lowercase (to_ascii_lowercase c) = to_ascii_lowercase c"
  unfolding to_ascii_lowercase_def by (auto simp: word_le_nat_alt unat_word_ariths)

lemma to_ascii_lowercase_eq_small:
  assumes "b < 65" shows "to_ascii_lowercase a = b \<longleftrightarrow> a = b"
proof -
  have "65 \<le> a \<Longrightarrow> a \<le> 90 \<Longrightarrow> \<not> a + 32 < 65"
    by (simp add: word_le_nat_alt word_less_nat_alt unat_word_ariths)
  with assms show ?thesis by (auto simp: to_ascii_lowercase_def)
qed

lemma eq_ignore_ascii_case_refl [simp]: "eq_ignore_ascii_case xs xs"
  by (simp add: eq_ignore_ascii_case_def)

lemma eq_ignore_ascii_case_length: "eq_ignore_ascii_case xs ys \<Longrightarrow> length xs = length ys"
  unfolding eq_ignore_ascii_case_def by (metis length_map)

end
