(* ===== verification/Octseq.thy ===== *)
theory Octseq
  imports Prelude
begin

text \<open>
  The two interfaces of the \<open>octseq\<close> crate the code is written against.  The crate itself is not
  part of the repository: its operations are parameters of the model, bundled in the records
  \<open>parser_ops\<close> and \<open>builder_ops\<close>, and what its documentation promises of them are the laws of
  the locales \<open>octseq_parser\<close>, \<open>octets_target\<close> and \<open>octets_builder\<close>.
\<close>

section \<open>Parsers\<close>

text \<open>
  A parser is a position within a prefix of a sequence of octets.  The operations answer
  \<open>ShortInput\<close> when they would have to move beyond the end of that prefix.
\<close>

record parser =
  p_octets :: octets
  p_pos :: nat
  p_len :: nat

datatype short_input = ShortInput

definition p_remaining :: "parser \<Rightarrow> nat" where
  "p_remaining p = p_len p - p_pos p"

text \<open>What is left to parse: the octets between the position and the end.\<close>

definition p_rest :: "parser \<Rightarrow> octets" where
  "p_rest p = drop (p_pos p) (take (p_len p) (p_octets p))"

definition parser_wf :: "parser \<Rightarrow> bool" where
  "parser_wf p \<longleftrightarrow> p_pos p \<le> p_len p \<and> p_len p \<le> length (p_octets p)"

definition p_forward :: "parser \<Rightarrow> nat \<Rightarrow> parser" where
  "p_forward p n = p\<lparr>p_pos := p_pos p + n\<rparr>"

record parser_ops =
  ps_from_ref :: "octets \<Rightarrow> parser"
  ps_seek :: "parser \<Rightarrow> nat \<Rightarrow> (parser, short_input) result"
  ps_advance :: "parser \<Rightarrow> nat \<Rightarrow> (parser, short_input) result"
  ps_peek :: "parser \<Rightarrow> nat \<Rightarrow> (octets, short_input) result"
  ps_peek_all :: "parser \<Rightarrow> octets"
  ps_parse_octets :: "parser \<Rightarrow> nat \<Rightarrow> (octets \<times> parser, short_input) result"
  ps_parse_buf :: "parser \<Rightarrow> nat \<Rightarrow> (octets \<times> parser, short_input) result"
  ps_parse_parser :: "parser \<Rightarrow> nat \<Rightarrow> (parser \<times> parser, short_input) result"
  ps_parse_u8 :: "parser \<Rightarrow> (octet \<times> parser, short_input) result"
  ps_parse_u16_be :: "parser \<Rightarrow> (u16 \<times> parser, short_input) result"
  ps_parse_u32_be :: "parser \<Rightarrow> (u32 \<times> parser, short_input) result"
  ps_parse_u64_be :: "parser \<Rightarrow> (u64 \<times> parser, short_input) result"
  ps_as_slice :: "parser \<Rightarrow> octets"

lemma parser_wf_forward [simp]: "n \<le> p_remaining p \<Longrightarrow> parser_wf p \<Longrightarrow> parser_wf (p_forward p n)"
  by (auto simp: parser_wf_def p_forward_def p_remaining_def)

lemma p_forward_simps [simp]:
  "p_octets (p_forward p n) = p_octets p"
  "p_pos (p_forward p n) = p_pos p + n"
  "p_len (p_forward p n) = p_len p"
  "p_forward (p_forward p n) m = p_forward p (n + m)"
  "p_forward p 0 = p"
  by (simp_all add: p_forward_def)

lemma p_rest_forward [simp]: "p_rest (p_forward p n) = drop n (p_rest p)"
  by (simp add: p_rest_def add.commute)

lemma p_remaining_forward [simp]: "p_remaining (p_forward p n) = p_remaining p - n"
  by (simp add: p_remaining_def)

lemma length_p_rest: "parser_wf p \<Longrightarrow> length (p_rest p) = p_remaining p"
  by (simp add: p_rest_def p_remaining_def parser_wf_def)

lemma p_rest_nth: "parser_wf p \<Longrightarrow> i < p_remaining p \<Longrightarrow> p_rest p ! i = p_octets p ! (p_pos p + i)"
  by (simp add: p_rest_def p_remaining_def parser_wf_def)

locale octseq_parser =
  fixes P :: parser_ops
  assumes ps_from_ref: "ps_from_ref P xs = \<lparr>p_octets = xs, p_pos = 0, p_len = length xs\<rparr>"
    and ps_seek: "ps_seek P p n = (if p_len p < n then Err ShortInput else Ok (p\<lparr>p_pos := n\<rparr>))"
    and ps_advance:
      "ps_advance P p n = (if p_remaining p < n then Err ShortInput else Ok (p_forward p n))"
    and ps_peek: "ps_peek P p n = (if p_remaining p < n then Err ShortInput else Ok (take n (p_rest p)))"
    and ps_peek_all: "ps_peek_all P p = p_rest p"
    and ps_parse_octets: "ps_parse_octets P p n =
      (if p_remaining p < n then Err ShortInput else Ok (take n (p_rest p), p_forward p n))"
    and ps_parse_buf: "ps_parse_buf P p n =
      (if p_remaining p < n then Err ShortInput else Ok (take n (p_rest p), p_forward p n))"
    and ps_parse_parser: "ps_parse_parser P p n =
      (if p_remaining p < n then Err ShortInput
       else Ok (p\<lparr>p_len := p_pos p + n\<rparr>, p_forward p n))"
    and ps_parse_u8: "ps_parse_u8 P p =
      (if p_remaining p < 1 then Err ShortInput else Ok (hd (p_rest p), p_forward p 1))"
    and ps_parse_u16_be: "ps_parse_u16_be P p =
      (if p_remaining p < 2 then Err ShortInput
       else Ok (from_be_bytes (take 2 (p_rest p)), p_forward p 2))"
    and ps_parse_u32_be: "ps_parse_u32_be P p =
      (if p_remaining p < 4 then Err ShortInput
       else Ok (from_be_bytes (take 4 (p_rest p)), p_forward p 4))"
    and ps_parse_u64_be: "ps_parse_u64_be P p =
      (if p_remaining p < 8 then Err ShortInput
       else Ok (from_be_bytes (take 8 (p_rest p)), p_forward p 8))"
    and ps_as_slice: "p_len p = length (p_octets p) \<Longrightarrow> ps_as_slice P p = p_octets p"
begin

lemmas ps_laws = ps_from_ref ps_seek ps_advance ps_peek ps_peek_all ps_parse_octets
  ps_parse_buf ps_parse_parser ps_parse_u8 ps_parse_u16_be ps_parse_u32_be ps_parse_u64_be

end

text \<open>Operations on a slice that satisfy the laws, so that the hypotheses can be met.\<close>

definition slice_parser :: parser_ops where
  "slice_parser = \<lparr>
     ps_from_ref = (\<lambda>xs. \<lparr>p_octets = xs, p_pos = 0, p_len = length xs\<rparr>),
     ps_seek = (\<lambda>p n. if p_len p < n then Err ShortInput else Ok (p\<lparr>p_pos := n\<rparr>)),
     ps_advance = (\<lambda>p n. if p_remaining p < n then Err ShortInput else Ok (p_forward p n)),
     ps_peek = (\<lambda>p n. if p_remaining p < n then Err ShortInput else Ok (take n (p_rest p))),
     ps_peek_all = p_rest,
     ps_parse_octets = (\<lambda>p n. if p_remaining p < n then Err ShortInput
       else Ok (take n (p_rest p), p_forward p n)),
     ps_parse_buf = (\<lambda>p n. if p_remaining p < n then Err ShortInput
       else Ok (take n (p_rest p), p_forward p n)),
     ps_parse_parser = (\<lambda>p n. if p_remaining p < n then Err ShortInput
       else Ok (p\<lparr>p_len := p_pos p + n\<rparr>, p_forward p n)),
     ps_parse_u8 = (\<lambda>p. if p_remaining p < 1 then Err ShortInput
       else Ok (hd (p_rest p), p_forward p 1)),
     ps_parse_u16_be = (\<lambda>p. if p_remaining p < 2 then Err ShortInput
       else Ok (from_be_bytes (take 2 (p_rest p)), p_forward p 2)),
     ps_parse_u32_be = (\<lambda>p. if p_remaining p < 4 then Err ShortInput
       else Ok (from_be_bytes (take 4 (p_rest p)), p_forward p 4)),
     ps_parse_u64_be = (\<lambda>p. if p_remaining p < 8 then Err ShortInput
       else Ok (from_be_bytes (take 8 (p_rest p)), p_forward p 8)),
     ps_as_slice = (\<lambda>p. take (p_len p) (p_octets p))\<rparr>"

interpretation slice_parser: octseq_parser slice_parser
  by unfold_locales (simp_all add: slice_parser_def)

section \<open>Builders\<close>

text \<open>
  An octets builder holds a sequence of octets and appends to its end, which may fail for want
  of space.  \<open>bo_as_mut\<close> overwrites the content in place, \<open>bo_truncate\<close> cuts it.
\<close>

datatype append_error = AppendError

record 'b builder_ops =
  bo_empty :: 'b
  bo_append :: "'b \<Rightarrow> octets \<Rightarrow> (unit, append_error) result \<times> 'b"
  bo_as_ref :: "'b \<Rightarrow> octets"
  bo_as_mut :: "'b \<Rightarrow> octets \<Rightarrow> 'b"
  bo_truncate :: "'b \<Rightarrow> nat \<Rightarrow> 'b"

text \<open>
  \<open>octets_target\<close>: the laws of every builder, among them that a failed append loses nothing;
  \<open>octets_builder\<close> adds that it also adds nothing, which \<open>octseq\<close> documents for its own builders.
\<close>

locale octets_target =
  fixes B :: "'b builder_ops"
  assumes append_Ok: "bo_append B b xs = (Ok u, b') \<Longrightarrow> bo_as_ref B b' = bo_as_ref B b @ xs"
    and append_Err: "bo_append B b xs = (Err e, b') \<Longrightarrow> \<exists>ys. bo_as_ref B b' = bo_as_ref B b @ ys"
    and append_no_Panic: "fst (bo_append B b xs) \<noteq> Panic"
    and as_mut: "length xs = length (bo_as_ref B b) \<Longrightarrow> bo_as_ref B (bo_as_mut B b xs) = xs"
    and truncate: "n \<le> length (bo_as_ref B b) \<Longrightarrow> bo_as_ref B (bo_truncate B b n) = take n (bo_as_ref B b)"
begin

lemma append_cases:
  obtains (Ok) b' where "bo_append B b xs = (Ok (), b')" "bo_as_ref B b' = bo_as_ref B b @ xs"
  | (Err) e b' ys where "bo_append B b xs = (Err e, b')" "bo_as_ref B b' = bo_as_ref B b @ ys"
proof (cases "bo_append B b xs")
  case (Pair r b')
  then show ?thesis
    using that append_Ok append_Err append_no_Panic [of b xs] by (cases r) fastforce+
qed

end

locale octets_builder = octets_target +
  assumes append_Err_same: "bo_append B b xs = (Err e, b') \<Longrightarrow> b' = b"
    and empty_ref: "bo_as_ref B (bo_empty B) = []"

text \<open>\<open>Vec<u8>\<close>: appending never fails.  \<open>Array<N>\<close>: it fails when the capacity is exceeded.\<close>

definition vec_builder :: "octets builder_ops" where
  "vec_builder = \<lparr>bo_empty = [], bo_append = (\<lambda>b xs. (Ok (), b @ xs)), bo_as_ref = (\<lambda>b. b),
     bo_as_mut = (\<lambda>b xs. xs), bo_truncate = (\<lambda>b n. take n b)\<rparr>"

definition array_builder :: "nat \<Rightarrow> octets builder_ops" where
  "array_builder cap = \<lparr>bo_empty = [],
     bo_append = (\<lambda>b xs. if cap < length b + length xs then (Err AppendError, b) else (Ok (), b @ xs)),
     bo_as_ref = (\<lambda>b. b), bo_as_mut = (\<lambda>b xs. xs), bo_truncate = (\<lambda>b n. take n b)\<rparr>"

interpretation vec_builder: octets_builder vec_builder
  by unfold_locales (auto simp: vec_builder_def)

interpretation array_builder: octets_builder "array_builder cap" for cap
  by unfold_locales (auto simp: array_builder_def split: if_splits)

end
