(* ===== verification/Wire.thy ===== *)
theory Wire
  imports Octseq
begin

text \<open>
  \<^verbatim>\<open>src/base/wire.rs\<close>: composing and parsing the primitive values of the wire format, the parse
  error type, and the two helpers that parse and compose whole octet sequences.
\<close>

section \<open>Errors\<close>

type_synonym form_error = string

datatype parse_error = ShortInputError | Form form_error

definition form_error :: "string \<Rightarrow> parse_error" where
  "form_error msg = Form msg"

fun parse_error_from_short :: "short_input \<Rightarrow> parse_error" where
  "parse_error_from_short ShortInput = ShortInputError"

section \<open>Composing\<close>

type_synonym 'b target_step = "'b \<Rightarrow> (unit, append_error) result \<times> 'b"

text \<open>Sequencing of composing steps with the question mark operator: the first error ends it.\<close>

definition then_compose :: "'b target_step \<Rightarrow> 'b target_step \<Rightarrow> 'b target_step" where
  "then_compose f g t = (case f t of (Ok u, t') \<Rightarrow> g t' | (Err e, t') \<Rightarrow> (Err e, t') | (Panic, t') \<Rightarrow> (Panic, t'))"

fun compose_all :: "('a \<Rightarrow> 'b target_step) \<Rightarrow> 'a list \<Rightarrow> 'b target_step" where
  "compose_all f [] t = (Ok (), t)"
| "compose_all f (x # xs) t =
     (case f x t of (Ok u, t') \<Rightarrow> compose_all f xs t' | (Err e, t') \<Rightarrow> (Err e, t') | (Panic, t') \<Rightarrow> (Panic, t'))"

definition compose_u8 :: "'b builder_ops \<Rightarrow> octet \<Rightarrow> 'b target_step" where
  "compose_u8 B x t = bo_append B t [x]"

text \<open>The macro \<open>compose_to_be_bytes\<close>, for every integer type it is used at.\<close>

definition compose_be :: "'b builder_ops \<Rightarrow> 'a::len word \<Rightarrow> 'b target_step" where
  "compose_be B x t = bo_append B t (to_be_bytes x)"

definition compose_len_be :: "'a::len itself \<Rightarrow> u16" where
  "compose_len_be T = of_nat (drop_bit 3 (LENGTH('a)))"

datatype ipv4_addr = Ipv4Addr octet octet octet octet

fun ipv4_octets :: "ipv4_addr \<Rightarrow> octets" where
  "ipv4_octets (Ipv4Addr a b c d) = [a, b, c, d]"

definition compose_ipv4 :: "'b builder_ops \<Rightarrow> ipv4_addr \<Rightarrow> 'b target_step" where
  "compose_ipv4 B x t = bo_append B t (ipv4_octets x)"

text \<open>An IPv6 address is its sixteen octets.\<close>

definition compose_ipv6 :: "'b builder_ops \<Rightarrow> octets \<Rightarrow> 'b target_step" where
  "compose_ipv6 B x t = bo_append B t x"

section \<open>Parsing\<close>

type_synonym 'a parse_result = "('a \<times> parser, parse_error) result"

definition parse_u8 :: "parser_ops \<Rightarrow> parser \<Rightarrow> octet parse_result" where
  "parse_u8 P p = rmap_err parse_error_from_short (ps_parse_u8 P p)"

definition parse_u16 :: "parser_ops \<Rightarrow> parser \<Rightarrow> u16 parse_result" where
  "parse_u16 P p = rmap_err parse_error_from_short (ps_parse_u16_be P p)"

definition parse_u32 :: "parser_ops \<Rightarrow> parser \<Rightarrow> u32 parse_result" where
  "parse_u32 P p = rmap_err parse_error_from_short (ps_parse_u32_be P p)"

definition parse_u64 :: "parser_ops \<Rightarrow> parser \<Rightarrow> u64 parse_result" where
  "parse_u64 P p = rmap_err parse_error_from_short (ps_parse_u64_be P p)"

definition parse_ipv4 :: "parser_ops \<Rightarrow> parser \<Rightarrow> ipv4_addr parse_result" where
  "parse_ipv4 P p =
     rbind (parse_u8 P p) (\<lambda>(a, p). rbind (parse_u8 P p) (\<lambda>(b, p).
     rbind (parse_u8 P p) (\<lambda>(c, p). rbind (parse_u8 P p) (\<lambda>(d, p).
       Ok (Ipv4Addr a b c d, p)))))"

definition parse_ipv6 :: "parser_ops \<Rightarrow> parser \<Rightarrow> octets parse_result" where
  "parse_ipv6 P p = rmap_err parse_error_from_short (ps_parse_buf P p 16)"

definition parse_array :: "parser_ops \<Rightarrow> nat \<Rightarrow> parser \<Rightarrow> octets parse_result" where
  "parse_array P n p = rmap_err parse_error_from_short (ps_parse_buf P p n)"

section \<open>Whole sequences\<close>

definition parse_slice :: "parser_ops \<Rightarrow> octets \<Rightarrow> (parser \<Rightarrow> 'a parse_result) \<Rightarrow> ('a, parse_error) result" where
  "parse_slice P data op =
     rbind (op (ps_from_ref P data)) (\<lambda>(res, parser).
       if p_remaining parser > 0 then Err (form_error ''trailing data'') else Ok res)"

definition compose_vec :: "octets target_step \<Rightarrow> octets" where
  "compose_vec op = snd (op [])"

section \<open>Laws\<close>

text \<open>
  The effect of a composing step on its target: success appends exactly the octets \<open>bs\<close>, a failed
  step only ever extends the content, and there is no panic.
\<close>

definition appends :: "'b builder_ops \<Rightarrow> 'b target_step \<Rightarrow> octets \<Rightarrow> bool" where
  "appends B f bs \<longleftrightarrow> (\<forall>t. case f t of
       (Ok u, t') \<Rightarrow> bo_as_ref B t' = bo_as_ref B t @ bs
     | (Err e, t') \<Rightarrow> (\<exists>ys. bo_as_ref B t' = bo_as_ref B t @ ys)
     | (Panic, t') \<Rightarrow> False)"

text \<open>A step that cannot fail, on a target whose appends cannot fail.\<close>

definition always_appends :: "octets target_step \<Rightarrow> octets \<Rightarrow> bool" where
  "always_appends f bs \<longleftrightarrow> (\<forall>t. f t = (Ok (), t @ bs))"

named_theorems appends_intros \<open>how composing steps append\<close>

lemma appends_Ok: "appends B f bs \<Longrightarrow> f t = (Ok u, t') \<Longrightarrow> bo_as_ref B t' = bo_as_ref B t @ bs"
  by (auto simp: appends_def dest: spec [of _ t])

lemma appends_Err: "appends B f bs \<Longrightarrow> f t = (Err e, t') \<Longrightarrow> \<exists>ys. bo_as_ref B t' = bo_as_ref B t @ ys"
  by (auto simp: appends_def dest: spec [of _ t])

lemma appends_no_Panic: "appends B f bs \<Longrightarrow> fst (f t) \<noteq> Panic"
  by (cases "f t") (auto simp: appends_def dest: spec [of _ t])

context octets_target
begin

lemma appends_append [appends_intros]: "appends B (\<lambda>t. bo_append B t bs) bs"
  unfolding appends_def
proof
  fix t
  show "case bo_append B t bs of (Ok u, t') \<Rightarrow> bo_as_ref B t' = bo_as_ref B t @ bs
     | (Err e, t') \<Rightarrow> \<exists>ys. bo_as_ref B t' = bo_as_ref B t @ ys | (Panic, t') \<Rightarrow> False"
    by (rule append_cases [of t bs]) auto
qed

end

lemma appends_nothing [appends_intros]: "appends B (\<lambda>t. (Ok (), t)) []"
  by (simp add: appends_def)

lemma appendsI:
  assumes "\<And>t u t'. f t = (Ok u, t') \<Longrightarrow> bo_as_ref B t' = bo_as_ref B t @ bs"
    and "\<And>t e t'. f t = (Err e, t') \<Longrightarrow> \<exists>ys. bo_as_ref B t' = bo_as_ref B t @ ys"
    and "\<And>t. fst (f t) \<noteq> Panic"
  shows "appends B f bs"
  unfolding appends_def
proof
  fix t
  show "case f t of (Ok u, t') \<Rightarrow> bo_as_ref B t' = bo_as_ref B t @ bs
     | (Err e, t') \<Rightarrow> \<exists>ys. bo_as_ref B t' = bo_as_ref B t @ ys | (Panic, t') \<Rightarrow> False"
    using assms(1,2) [of t] assms(3) [of t] by (auto split: prod.split result.split)
qed

lemma then_compose_eq:
  "f t = (Ok u, t') \<Longrightarrow> then_compose f g t = g t'"
  "f t = (Err e, t') \<Longrightarrow> then_compose f g t = (Err e, t')"
  "f t = (Panic, t') \<Longrightarrow> then_compose f g t = (Panic, t')"
  by (simp_all add: then_compose_def)

lemma then_compose_Ok:
  "then_compose f g t = (Ok u, t') \<longleftrightarrow> (\<exists>u1 t1. f t = (Ok u1, t1) \<and> g t1 = (Ok u, t'))"
  by (auto simp: then_compose_def split: prod.splits result.splits)

lemma then_compose_Err:
  "then_compose f g t = (Err e, t') \<longleftrightarrow> f t = (Err e, t') \<or> (\<exists>u1 t1. f t = (Ok u1, t1) \<and> g t1 = (Err e, t'))"
  by (auto simp: then_compose_def split: prod.splits result.splits)

lemma appends_then [appends_intros]:
  assumes f: "appends B f bs" and g: "appends B g cs"
  shows "appends B (then_compose f g) (bs @ cs)"
proof (rule appendsI)
  fix t u t' assume "then_compose f g t = (Ok u, t')"
  then show "bo_as_ref B t' = bo_as_ref B t @ bs @ cs"
    by (auto simp: then_compose_Ok dest!: appends_Ok [OF f] appends_Ok [OF g])
next
  fix t e t' assume "then_compose f g t = (Err e, t')"
  then show "\<exists>ys. bo_as_ref B t' = bo_as_ref B t @ ys"
    by (auto simp: then_compose_Err dest!: appends_Ok [OF f] appends_Err [OF f] appends_Err [OF g])
next
  fix t
  show "fst (then_compose f g t) \<noteq> Panic"
    using appends_no_Panic [OF f, of t] appends_no_Panic [OF g]
    by (auto simp: then_compose_def split: prod.split result.split)
qed

lemma appends_all [appends_intros]:
  assumes "\<And>x. x \<in> set xs \<Longrightarrow> appends B (f x) (e x)"
  shows "appends B (compose_all f xs) (concat (map e xs))"
  using assms
proof (induction xs)
  case Nil
  then show ?case by (simp add: appends_def)
next
  case (Cons x xs)
  have "compose_all f (x # xs) = then_compose (f x) (compose_all f xs)"
    by (rule ext) (simp add: then_compose_def)
  then show ?case using Cons by (simp add: appends_then)
qed

lemma always_appends_then: "always_appends f bs \<Longrightarrow> always_appends g cs \<Longrightarrow> always_appends (then_compose f g) (bs @ cs)"
  by (simp add: always_appends_def then_compose_def)

lemma always_appends_all:
  "(\<And>x. x \<in> set xs \<Longrightarrow> always_appends (f x) (e x)) \<Longrightarrow> always_appends (compose_all f xs) (concat (map e xs))"
  by (induction xs) (simp_all add: always_appends_def)

lemma always_appends_vec: "always_appends (\<lambda>t. bo_append vec_builder t bs) bs"
  by (simp add: always_appends_def vec_builder_def)

text \<open>
  The contract between a composer and a parser of the same value: \<open>wire_len\<close> octets are appended
  and read, and reading what was appended gives the value back.  It is stated once for all
  values with a wire format of their own, and interpreted for each primitive.
\<close>

locale wire_codec =
  fixes P :: parser_ops
    and enc :: "'a \<Rightarrow> octets"
    and dec :: "parser \<Rightarrow> 'a parse_result"
    and valid :: "'a \<Rightarrow> bool"
  assumes dec_enc: "valid x \<Longrightarrow> parser_wf p \<Longrightarrow> p_rest p = enc x @ ys \<Longrightarrow>
      dec p = Ok (x, p_forward p (length (enc x)))"
begin

lemma parse_slice_enc:
  assumes "octseq_parser P" "valid x"
  shows "parse_slice P (enc x) dec = Ok x"
proof -
  let ?p = "\<lparr>p_octets = enc x, p_pos = 0, p_len = length (enc x)\<rparr>"
  have "dec ?p = Ok (x, p_forward ?p (length (enc x)))"
    by (rule dec_enc [of _ _ "[]"]) (simp_all add: assms parser_wf_def p_rest_def)
  then show ?thesis
    using octseq_parser.ps_from_ref [OF assms(1)]
    by (simp add: parse_slice_def p_remaining_def)
qed

end

context octseq_parser
begin

lemma parse_u8_Ok:
  "parser_wf p \<Longrightarrow> p_rest p = x # ys \<Longrightarrow> parse_u8 P p = Ok (x, p_forward p 1)"
  by (auto simp: parse_u8_def ps_parse_u8 simp flip: length_p_rest)

lemma parse_be_Ok:
  assumes "parser_wf p"
  shows "p_rest p = to_be_bytes (a :: u16) @ ys \<Longrightarrow> parse_u16 P p = Ok (a, p_forward p 2)"
    and "p_rest p = to_be_bytes (b :: u32) @ ys \<Longrightarrow> parse_u32 P p = Ok (b, p_forward p 4)"
    and "p_rest p = to_be_bytes (c :: u64) @ ys \<Longrightarrow> parse_u64 P p = Ok (c, p_forward p 8)"
  using assms
  by (auto simp: parse_u16_def parse_u32_def parse_u64_def ps_laws simp flip: length_p_rest)

lemma parse_ipv4_Ok:
  "parser_wf p \<Longrightarrow> p_rest p = ipv4_octets x @ ys \<Longrightarrow> parse_ipv4 P p = Ok (x, p_forward p 4)"
  by (cases x) (simp add: parse_ipv4_def parse_u8_Ok length_p_rest [symmetric] numeral_eq_Suc)

lemma parse_array_Ok:
  "parser_wf p \<Longrightarrow> p_rest p = x @ ys \<Longrightarrow> length x = n \<Longrightarrow> parse_array P n p = Ok (x, p_forward p n)"
  by (auto simp: parse_array_def ps_parse_buf simp flip: length_p_rest)

end

sublocale octseq_parser \<subseteq> u8: wire_codec P "\<lambda>x. [x]" "parse_u8 P" "\<lambda>_. True"
  by unfold_locales (simp add: parse_u8_Ok)

sublocale octseq_parser \<subseteq> u16: wire_codec P to_be_bytes "parse_u16 P" "\<lambda>_. True"
  by unfold_locales (simp add: parse_be_Ok)

sublocale octseq_parser \<subseteq> u32: wire_codec P to_be_bytes "parse_u32 P" "\<lambda>_. True"
  by unfold_locales (simp add: parse_be_Ok)

sublocale octseq_parser \<subseteq> u64: wire_codec P to_be_bytes "parse_u64 P" "\<lambda>_. True"
  by unfold_locales (simp add: parse_be_Ok)

lemma length_ipv4_octets [simp]: "length (ipv4_octets x) = 4"
  by (cases x) simp

sublocale octseq_parser \<subseteq> ipv4: wire_codec P ipv4_octets "parse_ipv4 P" "\<lambda>_. True"
  by unfold_locales (simp add: parse_ipv4_Ok)

sublocale octseq_parser \<subseteq> ipv6: wire_codec P "\<lambda>x. x" "parse_ipv6 P" "\<lambda>x. length x = 16"
  by unfold_locales (simp add: parse_ipv6_def ps_parse_buf flip: length_p_rest)

lemmas compose_defs = compose_u8_def compose_be_def compose_ipv4_def compose_ipv6_def compose_vec_def
  vec_builder_def

context octseq_parser
begin

lemma parse_slice_primitives:
  shows "parse_slice P [a] (parse_u8 P) = Ok a"
    and "parse_slice P (to_be_bytes b) (parse_u16 P) = Ok b"
    and "parse_slice P (to_be_bytes c) (parse_u32 P) = Ok c"
    and "parse_slice P (to_be_bytes d) (parse_u64 P) = Ok d"
    and "parse_slice P (ipv4_octets e) (parse_ipv4 P) = Ok e"
    and "length f = 16 \<Longrightarrow> parse_slice P f (parse_ipv6 P) = Ok f"
  using octseq_parser_axioms
  by (auto intro: u8.parse_slice_enc u16.parse_slice_enc u32.parse_slice_enc u64.parse_slice_enc
      ipv4.parse_slice_enc ipv6.parse_slice_enc)

end

text \<open>
  Composing an integer or an address into a fresh vector and parsing the vector with
  \<open>parse_slice\<close> gives the value back and leaves nothing over, for every primitive type of the
  wire format and every parser that satisfies the \<open>octseq\<close> contract.
\<close>

theorem primitive_roundtrip:
  assumes P: "octseq_parser P"
  shows "parse_slice P (compose_vec (compose_u8 vec_builder a)) (parse_u8 P) = Ok a \<and>
    parse_slice P (compose_vec (compose_be vec_builder b)) (parse_u16 P) = Ok b \<and>
    parse_slice P (compose_vec (compose_be vec_builder c)) (parse_u32 P) = Ok c \<and>
    parse_slice P (compose_vec (compose_be vec_builder d)) (parse_u64 P) = Ok d \<and>
    parse_slice P (compose_vec (compose_ipv4 vec_builder e)) (parse_ipv4 P) = Ok e"
  by (simp add: compose_defs octseq_parser.parse_slice_primitives [OF P])

theorem primitive_roundtrip_witness:
  "parse_slice slice_parser (compose_vec (compose_u8 vec_builder 7)) (parse_u8 slice_parser) = Ok 7 \<and>
   parse_slice slice_parser (compose_vec (compose_be vec_builder (0x1234 :: u16))) (parse_u16 slice_parser) = Ok 0x1234"
  using primitive_roundtrip [OF slice_parser.octseq_parser_axioms,
      of 7 "0x1234" 0 0 "Ipv4Addr 0 0 0 0"]
  by blast

end
