(* ===== verification/Label.thy ===== *)
theory Label
  imports Wire
begin

text \<open>
  \<^verbatim>\<open>src/base/name/label.rs\<close>: the labels of a domain name.  A label is the sequence of its octets
  without the length octet; on the wire it is preceded by that octet.
\<close>

section \<open>Labels and their errors\<close>

type_synonym label = octets

definition LABEL_MAX_LEN :: nat where
  "LABEL_MAX_LEN = 63"

datatype label_type_error = Undefined | Extended octet

datatype long_label_error = LongLabelError

datatype split_label_error = Pointer u16 | BadType label_type_error | SplitShortInput

fun parse_error_from_split :: "split_label_error \<Rightarrow> parse_error" where
  "parse_error_from_split (Pointer p) = Form ''compressed domain name''"
| "parse_error_from_split (BadType t) = Form ''invalid label type''"
| "parse_error_from_split SplitShortInput = ShortInputError"

section \<open>Creation\<close>

definition label_root :: label where
  "label_root = []"

definition label_wildcard :: label where
  "label_wildcard = [42]"

definition label_from_slice :: "octets \<Rightarrow> (label, long_label_error) result" where
  "label_from_slice octs = (if length octs > LABEL_MAX_LEN then Err LongLabelError else Ok octs)"

text \<open>
  \<open>Label::split_from\<close>: the two top bits of the head octet tell a label from the two unused label
  types and from a compression pointer, whose remaining 14 bits are the position.
\<close>

definition split_from :: "octets \<Rightarrow> (label \<times> octets, split_label_error) result" where
  "split_from octs =
     (case octs of
        [] \<Rightarrow> Err SplitShortInput
      | head # _ \<Rightarrow>
          if head \<le> 0x3F then
            (let end = unat head + 1 in
             if length octs < end then Err SplitShortInput
             else Ok (drop 1 (take end octs), drop end octs))
          else if head \<le> 0x7F then Err (BadType (Extended head))
          else if 0xC0 \<le> head then
            (case drop 1 octs of
               [] \<Rightarrow> Err SplitShortInput
             | ch # _ \<Rightarrow>
                 (let res = (ucast ch :: u16);
                      res = res OR push_bit 8 ((ucast head :: u16) AND 0x3F)
                  in Err (Pointer res)))
          else Err (BadType Undefined))"

section \<open>Canonical form, comparison and composing\<close>

definition label_make_canonical :: "label \<Rightarrow> label" where
  "label_make_canonical l = map to_ascii_lowercase l"

text \<open>\<open>make_slice_canonical\<close> loops over the labels of a slice and panics on a broken one.\<close>

lemma split_from_shorter: "split_from octs = Ok (l, tail) \<Longrightarrow> length tail < length octs"
  by (auto simp: split_from_def Let_def split: list.splits if_splits)

function make_slice_canonical :: "octets \<Rightarrow> (octets, 'e) result" where
  "make_slice_canonical octs =
     (if octs = [] then Ok []
      else (case split_from octs of
              Ok (head, tail) \<Rightarrow>
                rmap (\<lambda>rest. take 1 octs @ label_make_canonical head @ rest) (make_slice_canonical tail)
            | _ \<Rightarrow> Panic))"
  by pat_completeness auto
termination
  by (relation "measure length") (auto dest: split_from_shorter)

declare make_slice_canonical.simps [simp del]

definition label_eq :: "label \<Rightarrow> label \<Rightarrow> bool" where
  "label_eq a b = eq_ignore_ascii_case a b"

definition label_cmp :: "label \<Rightarrow> label \<Rightarrow> ordering" where
  "label_cmp a b = list_cmp ord_cmp (map to_ascii_lowercase a) (map to_ascii_lowercase b)"

definition label_composed_cmp :: "label \<Rightarrow> label \<Rightarrow> ordering" where
  "label_composed_cmp a b =
     (case ord_cmp (length a) (length b) of Equal \<Rightarrow> list_cmp ord_cmp a b | r \<Rightarrow> r)"

definition label_lowercase_composed_cmp :: "label \<Rightarrow> label \<Rightarrow> ordering" where
  "label_lowercase_composed_cmp a b =
     (case ord_cmp (length a) (length b) of Equal \<Rightarrow> label_cmp a b | r \<Rightarrow> r)"

definition label_compose :: "'b builder_ops \<Rightarrow> label \<Rightarrow> 'b target_step" where
  "label_compose B l t =
     then_compose (\<lambda>t. bo_append B t [of_nat (length l)]) (\<lambda>t. bo_append B t l) t"

definition label_compose_canonical :: "'b builder_ops \<Rightarrow> label \<Rightarrow> 'b target_step" where
  "label_compose_canonical B l t =
     then_compose (\<lambda>t. bo_append B t [of_nat (length l)])
       (compose_all (\<lambda>ch t. bo_append B t [to_ascii_lowercase ch]) l) t"

section \<open>Properties of a label\<close>

definition label_is_root :: "label \<Rightarrow> bool" where
  "label_is_root l \<longleftrightarrow> l = []"

definition label_is_wildcard :: "label \<Rightarrow> bool" where
  "label_is_wildcard l \<longleftrightarrow> length l = 1 \<and> l ! 0 = 42"

definition label_compose_len :: "label \<Rightarrow> (u16, 'e) result" where
  "label_compose_len l = (if length l < 2 ^ 16 then Ok (of_nat (length l) + 1) else Panic)"

text \<open>What is fed to the hasher: the length and the lower-cased octets.\<close>

definition label_hash_input :: "label \<Rightarrow> octets" where
  "label_hash_input l = of_nat (length l) # map to_ascii_lowercase l"

section \<open>The iterator over the labels of a slice\<close>

text \<open>
  \<open>SliceLabelsIter\<close> with its \<open>next\<close>.  The inner loop follows compression pointers and need not end,
  so it is a partial function: \<open>None\<close> is a call that never returns.  \<open>usize::MAX\<close> fuses the
  iterator.
\<close>

record slice_labels_iter =
  sli_slice :: octets
  sli_start :: nat

definition usize_MAX :: nat where
  "usize_MAX = 2 ^ 64 - 1"

definition iter_slice :: "octets \<Rightarrow> nat \<Rightarrow> slice_labels_iter" where
  "iter_slice octs start = \<lparr>sli_slice = octs, sli_start = start\<rparr>"

partial_function (option) slice_labels_loop ::
    "slice_labels_iter \<Rightarrow> (label option \<times> slice_labels_iter) option" where
  "slice_labels_loop it =
     (case split_from (drop (sli_start it) (sli_slice it)) of
        Ok (label, _) \<Rightarrow>
          Some (Some label,
            if label_is_root label then it\<lparr>sli_start := usize_MAX\<rparr>
            else it\<lparr>sli_start := sli_start it + length label + 1\<rparr>)
      | Err (Pointer pos) \<Rightarrow>
          if unat pos > sli_start it then Some (None, it\<lparr>sli_start := usize_MAX\<rparr>)
          else slice_labels_loop (it\<lparr>sli_start := unat pos\<rparr>)
      | _ \<Rightarrow> Some (None, it\<lparr>sli_start := usize_MAX\<rparr>))"

definition slice_labels_next :: "slice_labels_iter \<Rightarrow> (label option \<times> slice_labels_iter) option" where
  "slice_labels_next it =
     (if sli_start it \<ge> length (sli_slice it) then Some (None, it) else slice_labels_loop it)"

section \<open>Wire format\<close>

text \<open>The specification of the encoding: a length octet and the content.\<close>

definition wire_label :: "label \<Rightarrow> octets" where
  "wire_label l = of_nat (length l) # l"

definition valid_label :: "label \<Rightarrow> bool" where
  "valid_label l \<longleftrightarrow> length l \<le> LABEL_MAX_LEN"

lemma length_wire_label [simp]: "length (wire_label l) = Suc (length l)"
  by (simp add: wire_label_def)

lemma unat_of_nat_label: "length l \<le> 63 \<Longrightarrow> unat (of_nat (length l) :: octet) = length l"
  by (simp add: unat_of_nat)

lemma split_from_wire_label [simp]:
  "valid_label l \<Longrightarrow> split_from (wire_label l @ rest) = Ok (l, rest)"
  by (simp add: split_from_def wire_label_def valid_label_def LABEL_MAX_LEN_def unat_of_nat_label
      word_le_nat_alt)

lemma split_from_Ok_iff: "split_from octs = Ok (l, tail) \<longleftrightarrow> valid_label l \<and> octs = wire_label l @ tail"
proof
  assume "split_from octs = Ok (l, tail)"
  then obtain head rest where octs: "octs = head # rest" and h: "head \<le> 0x3F"
    and len: "unat head \<le> length rest" and l: "l = take (unat head) rest" and t: "tail = drop (unat head) rest"
    by (auto simp: split_from_def Let_def split: list.splits if_splits)
  from h have "unat head \<le> 63" by (simp add: word_le_nat_alt)
  moreover from len l have "length l = unat head" by simp
  moreover from this have "(of_nat (length l) :: octet) = head" by simp
  ultimately show "valid_label l \<and> octs = wire_label l @ tail"
    by (simp add: valid_label_def LABEL_MAX_LEN_def wire_label_def octs l t)
qed auto

lemma unat_ucast_octet: "unat (ucast (x::octet) :: u16) = unat x"
  by (simp add: unsigned_ucast_eq take_bit_nat_eq_self_iff order_less_trans [OF unat_octet_less])

lemma unat_and_63: "unat ((ucast (x::octet) :: u16) AND 0x3F) = unat x mod 64"
proof -
  have "((ucast x :: u16) AND 0x3F) = ucast x mod 64"
    using take_bit_eq_mask [of 6 "ucast x :: u16"] by (simp add: take_bit_eq_mod mask_eq_exp_minus_1)
  then show ?thesis by (simp add: unat_mod unat_ucast_octet)
qed

lemma pointer_unat:
  "unat ((ucast (ch::octet) :: u16) OR push_bit 8 ((ucast head :: u16) AND 0x3F)) =
     unat ch + unat (head::octet) mod 64 * 256"
proof -
  let ?h = "(ucast head :: u16) AND 0x3F"
  have or: "(ucast ch :: u16) OR push_bit 8 ?h = ucast ch + push_bit 8 ?h"
    by (rule disjunctive_add [symmetric]) (auto simp: bit_simps dest: bit_imp_le_length)
  have sh: "unat (push_bit 8 ?h) = (unat head mod 64) * 256"
    by (simp add: push_bit_eq_mult unat_word_ariths unat_and_63)
  have bound: "a < 64 \<Longrightarrow> b < 256 \<Longrightarrow> b + a * 256 < (65536 :: nat)" for a b by simp
  have "unat ch + unat head mod 64 * 256 < 65536" by (rule bound) simp_all
  then have "(unat ch + unat head mod 64 * 256) mod 65536 = unat ch + unat head mod 64 * 256"
    by (rule mod_less)
  moreover have "(2::nat) ^ LENGTH(16) = 65536" by simp
  ultimately show ?thesis unfolding or unat_word_ariths(1) unat_ucast_octet sh by (simp only:)
qed

lemma to_be_bytes_u16: "to_be_bytes (w :: u16) = [of_nat (unat w div 256), of_nat (unat w mod 256)]"
proof -
  have "unat w < 65536" using unsigned_less [of w] by simp
  then show ?thesis by (simp add: to_be_bytes_def numeral_2_eq_2)
qed

lemma pointer_tag: "(0xC000 :: u16) = push_bit 14 (mask 2)"
  by (simp add: mask_eq_exp_minus_1)

lemma unat_or_pointer_tag: "unat ((pos :: u16) OR 0xC000) = unat pos mod 0x4000 + 0xC000"
proof -
  have "pos OR 0xC000 = take_bit 14 pos OR 0xC000"
    unfolding pointer_tag by (rule bit_word_eqI) (auto simp: bit_simps)
  also have "\<dots> = take_bit 14 pos + 0xC000"
    unfolding pointer_tag by (rule disjunctive_add [symmetric]) (auto simp: bit_simps)
  finally have "pos OR 0xC000 = take_bit 14 pos + 0xC000" .
  moreover have "unat (take_bit 14 pos) = unat pos mod 0x4000"
    by (simp add: take_bit_eq_mod unat_mod)
  moreover have "(unat pos mod 0x4000 + 0xC000) mod 0x10000 = unat pos mod 0x4000 + 0xC000"
  proof (rule mod_less)
    have bound: "x < 0x4000 \<Longrightarrow> x + 0xC000 < (0x10000 :: nat)" for x by simp
    show "unat pos mod 0x4000 + 0xC000 < 0x10000" by (rule bound) simp
  qed
  moreover have "(2::nat) ^ LENGTH(16) = 0x10000" "unat (0xC000 :: u16) = 0xC000" by simp_all
  ultimately show ?thesis by (simp only: unat_word_ariths(1))
qed

lemma split_from_pointer_octets:
  "192 \<le> unat head \<Longrightarrow>
     split_from (head # ch # rest) = Err (Pointer (of_nat (unat ch + unat head mod 64 * 256)))"
proof -
  assume h: "192 \<le> unat head"
  have "of_nat (unat ch + unat head mod 64 * 256) = (ucast ch :: u16) OR push_bit 8 ((ucast head :: u16) AND 0x3F)"
    unfolding pointer_unat [symmetric] by simp
  with h show ?thesis by (simp only:) (simp add: split_from_def word_le_nat_alt Let_def)
qed

text \<open>
  A compression pointer on the wire: splitting it off gives the low 14 bits of the position that
  was composed.
\<close>

lemma pointer_split:
  assumes "y < (0x4000 :: nat)"
  shows "(y + 0xC000) div 256 = y div 256 + 192" "(y + 0xC000) mod 256 = y mod 256" "y div 256 < 64"
proof -
  have "y + 0xC000 = y + 192 * 256" by simp
  then show "(y + 0xC000) div 256 = y div 256 + 192" "(y + 0xC000) mod 256 = y mod 256"
    by (simp_all only: div_mult_self1 mod_mult_self1)
  from assms show "y div 256 < 64" by (simp add: less_mult_imp_div_less)
qed

lemma split_from_pointer:
  "split_from (to_be_bytes ((pos :: u16) OR 0xC000) @ rest) = Err (Pointer (of_nat (unat pos mod 0x4000)))"
proof -
  define y where "y = unat pos mod 0x4000"
  have "y < 0x4000" by (simp add: y_def)
  note y = pointer_split [OF this]
  have h: "unat (of_nat (z + 192) :: octet) = z + 192" "(z + 192) mod 64 = z" if "z < 64" for z
    using that mod_mult_self1 [of z 3 64] by (simp_all only: unat_of_nat) simp_all
  have c: "unat (of_nat (y mod 256) :: octet) = y mod 256" by simp
  have "y mod 256 + (y div 256 + 192) mod 64 * 256 = y"
    unfolding h(2) [OF y(3)] by simp
  then show ?thesis
    unfolding to_be_bytes_u16 unat_or_pointer_tag append_Cons append_Nil y_def [symmetric] y(1,2)
    by (simp only: split_from_pointer_octets h(1) [OF y(3)] c le_add2)
qed

section \<open>Lemmas\<close>

definition wire :: "label list \<Rightarrow> octets" where
  "wire ls = concat (map wire_label ls)"

lemma wire_simps [simp]:
  "wire [] = []" "wire (l # ls) = wire_label l @ wire ls" "wire (ls @ ms) = wire ls @ wire ms"
  by (simp_all add: wire_def)

lemma wire_label_not_Nil [simp]: "wire_label l \<noteq> []" "wire_label l @ xs \<noteq> []"
  by (simp_all add: wire_label_def)

lemma wire_Nil_iff [simp]: "wire ls = [] \<longleftrightarrow> ls = []" "[] = wire ls \<longleftrightarrow> ls = []"
  by (cases ls; simp)+

lemma length_wire: "length (wire ls) = sum_list (map (\<lambda>l. Suc (length l)) ls)"
  by (induction ls) simp_all

lemma length_le_wire: "length ls \<le> length (wire ls)"
  by (induction ls) simp_all

text \<open>The encoding is prefix free, so that a sequence of valid labels is determined by its octets.\<close>

lemma wire_label_inj:
  assumes "valid_label l" "valid_label m" "wire_label l @ xs = wire_label m @ ys"
  shows "l = m \<and> xs = ys"
proof -
  have "(Ok (l, xs) :: (label \<times> octets, split_label_error) result) = Ok (m, ys)"
    unfolding split_from_wire_label [OF assms(1), symmetric] split_from_wire_label [OF assms(2), symmetric]
    by (simp only: assms(3))
  then show ?thesis by simp
qed

lemma wire_inj:
  "list_all valid_label ls \<Longrightarrow> list_all valid_label ms \<Longrightarrow> wire ls = wire ms \<Longrightarrow> ls = ms"
proof (induction ls arbitrary: ms)
  case Nil
  then show ?case by simp
next
  case (Cons l ls)
  from Cons.prems(3) obtain m ms' where ms: "ms = m # ms'" by (cases ms) simp_all
  with Cons.prems have eq: "l = m \<and> wire ls = wire ms'" by (intro wire_label_inj) simp_all
  from ms Cons.prems have "ls = ms'" by (intro Cons.IH) (simp_all add: eq)
  with ms eq show ?case by simp
qed

context octets_target
begin

lemma appends_label_compose [appends_intros]: "appends B (label_compose B l) (wire_label l)"
proof -
  have eq: "label_compose B l = then_compose (\<lambda>t. bo_append B t [of_nat (length l)]) (\<lambda>t. bo_append B t l)"
    by (rule ext) (simp only: label_compose_def)
  have w: "wire_label l = [of_nat (length l)] @ l" by (simp add: wire_label_def)
  show ?thesis unfolding eq w by (rule appends_then [OF appends_append appends_append])
qed

lemma appends_label_compose_canonical [appends_intros]:
  "appends B (label_compose_canonical B l) (wire_label (label_make_canonical l))"
proof -
  have eq: "label_compose_canonical B l = then_compose (\<lambda>t. bo_append B t [of_nat (length l)])
      (compose_all (\<lambda>ch t. bo_append B t [to_ascii_lowercase ch]) l)"
    by (rule ext) (simp only: label_compose_canonical_def)
  have c: "concat (map (\<lambda>ch. [to_ascii_lowercase ch]) l) = label_make_canonical l"
    by (induction l) (simp_all add: label_make_canonical_def)
  have w: "wire_label (label_make_canonical l) =
      [of_nat (length l)] @ concat (map (\<lambda>ch. [to_ascii_lowercase ch]) l)"
    unfolding c by (simp add: wire_label_def label_make_canonical_def)
  show ?thesis
    unfolding eq w by (rule appends_then [OF appends_append appends_all [OF appends_append]])
qed

end

lemma always_appends_label: "always_appends (label_compose vec_builder l) (wire_label l)"
  by (simp add: always_appends_def label_compose_def then_compose_def vec_builder_def wire_label_def)

interpretation label_cmp: total_cmp label_cmp "map to_ascii_lowercase"
proof -
  have "total_cmp (list_cmp (ord_cmp :: octet \<Rightarrow> octet \<Rightarrow> ordering)) (map (\<lambda>x. x))"
    by (rule ord_cmp.total_list_cmp)
  from total_cmp_image [OF this, of "map to_ascii_lowercase"]
  show "total_cmp label_cmp (map to_ascii_lowercase)"
    by (simp add: label_cmp_def [abs_def])
qed

lemma label_cmp_lexord: "label_cmp a b = Less \<longleftrightarrow> (label_make_canonical a, label_make_canonical b) \<in> lexord {(x, y). x < y}"
  unfolding label_cmp_def label_make_canonical_def
  by (subst list_cmp_lexord [where k = "\<lambda>x. x" and R = "{(x, y). x < y}"]) (auto simp: ord_cmp_def)

lemma label_eq_iff_cmp: "label_eq a b \<longleftrightarrow> label_cmp a b = Equal"
  by (simp add: label_eq_def eq_ignore_ascii_case_def label_cmp.cmp_Equal)

lemma label_eq_hash:
  "valid_label a \<Longrightarrow> valid_label b \<Longrightarrow> label_eq a b \<longleftrightarrow> label_hash_input a = label_hash_input b"
  by (auto simp: label_eq_def label_hash_input_def dest: eq_ignore_ascii_case_length)
    (simp_all add: eq_ignore_ascii_case_def)

lemma label_composed_cmp_wire:
  assumes "valid_label a" "valid_label b"
  shows "label_composed_cmp a b = list_cmp ord_cmp (wire_label a) (wire_label b)"
proof -
  have "unat (of_nat (length l) :: octet) = length l" if "valid_label l" for l
    using that by (simp add: valid_label_def LABEL_MAX_LEN_def unat_of_nat)
  then have "ord_cmp (of_nat (length a) :: octet) (of_nat (length b)) = ord_cmp (length a) (length b)"
    using assms by (simp add: ord_cmp_def word_less_nat_alt word_unat_eq_iff)
  then show ?thesis by (simp add: label_composed_cmp_def wire_label_def)
qed

lemma valid_label_canonical [simp]: "valid_label (label_make_canonical l) \<longleftrightarrow> valid_label l"
  by (simp add: valid_label_def label_make_canonical_def)

lemma make_slice_canonical_wire:
  "list_all valid_label ls \<Longrightarrow> make_slice_canonical (wire ls) = Ok (wire (map label_make_canonical ls))"
proof (induction ls)
  case Nil
  show ?case by (simp add: make_slice_canonical.simps)
next
  case (Cons l ls)
  have "take 1 (wire (l # ls)) @ label_make_canonical l = wire_label (label_make_canonical l)"
    by (simp add: wire_label_def label_make_canonical_def)
  with Cons show ?case
    by (subst make_slice_canonical.simps) simp
qed

section \<open>The slice iterator\<close>

definition pointer_at :: "octets \<Rightarrow> nat \<Rightarrow> nat option" where
  "pointer_at octs i = (case split_from (drop i octs) of Err (Pointer q) \<Rightarrow> Some (unat q) | _ \<Rightarrow> None)"

lemma slice_labels_loop_returns:
  assumes "slice_labels_loop it = Some r"
  shows "pointer_at (sli_slice it) (sli_start it) \<noteq> Some (sli_start it)"
proof (rule slice_labels_loop.raw_induct
    [where P = "\<lambda>it r. pointer_at (sli_slice it) (sli_start it) \<noteq> Some (sli_start it)", OF _ assms])
  fix f :: "slice_labels_iter \<Rightarrow> (label option \<times> slice_labels_iter) option" and it r
  assume IH: "\<And>it r. f it = Some r \<Longrightarrow> pointer_at (sli_slice it) (sli_start it) \<noteq> Some (sli_start it)"
    and eq: "(case split_from (drop (sli_start it) (sli_slice it)) of
        Ok (label, _) \<Rightarrow>
          Some (Some label,
            if label_is_root label then it\<lparr>sli_start := usize_MAX\<rparr>
            else it\<lparr>sli_start := sli_start it + length label + 1\<rparr>)
      | Err (Pointer pos) \<Rightarrow>
          if unat pos > sli_start it then Some (None, it\<lparr>sli_start := usize_MAX\<rparr>)
          else f (it\<lparr>sli_start := unat pos\<rparr>)
      | _ \<Rightarrow> Some (None, it\<lparr>sli_start := usize_MAX\<rparr>)) = Some r"
  show "pointer_at (sli_slice it) (sli_start it) \<noteq> Some (sli_start it)"
  proof
    assume "pointer_at (sli_slice it) (sli_start it) = Some (sli_start it)"
    then obtain q where q: "split_from (drop (sli_start it) (sli_slice it)) = Err (Pointer q)"
      "unat q = sli_start it"
      by (auto simp: pointer_at_def split: result.splits split_label_error.splits)
    with eq have "f it = Some r" by simp
    from IH [OF this] q show False by (simp add: pointer_at_def)
  qed
qed

lemma slice_labels_loop_total:
  assumes "\<And>i. i \<le> sli_start it \<Longrightarrow> pointer_at (sli_slice it) i \<noteq> Some i"
  shows "\<exists>r. slice_labels_loop it = Some r"
  using assms
proof (induction "sli_start it" arbitrary: it rule: less_induct)
  case less
  show ?case
  proof (cases "\<exists>q. split_from (drop (sli_start it) (sli_slice it)) = Err (Pointer q) \<and> unat q \<le> sli_start it")
    case True
    then obtain q where q: "split_from (drop (sli_start it) (sli_slice it)) = Err (Pointer q)"
      and le: "unat q \<le> sli_start it" by blast
    from q less.prems [of "sli_start it"] have "unat q \<noteq> sli_start it" by (simp add: pointer_at_def)
    with le have "unat q < sli_start it" by simp
    with less.hyps [of "it\<lparr>sli_start := unat q\<rparr>"] less.prems
    have "\<exists>r. slice_labels_loop (it\<lparr>sli_start := unat q\<rparr>) = Some r" by simp
    with q le show ?thesis by (subst slice_labels_loop.simps) simp
  next
    case False
    then show ?thesis
      by (subst slice_labels_loop.simps) (auto split: result.splits split_label_error.splits)
  qed
qed

section \<open>Properties\<close>

text \<open>
  A label that \<open>Label::from_slice\<close> accepts survives composing and splitting: what
  \<open>compose\<close> appends to a target is exactly \<open>compose_len\<close> octets, and \<open>split_from\<close> applied to these
  octets, whatever follows them, gives the label and leaves what follows.
\<close>

theorem label_wire_roundtrip:
  assumes "octets_target B" "label_from_slice octs = Ok l" "label_compose B l t = (Ok (), t')"
  shows "\<exists>w. bo_as_ref B t' = bo_as_ref B t @ w \<and>
    label_compose_len l = Ok (of_nat (length w)) \<and>
    (\<forall>rest. split_from (w @ rest) = Ok (l, rest))"
proof -
  have v: "valid_label l"
    using assms(2) by (auto simp: label_from_slice_def valid_label_def split: if_splits)
  have "bo_as_ref B t' = bo_as_ref B t @ wire_label l"
    using octets_target.appends_label_compose [OF assms(1)] assms(3) by (rule appends_Ok)
  with v show ?thesis
    by (intro exI [of _ "wire_label l"])
      (simp add: label_compose_len_def valid_label_def LABEL_MAX_LEN_def)
qed

theorem label_wire_roundtrip_witness:
  "\<exists>w. [9, 3, 119, 119, 119] = [9] @ w \<and> label_compose_len [119, 119, 119] = Ok (of_nat (length w)) \<and>
    (\<forall>rest. split_from (w @ rest) = Ok ([119, 119, 119], rest))"
  using label_wire_roundtrip [OF array_builder.octets_target_axioms, of "[119, 119, 119]" "[119, 119, 119]" 8 "[9]"
      "[9, 3, 119, 119, 119]"]
  by (simp add: array_builder_def label_from_slice_def LABEL_MAX_LEN_def label_compose_def then_compose_def)

text \<open>
  \<open>Label::split_from\<close> decides every input: it succeeds exactly on a valid label followed by
  anything, reports a pointer exactly for two octets tagged as such, with the 14 bits of the position,
  reports a bad label type exactly for the two other tags, and otherwise the input is too short.
\<close>

theorem split_from_decides:
  "(split_from octs = Ok (l, tail) \<longleftrightarrow> valid_label l \<and> octs = wire_label l @ tail) \<and>
   (split_from octs = Err (Pointer p) \<longleftrightarrow>
      (\<exists>h c rest. octs = h # c # rest \<and> 192 \<le> unat h \<and> unat p = unat c + unat h mod 64 * 256)) \<and>
   (split_from octs = Err (BadType ty) \<longleftrightarrow>
      (\<exists>h rest. octs = h # rest \<and>
        (64 \<le> unat h \<and> unat h < 128 \<and> ty = Extended h \<or> 128 \<le> unat h \<and> unat h < 192 \<and> ty = Undefined))) \<and>
   (split_from octs = Err SplitShortInput \<longleftrightarrow>
      octs = [] \<or> (\<exists>h rest. octs = h # rest \<and>
        (unat h < 64 \<and> length rest < unat h \<or> 192 \<le> unat h \<and> rest = []))) \<and>
   split_from octs \<noteq> Panic"
proof (cases octs)
  case Nil
  then show ?thesis by (auto simp: split_from_def)
next
  case (Cons h rest)
  have ptr: "split_from (h # c # cs) = Err (Pointer p) \<longleftrightarrow> unat p = unat c + unat h mod 64 * 256"
    if "192 \<le> unat h" for c cs
  proof -
    define q where "q = (ucast c :: u16) OR push_bit 8 ((ucast h :: u16) AND 0x3F)"
    have "split_from (h # c # cs) = Err (Pointer q)"
      using that by (simp add: split_from_def word_le_nat_alt Let_def q_def)
    moreover have "unat q = unat c + unat h mod 64 * 256"
      unfolding q_def by (rule pointer_unat)
    ultimately show ?thesis by (auto simp: word_unat_eq_iff)
  qed
  have "split_from octs \<noteq> Err (Pointer p)" if "\<not> 192 \<le> unat h \<or> rest = []"
    using that Cons by (auto simp: split_from_def word_le_nat_alt Let_def)
  with ptr have "split_from octs = Err (Pointer p) \<longleftrightarrow>
      (\<exists>h c rest. octs = h # c # rest \<and> 192 \<le> unat h \<and> unat p = unat c + unat h mod 64 * 256)"
    using Cons by (cases rest) auto
  moreover have "split_from octs = Err (BadType ty) \<longleftrightarrow>
      (64 \<le> unat h \<and> unat h < 128 \<and> ty = Extended h \<or> 128 \<le> unat h \<and> unat h < 192 \<and> ty = Undefined)"
    using Cons by (auto simp: split_from_def word_le_nat_alt Let_def split: list.splits)
  moreover have "split_from octs = Err SplitShortInput \<longleftrightarrow>
      (unat h < 64 \<and> length rest < unat h \<or> 192 \<le> unat h \<and> rest = [])"
    using Cons by (auto simp: split_from_def word_le_nat_alt Let_def split: list.splits)
  moreover have "split_from octs \<noteq> Panic"
    using Cons by (auto simp: split_from_def Let_def split: list.splits)
  ultimately show ?thesis using Cons by (simp add: split_from_Ok_iff)
qed

text \<open>
  The order on labels is a total order up to letter case, equality is its equivalence, and
  equal labels are hashed alike.
\<close>

theorem label_order:
  assumes "valid_label a" "valid_label b"
  shows "label_cmp b a = ord_reverse (label_cmp a b) \<and>
    (label_cmp a b = Less \<and> label_cmp b c = Less \<longrightarrow> label_cmp a c = Less) \<and>
    (label_eq a b \<longrightarrow> label_cmp a c = label_cmp b c) \<and>
    (label_eq a b \<longleftrightarrow> label_cmp a b = Equal) \<and>
    (label_eq a b \<longleftrightarrow> label_hash_input a = label_hash_input b)"
  using label_cmp.cmp_flip [of b a] label_cmp.cmp_trans [of a b c] label_cmp.cmp_key_left [of a b c]
    label_eq_iff_cmp [of a b] label_eq_hash [OF assms] label_cmp.cmp_Equal [of a b]
  by blast

theorem label_order_witness:
  "label_cmp [65, 98] [97, 99] = Less \<and> label_cmp [97, 99] [65, 98] = Greater \<and>
   label_eq [65, 98] [97, 66] \<and> label_hash_input [65, 98] = label_hash_input [97, 66]"
  using label_order [of "[65, 98]" "[97, 99]" "[]"] label_order [of "[65, 98]" "[97, 66]" "[]"]
  by (simp add: valid_label_def LABEL_MAX_LEN_def label_cmp_def to_ascii_lowercase_def ord_cmp_def
      label_eq_def eq_ignore_ascii_case_def)

text \<open>
  C35.  \<open>SliceLabelsIter::next\<close> returns for every slice in which no compression pointer points to
  itself: pointers to larger positions end the iteration, and the others lead strictly backwards.
\<close>

theorem slice_labels_next_returns:
  assumes "\<And>i. pointer_at (sli_slice it) i \<noteq> Some i"
  shows "\<exists>r. slice_labels_next it = Some r"
  using slice_labels_loop_total [of it] assms by (simp add: slice_labels_next_def)

theorem slice_labels_next_returns_witness:
  "\<exists>r. slice_labels_next (iter_slice [1, 97, 0, 0xC0, 0] 3) = Some r"
proof (rule slice_labels_next_returns)
  fix i
  have "pointer_at [1, 97, 0, 0xC0, 0] i \<noteq> Some i"
  proof (cases "i < 5")
    case True
    then have "i = 0 \<or> i = 1 \<or> i = 2 \<or> i = 3 \<or> i = 4" by linarith
    then show ?thesis by (elim disjE) (simp_all add: pointer_at_def split_from_def Let_def)
  qed (simp add: pointer_at_def split_from_def)
  then show "pointer_at (sli_slice (iter_slice [1, 97, 0, 0xC0, 0] 3)) i \<noteq> Some i"
    by (simp add: iter_slice_def)
qed

text \<open>
  C36.  A compression pointer that points to itself is not rejected, since only larger positions are:
  \<open>next\<close> at such a pointer never returns.
\<close>

theorem slice_labels_next_self_pointer:
  assumes "sli_start it < length (sli_slice it)"
    and "pointer_at (sli_slice it) (sli_start it) = Some (sli_start it)"
  shows "slice_labels_next it = None"
  using assms slice_labels_loop_returns [of it]
  by (cases "slice_labels_loop it") (simp_all add: slice_labels_next_def)

theorem slice_labels_next_self_pointer_witness: "slice_labels_next (iter_slice [0xC0, 0] 0) = None"
  by (rule slice_labels_next_self_pointer)
    (simp_all add: iter_slice_def pointer_at_def split_from_def Let_def)

end
