(* ===== verification/Symbol.thy ===== *)
theory Symbol
  imports Wire
begin

text \<open>
  \<^verbatim>\<open>src/base/scan.rs\<close>, the part on symbols: the presentation format of a single octet or character,
  either plain or as one of the two escape sequences.  A Rust \<open>char\<close> is its code point, a natural
  number; a character source is the list of its code points.
\<close>

section \<open>Characters\<close>

type_synonym uchar = nat

definition is_ascii_digit :: "uchar \<Rightarrow> bool" where
  "is_ascii_digit c \<longleftrightarrow> 48 \<le> c \<and> c \<le> 57"

text \<open>\<open>char::to_digit\<close> for a radix of at most 36.\<close>

definition to_digit :: "nat \<Rightarrow> uchar \<Rightarrow> nat option" where
  "to_digit radix c =
     (let d = (if 48 \<le> c \<and> c \<le> 57 then Some (c - 48)
               else if 97 \<le> c \<and> c \<le> 122 then Some (c - 97 + 10)
               else if 65 \<le> c \<and> c \<le> 90 then Some (c - 65 + 10)
               else None)
      in case d of Some v \<Rightarrow> (if v < radix then Some v else None) | None \<Rightarrow> None)"

text \<open>\<open>char::try_from\<close> on a \<open>u32\<close>: surrogates and values above 0x10FFFF are not characters.\<close>

definition char_try_from :: "u32 \<Rightarrow> uchar option" where
  "char_try_from v =
     (if unat v < 0xD800 \<or> 0xDFFF < unat v \<and> unat v \<le> 0x10FFFF then Some (unat v) else None)"

section \<open>Symbols\<close>

datatype symbol = Char uchar | SimpleEscape octet | DecimalEscape octet

datatype symbol_chars_error = SymBadEscape | SymShortInput

datatype symbol_octets_error = OctBadUtf8 | OctBadEscape | OctShortInput

datatype bad_symbol = NonAscii | NonUtf8 | NonDigit | BadSymbolEscape

definition symbol_from_chars :: "uchar list \<Rightarrow> (symbol option \<times> uchar list, symbol_chars_error) result" where
  "symbol_from_chars chars =
     (case chars of
        [] \<Rightarrow> Ok (None, [])
      | ch # chars \<Rightarrow>
          if ch \<noteq> 92 then Ok (Some (Char ch), chars)
          else (case chars of
             [] \<Rightarrow> Err SymShortInput
           | ch # chars \<Rightarrow>
               if is_ascii_digit ch then
                 (let v1 = (ch - 48) * 100 in
                  case chars of
                    [] \<Rightarrow> Err SymShortInput
                  | c2 # chars \<Rightarrow>
                      (case to_digit 10 c2 of
                         None \<Rightarrow> Err SymBadEscape
                       | Some d2 \<Rightarrow>
                           (case chars of
                              [] \<Rightarrow> Err SymShortInput
                            | c3 # chars \<Rightarrow>
                                (case to_digit 10 c3 of
                                   None \<Rightarrow> Err SymBadEscape
                                 | Some d3 \<Rightarrow>
                                     (let res = v1 + d2 * 10 + d3 in
                                      if res > 255 then Err SymBadEscape
                                      else Ok (Some (DecimalEscape (of_nat res)), chars))))))
               else if ch > 255 then Err SymBadEscape
               else if ch < 0x20 \<or> ch > 0x7e then Err SymBadEscape
               else Ok (Some (SimpleEscape (of_nat ch)), chars)))"

text \<open>\<open>octets.get(pos)\<close>.\<close>

definition octs_get :: "octets \<Rightarrow> nat \<Rightarrow> octet option" where
  "octs_get octs i = (if i < length octs then Some (octs ! i) else None)"

definition octet_is_digit :: "octet \<Rightarrow> bool" where
  "octet_is_digit c \<longleftrightarrow> 48 \<le> c \<and> c \<le> 57"

text \<open>\<open>from_slice_index\<close>, in its two parts: an escape sequence and a UTF-8 encoded character.\<close>

definition escape_from_slice_index :: "octets \<Rightarrow> nat \<Rightarrow> ((symbol \<times> nat) option, symbol_octets_error) result" where
  "escape_from_slice_index octs pos =
     (case octs_get octs pos of
        None \<Rightarrow> Err OctShortInput
      | Some c2 \<Rightarrow>
          if c2 < 0x20 \<or> c2 = 0x7F then Err OctBadEscape
          else if \<not> octet_is_digit c2 then Ok (Some (SimpleEscape c2, pos + 1))
          else (case octs_get octs (pos + 1) of
             None \<Rightarrow> Err OctShortInput
           | Some c3 \<Rightarrow>
               if \<not> octet_is_digit c3 then Err OctBadEscape
               else (case octs_get octs (pos + 2) of
                  None \<Rightarrow> Err OctShortInput
                | Some c4 \<Rightarrow>
                    if \<not> octet_is_digit c4 then Err OctBadEscape
                    else (let v = unat (c2 - 48) * 100 + unat (c3 - 48) * 10 + unat (c4 - 48) in
                          if v > 255 then Err OctBadEscape
                          else Ok (Some (DecimalEscape (of_nat v), pos + 3))))))"

definition utf8_tail :: "octet \<Rightarrow> bool" where
  "utf8_tail c \<longleftrightarrow> c AND 0xC0 = 0x80"

definition utf8_char :: "u32 \<Rightarrow> nat \<Rightarrow> ((symbol \<times> nat) option, symbol_octets_error) result" where
  "utf8_char v pos = (case char_try_from v of None \<Rightarrow> Err OctBadUtf8 | Some c \<Rightarrow> Ok (Some (Char c, pos)))"

definition utf8_from_slice_index :: "octet \<Rightarrow> octets \<Rightarrow> nat \<Rightarrow> ((symbol \<times> nat) option, symbol_octets_error) result" where
  "utf8_from_slice_index c1 octs pos =
     (if c1 < 128 then Ok (Some (Char (unat c1), pos))
      else if c1 AND 0x40 = 0 then Err OctBadUtf8
      else (case octs_get octs pos of
         None \<Rightarrow> Err OctShortInput
       | Some c2 \<Rightarrow>
           if \<not> utf8_tail c2 then Err OctBadUtf8
           else if c1 AND 0x20 = 0 then
             utf8_char (ucast (c2 AND 0x3F) OR push_bit 6 (ucast (c1 AND 0x1F))) (pos + 1)
           else (case octs_get octs (pos + 1) of
              None \<Rightarrow> Err OctShortInput
            | Some c3 \<Rightarrow>
                if \<not> utf8_tail c3 then Err OctBadUtf8
                else if c1 AND 0x10 = 0 then
                  utf8_char (ucast (c3 AND 0x3F) OR push_bit 6 (ucast (c2 AND 0x3F)) OR
                    push_bit 12 (ucast (c1 AND 0x1F))) (pos + 2)
                else (case octs_get octs (pos + 2) of
                   None \<Rightarrow> Err OctShortInput
                 | Some c4 \<Rightarrow>
                     if \<not> utf8_tail c4 then Err OctBadUtf8
                     else utf8_char (ucast (c4 AND 0x3F) OR push_bit 6 (ucast (c3 AND 0x3F)) OR
                       push_bit 12 (ucast (c2 AND 0x3F)) OR push_bit 18 (ucast (c1 AND 0x0F))) (pos + 3)))))"

definition symbol_from_slice_index :: "octets \<Rightarrow> nat \<Rightarrow> ((symbol \<times> nat) option, symbol_octets_error) result" where
  "symbol_from_slice_index octs pos =
     (case octs_get octs pos of
        None \<Rightarrow> Ok None
      | Some c1 \<Rightarrow>
          if c1 = 92 then escape_from_slice_index octs (pos + 1)
          else utf8_from_slice_index c1 octs (pos + 1))"

definition printable :: "octet \<Rightarrow> bool" where
  "printable ch \<longleftrightarrow> 0x20 \<le> ch \<and> ch < 0x7F"

definition symbol_from_octet :: "octet \<Rightarrow> symbol" where
  "symbol_from_octet ch =
     (if ch = 32 \<or> ch = 34 \<or> ch = 92 \<or> ch = 59 then SimpleEscape ch
      else if \<not> printable ch then DecimalEscape ch
      else Char (unat ch))"

definition symbol_quoted_from_octet :: "octet \<Rightarrow> symbol" where
  "symbol_quoted_from_octet ch =
     (if ch = 34 \<or> ch = 92 then SimpleEscape ch
      else if \<not> printable ch then DecimalEscape ch
      else Char (unat ch))"

definition symbol_display_from_octet :: "octet \<Rightarrow> symbol" where
  "symbol_display_from_octet ch =
     (if ch = 92 then SimpleEscape ch
      else if \<not> printable ch then DecimalEscape ch
      else Char (unat ch))"

fun into_octet :: "symbol \<Rightarrow> (octet, bad_symbol) result" where
  "into_octet (Char ch) =
     (if ch < 128 \<and> 0x20 \<le> ch \<and> ch \<le> 0x7E then Ok (of_nat ch) else Err NonAscii)"
| "into_octet (SimpleEscape ch) = Ok ch"
| "into_octet (DecimalEscape ch) = Ok ch"

fun into_ascii :: "symbol \<Rightarrow> (octet, bad_symbol) result" where
  "into_ascii (Char ch) =
     (if ch < 128 \<and> 0x20 \<le> ch \<and> ch \<le> 0x7E then Ok (of_nat ch) else Err NonAscii)"
| "into_ascii (SimpleEscape ch) = (if 0x20 \<le> ch \<and> ch \<le> 0x7E then Ok ch else Err NonAscii)"
| "into_ascii (DecimalEscape ch) = (if 0x20 \<le> ch \<and> ch \<le> 0x7E then Ok ch else Err NonAscii)"

fun into_char :: "symbol \<Rightarrow> (uchar, bad_symbol) result" where
  "into_char (Char ch) = Ok ch"
| "into_char (SimpleEscape ch) = (if 0x20 \<le> ch \<and> ch < 0x7F then Ok (unat ch) else Err NonUtf8)"
| "into_char (DecimalEscape ch) = Err NonUtf8"

fun into_digit :: "symbol \<Rightarrow> nat \<Rightarrow> (nat, bad_symbol) result" where
  "into_digit (Char ch) base = (case to_digit base ch of Some d \<Rightarrow> Ok d | None \<Rightarrow> Err NonDigit)"
| "into_digit (SimpleEscape ch) base = Err BadSymbolEscape"
| "into_digit (DecimalEscape ch) base = Err BadSymbolEscape"

fun is_word_char :: "symbol \<Rightarrow> bool" where
  "is_word_char (Char ch) \<longleftrightarrow> ch \<notin> {32, 9, 13, 10, 40, 41, 59, 34}"
| "is_word_char (SimpleEscape ch) \<longleftrightarrow> True"
| "is_word_char (DecimalEscape ch) \<longleftrightarrow> True"

text \<open>The \<open>{:03}\<close> format of an octet.\<close>

definition dec3 :: "octet \<Rightarrow> uchar list" where
  "dec3 ch = [48 + unat ch div 100, 48 + unat ch div 10 mod 10, 48 + unat ch mod 10]"

fun symbol_display :: "symbol \<Rightarrow> uchar list" where
  "symbol_display (Char ch) = [ch]"
| "symbol_display (SimpleEscape ch) = [92, unat ch]"
| "symbol_display (DecimalEscape ch) = 92 # dec3 ch"

section \<open>Sequences of symbols\<close>

text \<open>
  The \<open>Symbols\<close> iterator, run to its end: the symbols it yields and the error that stopped it, if
  there was one.  \<open>Symbols::with\<close> hands the iterator to an operation and then asks for the error;
  the operations of the crate that succeed have exhausted the iterator.
\<close>

lemma symbol_from_chars_shorter:
  "symbol_from_chars chars = Ok (Some s, rest) \<Longrightarrow> length rest < length chars"
  by (auto simp: symbol_from_chars_def Let_def split: list.splits if_splits option.splits)

function symbols :: "uchar list \<Rightarrow> symbol list \<times> symbol_chars_error option" where
  "symbols chars =
     (case symbol_from_chars chars of
        Ok (None, _) \<Rightarrow> ([], None)
      | Ok (Some s, rest) \<Rightarrow> (let (ss, e) = symbols rest in (s # ss, e))
      | Err e \<Rightarrow> ([], Some e)
      | Panic \<Rightarrow> ([], None))"
  by pat_completeness auto
termination
  by (relation "measure length") (auto dest: symbol_from_chars_shorter)

declare symbols.simps [simp del]

definition symbols_with ::
    "(symbol_chars_error \<Rightarrow> 'e) \<Rightarrow> uchar list \<Rightarrow> (symbol list \<Rightarrow> ('a, 'e) result) \<Rightarrow> ('a, 'e) result" where
  "symbols_with conv chars op =
     (let (ss, err) = symbols chars in
      rbind (op ss) (\<lambda>res. case err of None \<Rightarrow> Ok res | Some e \<Rightarrow> Err (conv e)))"


section \<open>Display and parse\<close>

text \<open>The symbols that reading characters can produce.\<close>

fun valid_symbol :: "symbol \<Rightarrow> bool" where
  "valid_symbol (Char c) \<longleftrightarrow> c \<noteq> 92"
| "valid_symbol (SimpleEscape c) \<longleftrightarrow> printable c \<and> \<not> octet_is_digit c"
| "valid_symbol (DecimalEscape c) \<longleftrightarrow> True"

lemma to_digit_dec [simp]: "d < 10 \<Longrightarrow> to_digit 10 (48 + d) = Some d"
  by (simp add: to_digit_def)

lemma dec_digits: "n div 100 * 100 + n div 10 mod 10 * 10 + n mod 10 = (n :: nat)"
proof -
  have "n div 100 = n div 10 div 10" by (simp add: div_mult2_eq [symmetric])
  then show ?thesis
    using div_mult_mod_eq [of n 10] div_mult_mod_eq [of "n div 10" 10] by linarith
qed

lemma symbol_from_chars_Nil [simp]: "symbol_from_chars [] = Ok (None, [])"
  by (simp add: symbol_from_chars_def)

lemma symbol_from_chars_display:
  assumes "valid_symbol s"
  shows "symbol_from_chars (symbol_display s @ rest) = Ok (Some s, rest)"
proof (cases s)
  case (Char c)
  then show ?thesis using assms by (simp add: symbol_from_chars_def)
next
  case (SimpleEscape c)
  then have "0x20 \<le> unat c" "unat c \<le> 0x7e" "\<not> (48 \<le> unat c \<and> unat c \<le> 57)"
    using assms by (auto simp: printable_def octet_is_digit_def word_le_nat_alt word_less_nat_alt)
  then show ?thesis
    using SimpleEscape by (auto simp add: symbol_from_chars_def is_ascii_digit_def)
next
  case (DecimalEscape c)
  have less: "unat c < 256" by simp
  have "n div 100 < 10" if "n < 256" for n :: nat
    using that by (simp add: div_less_iff_less_mult)
  from this [OF less]
  have "is_ascii_digit (48 + unat c div 100)" by (simp add: is_ascii_digit_def)
  moreover have "\<not> 255 < unat c" using less by linarith
  ultimately show ?thesis
    using DecimalEscape by (simp add: symbol_from_chars_def dec3_def Let_def dec_digits)
qed

lemma symbol_from_chars_valid:
  assumes "symbol_from_chars chars = Ok (Some s, rest)"
  shows "valid_symbol s"
proof -
  have print: "printable (of_nat c)" if "0x20 \<le> c" "c \<le> 0x7e" for c
    using that by (simp add: printable_def word_le_nat_alt word_less_nat_alt unat_of_nat)
  have dig: "\<not> octet_is_digit (of_nat c)" if "\<not> is_ascii_digit c" "c \<le> 0x7e" for c
    using that by (auto simp: octet_is_digit_def is_ascii_digit_def word_le_nat_alt unat_of_nat)
  show ?thesis
    using assms print dig
    by (auto simp: symbol_from_chars_def Let_def not_less split: list.splits if_splits option.splits)
qed

lemma symbols_Nil [simp]: "symbols [] = ([], None)"
  by (simp add: symbols.simps)

lemma symbols_display_append:
  "valid_symbol s \<Longrightarrow> symbols (symbol_display s @ rest) = (s # fst (symbols rest), snd (symbols rest))"
  by (subst symbols.simps) (simp add: symbol_from_chars_display Let_def split: prod.splits)

lemma symbols_display:
  "list_all valid_symbol ss \<Longrightarrow>
   symbols (concat (map symbol_display ss) @ rest) = (ss @ fst (symbols rest), snd (symbols rest))"
  by (induction ss) (simp_all add: symbols_display_append)

lemma symbols_valid: "list_all valid_symbol (fst (symbols chars))"
proof (induction chars rule: symbols.induct)
  case (1 chars)
  then show ?case
    by (subst symbols.simps)
      (auto dest: symbol_from_chars_valid split: result.splits option.splits prod.splits)
qed

lemma valid_symbol_of_octet [simp]:
  "valid_symbol (symbol_from_octet ch)"
  "valid_symbol (symbol_quoted_from_octet ch)"
  "valid_symbol (symbol_display_from_octet ch)"
proof -
  have "unat ch = 92 \<longleftrightarrow> ch = 92" by (simp add: word_unat_eq_iff)
  then show "valid_symbol (symbol_from_octet ch)"
    "valid_symbol (symbol_quoted_from_octet ch)"
    "valid_symbol (symbol_display_from_octet ch)"
    by (auto simp: symbol_from_octet_def symbol_quoted_from_octet_def symbol_display_from_octet_def
        printable_def octet_is_digit_def)
qed

lemma into_octet_of_octet [simp]:
  "into_octet (symbol_from_octet ch) = Ok ch"
  "into_octet (symbol_quoted_from_octet ch) = Ok ch"
  "into_octet (symbol_display_from_octet ch) = Ok ch"
proof -
  have "unat ch < 128 \<and> 32 \<le> unat ch \<and> unat ch \<le> 126" if "printable ch"
    using that by (auto simp: printable_def word_le_nat_alt word_less_nat_alt)
  then show "into_octet (symbol_from_octet ch) = Ok ch"
    "into_octet (symbol_quoted_from_octet ch) = Ok ch"
    "into_octet (symbol_display_from_octet ch) = Ok ch"
    by (auto simp: symbol_from_octet_def symbol_quoted_from_octet_def symbol_display_from_octet_def)
qed

section \<open>UTF-8\<close>

text \<open>The code points that are a \<open>char\<close>, and the octets \<open>char::encode_utf8\<close> gives for one.\<close>

definition is_scalar :: "uchar \<Rightarrow> bool" where
  "is_scalar c \<longleftrightarrow> c < 0xD800 \<or> 0xDFFF < c \<and> c \<le> 0x10FFFF"

definition encode_utf8 :: "uchar \<Rightarrow> octets" where
  "encode_utf8 c =
     (let w = (of_nat c :: u32); tail = (\<lambda>n. 0x80 OR ucast (take_bit 6 (drop_bit n w))) in
      if c < 0x80 then [ucast w]
      else if c < 0x800 then [0xC0 OR ucast (drop_bit 6 w), tail 0]
      else if c < 0x10000 then [0xE0 OR ucast (drop_bit 12 w), tail 6, tail 0]
      else [0xF0 OR ucast (drop_bit 18 w), tail 12, tail 6, tail 0])"

lemma utf8_tail_octet [simp]: "utf8_tail (0x80 OR ucast (take_bit 6 (w :: u32)))"
proof -
  have "(0x80 OR ucast (take_bit 6 w)) AND (0xC0 :: 8 word) = 0x80"
    by (rule bit_word_eqI) (auto simp: bit_simps numeral_eq_Suc less_Suc_eq)
  then show ?thesis by (simp add: utf8_tail_def)
qed

lemma utf8_tail_bits [simp]:
  "ucast ((0x80 OR ucast (take_bit 6 (w :: u32))) AND (0x3F :: 8 word)) = take_bit 6 w"
  by (rule bit_word_eqI) (auto simp: bit_simps numeral_eq_Suc less_Suc_eq)

lemma octet_bit_tests:
  "(c :: octet) AND 0x40 = 0 \<longleftrightarrow> \<not> bit c 6"
  "c AND 0x20 = 0 \<longleftrightarrow> \<not> bit c 5"
  "c AND 0x10 = 0 \<longleftrightarrow> \<not> bit c 4"
  "c < 128 \<longleftrightarrow> \<not> bit c 7"
proof -
  show "c AND 0x40 = 0 \<longleftrightarrow> \<not> bit c 6" "c AND 0x20 = 0 \<longleftrightarrow> \<not> bit c 5" "c AND 0x10 = 0 \<longleftrightarrow> \<not> bit c 4"
    using and_exp_eq_0_iff_not_bit [of c 6] and_exp_eq_0_iff_not_bit [of c 5]
      and_exp_eq_0_iff_not_bit [of c 4] by simp_all
  have "bit c 7 \<longleftrightarrow> odd (unat c div 128)"
    using bit_unsigned_iff [where 'a = nat, of c 7] by (simp add: bit_iff_odd)
  moreover have "odd (n div 128) \<longleftrightarrow> \<not> n < 128" if "n < 256" for n :: nat
  proof (cases "n < 128")
    case False
    then have "n div 128 = 1" using that by (intro div_nat_eqI) simp_all
    then show ?thesis using False by simp
  qed simp
  ultimately show "c < 128 \<longleftrightarrow> \<not> bit c 7"
    by (simp add: word_less_nat_alt)
qed

lemma utf8_lead2:
  assumes "take_bit 5 w = (w::u32)"
  shows "bit (0xC0 OR ucast w :: octet) 7 \<and> bit (0xC0 OR ucast w :: octet) 6 \<and> \<not> bit (0xC0 OR ucast w :: octet) 5"
    "ucast ((0xC0 OR ucast w) AND (0x1F :: octet)) = w"
proof -
  have high: "\<not> bit w n" if "5 \<le> n" for n
    using that by (subst assms [symmetric]) (simp add: bit_take_bit_iff)
  show "bit (0xC0 OR ucast w :: octet) 7 \<and> bit (0xC0 OR ucast w :: octet) 6 \<and> \<not> bit (0xC0 OR ucast w :: octet) 5"
    by (simp add: bit_simps high)
  show "ucast ((0xC0 OR ucast w) AND (0x1F :: octet)) = w"
    by (rule bit_word_eqI) (auto simp: bit_simps numeral_eq_Suc less_Suc_eq high)
qed

lemma utf8_lead3:
  assumes "take_bit 4 w = (w::u32)"
  shows "bit (0xE0 OR ucast w :: octet) 7 \<and> bit (0xE0 OR ucast w :: octet) 6 \<and> bit (0xE0 OR ucast w :: octet) 5
     \<and> \<not> bit (0xE0 OR ucast w :: octet) 4"
    "ucast ((0xE0 OR ucast w) AND (0x1F :: octet)) = w"
proof -
  have high: "\<not> bit w n" if "4 \<le> n" for n
    using that by (subst assms [symmetric]) (simp add: bit_take_bit_iff)
  show "bit (0xE0 OR ucast w :: octet) 7 \<and> bit (0xE0 OR ucast w :: octet) 6 \<and> bit (0xE0 OR ucast w :: octet) 5
     \<and> \<not> bit (0xE0 OR ucast w :: octet) 4"
    by (simp add: bit_simps high)
  show "ucast ((0xE0 OR ucast w) AND (0x1F :: octet)) = w"
    by (rule bit_word_eqI) (auto simp: bit_simps numeral_eq_Suc less_Suc_eq high)
qed

lemma utf8_lead4:
  assumes "take_bit 3 w = (w::u32)"
  shows "bit (0xF0 OR ucast w :: octet) 7 \<and> bit (0xF0 OR ucast w :: octet) 6 \<and> bit (0xF0 OR ucast w :: octet) 5
     \<and> bit (0xF0 OR ucast w :: octet) 4"
    "ucast ((0xF0 OR ucast w) AND (0x0F :: octet)) = w"
proof -
  have high: "\<not> bit w n" if "3 \<le> n" for n
    using that by (subst assms [symmetric]) (simp add: bit_take_bit_iff)
  show "bit (0xF0 OR ucast w :: octet) 7 \<and> bit (0xF0 OR ucast w :: octet) 6 \<and> bit (0xF0 OR ucast w :: octet) 5
     \<and> bit (0xF0 OR ucast w :: octet) 4"
    by (simp add: bit_simps)
  show "ucast ((0xF0 OR ucast w) AND (0x0F :: octet)) = w"
    by (rule bit_word_eqI) (auto simp: bit_simps numeral_eq_Suc less_Suc_eq high)
qed

lemma bits_split: "take_bit n w OR push_bit n (drop_bit n w) = (w :: 'a::len word)"
proof (rule bit_word_eqI)
  fix m
  show "bit (take_bit n w OR push_bit n (drop_bit n w)) m \<longleftrightarrow> bit w m" if "m < LENGTH('a)"
    using that by (cases "m < n") (simp_all add: bit_simps)
qed

lemma push_bits_split:
  "push_bit k (take_bit n w) OR push_bit (k + n) (drop_bit n w) = push_bit k (w :: 'a::len word)"
  by (subst (3) bits_split [of n w, symmetric]) (simp add: push_bit_or push_bit_push_bit)

lemma bits_split_more:
  "take_bit 6 w OR push_bit 6 (take_bit 6 (drop_bit 6 w)) OR push_bit 12 (drop_bit 12 w) = (w :: u32)"
  "take_bit 6 w OR push_bit 6 (take_bit 6 (drop_bit 6 w)) OR push_bit 12 (take_bit 6 (drop_bit 12 w)) OR
     push_bit 18 (drop_bit 18 w) = w"
  using bits_split [of 6 w] push_bits_split [of 6 6 "drop_bit 6 w"] push_bits_split [of 12 6 "drop_bit 12 w"]
  by (simp_all add: or.assoc)

lemma unat_scalar: "is_scalar c \<Longrightarrow> unat (of_nat c :: u32) = c"
  by (auto simp: is_scalar_def unat_of_nat)

lemma char_try_from_scalar: "is_scalar c \<Longrightarrow> char_try_from (of_nat c) = Some c"
  by (simp add: char_try_from_def unat_scalar) (simp add: is_scalar_def)

lemma not_bit_of_nat: "(c::nat) < 2 ^ m \<Longrightarrow> m \<le> n \<Longrightarrow> \<not> bit c n"
  by (metis bit_take_bit_iff not_less take_bit_nat_eq_self_iff)

lemma high_bits: "c < 2 ^ (n + k) \<Longrightarrow> take_bit k (drop_bit n (of_nat c :: u32)) = drop_bit n (of_nat c)"
proof (rule bit_word_eqI)
  fix m
  assume "c < 2 ^ (n + k)"
  then have "\<not> bit c (n + m)" if "k \<le> m"
    using that by (intro not_bit_of_nat [of c "n + k"]) simp_all
  then show "bit (take_bit k (drop_bit n (of_nat c :: u32))) m \<longleftrightarrow> bit (drop_bit n (of_nat c :: u32)) m"
    by (cases "k \<le> m") (auto simp: bit_simps)
qed

lemma octs_get_append [simp]: 
  "octs_get (xs @ ys) (length xs + n) = octs_get ys n"
  "octs_get (xs @ ys) (length xs) = octs_get ys 0"
  "octs_get (xs @ ys) (Suc (length xs)) = octs_get ys 1"
  "octs_get (xs @ ys) (Suc (Suc (length xs))) = octs_get ys 2"
  by (simp_all add: octs_get_def nth_append)

lemma octs_get_Cons [simp]:
  "octs_get (x # xs) 0 = Some x" "octs_get (x # xs) (Suc n) = octs_get xs n"
  "octs_get (x # xs) (numeral k) = octs_get xs (pred_numeral k)"
  by (simp_all add: octs_get_def numeral_eq_Suc)

lemma utf8_from_slice_index_encode:
  assumes "is_scalar c" "encode_utf8 c = c1 # cs"
  shows "utf8_from_slice_index c1 (pre @ cs @ post) (length pre) = Ok (Some (Char c, length pre + length cs))"
proof -
  let ?w = "of_nat c :: u32"
  note lead = octet_bit_tests utf8_char_def char_try_from_scalar [OF assms(1)] unat_scalar [OF assms(1)]
  consider "c < 0x80" | "\<not> c < 0x80" "c < 0x800" | "\<not> c < 0x800" "c < 0x10000" | "\<not> c < 0x10000"
    by linarith
  then show ?thesis
  proof cases
    case 1
    have "unat (ucast ?w :: octet) = c" using 1 by (simp add: unsigned_of_nat take_bit_nat_eq_self)
    then show ?thesis using assms 1
      by (auto simp: encode_utf8_def utf8_from_slice_index_def word_less_nat_alt)
  next
    case 2
    then have "take_bit 5 (drop_bit 6 ?w) = drop_bit 6 ?w" by (intro high_bits) simp
    note b = utf8_lead2 [OF this]
    show ?thesis using assms(2) 2
      by (auto simp: encode_utf8_def Let_def utf8_from_slice_index_def lead b bits_split)
  next
    case 3
    then have "take_bit 4 (drop_bit 12 ?w) = drop_bit 12 ?w" by (intro high_bits) simp
    note b = utf8_lead3 [OF this]
    show ?thesis using assms(2) 3
      by (auto simp: encode_utf8_def Let_def utf8_from_slice_index_def lead b bits_split_more)
  next
    case 4
    then have "take_bit 3 (drop_bit 18 ?w) = drop_bit 18 ?w"
      using assms(1) by (intro high_bits) (simp add: is_scalar_def)
    note b = utf8_lead4 [OF this]
    show ?thesis using assms(2) 4
      by (auto simp: encode_utf8_def Let_def utf8_from_slice_index_def lead b bits_split_more)
  qed
qed


lemma length_encode_utf8: "encode_utf8 c \<noteq> []"
  by (simp add: encode_utf8_def Let_def)

lemma encode_utf8_backslash:
  assumes "is_scalar c" "encode_utf8 c = 92 # cs"
  shows "c = 92"
proof -
  have "utf8_from_slice_index 92 cs 0 = Ok (Some (Char c, length cs))"
    using utf8_from_slice_index_encode [OF assms, of "[]" "[]"] by simp
  then show ?thesis by (simp add: utf8_from_slice_index_def)
qed

section \<open>Properties\<close>

text \<open>
  The presentation format of octets is faithful.  Whichever of the three ways of choosing a
  symbol for an octet is used, reading back the displayed symbols of a sequence of octets gives these
  symbols with no error, and their octets are the original ones.
\<close>

theorem symbol_presentation_roundtrip:
  "symbols (concat (map (\<lambda>x. symbol_display (symbol_from_octet x)) octs)) = (map symbol_from_octet octs, None) \<and>
   symbols (concat (map (\<lambda>x. symbol_display (symbol_quoted_from_octet x)) octs)) =
     (map symbol_quoted_from_octet octs, None) \<and>
   symbols (concat (map (\<lambda>x. symbol_display (symbol_display_from_octet x)) octs)) =
     (map symbol_display_from_octet octs, None) \<and>
   map (\<lambda>x. into_octet (symbol_from_octet x)) octs = map Ok octs \<and>
   map (\<lambda>x. into_octet (symbol_quoted_from_octet x)) octs = map Ok octs \<and>
   map (\<lambda>x. into_octet (symbol_display_from_octet x)) octs = map Ok octs"
proof -
  have "symbols (concat (map (\<lambda>x. symbol_display (f x)) octs)) = (map f octs, None)"
    if "\<And>x. valid_symbol (f x)" for f :: "octet \<Rightarrow> symbol"
    using symbols_display [of "map f octs" "[]"] that by (simp add: list_all_iff comp_def)
  then show ?thesis by simp
qed

text \<open>
  \<open>Symbol::from_slice_index\<close> decodes UTF-8: at the encoding of a character other than a backslash
  it returns that character and the index just after the encoding, wherever in a slice the encoding
  is.
\<close>

theorem from_slice_index_utf8:
  assumes "is_scalar c" "c \<noteq> 92"
  shows "symbol_from_slice_index (pre @ encode_utf8 c @ post) (length pre) =
    Ok (Some (Char c, length pre + length (encode_utf8 c)))"
proof -
  obtain c1 cs where enc: "encode_utf8 c = c1 # cs"
    using length_encode_utf8 [of c] by (cases "encode_utf8 c") auto
  then have "c1 \<noteq> 92" using assms encode_utf8_backslash by blast
  then show ?thesis
    using enc utf8_from_slice_index_encode [OF assms(1) enc, of "pre @ [c1]" post]
    by (simp add: symbol_from_slice_index_def)
qed

theorem from_slice_index_utf8_witness:
  "symbol_from_slice_index [65, 0xE2, 0x82, 0xAC, 66] 1 = Ok (Some (Char 0x20AC, 4))"
  using from_slice_index_utf8 [of "0x20AC" "[65]" "[66]"]
  by (simp add: is_scalar_def encode_utf8_def)

end
