(* ===== verification/NameTraits.thy ===== *)
theory NameTraits
  imports Label Symbol "HOL-Library.Sublist"
begin

text \<open>
  \<^verbatim>\<open>src/base/name/traits.rs\<close>: what can be done with any domain name through the traits
  \<open>ToLabelIter\<close>, \<open>ToName\<close> and \<open>ToRelativeName\<close>.  The traits are the record \<open>label_view\<close>: the labels
  in the order of \<open>next\<close> and in the order of \<open>next_back\<close>, the composed length and the slice, if the
  name is stored in a single one.  The laws an implementation owes are \<open>view_ok\<close>.
\<close>

section \<open>The traits\<close>

record label_view =
  lv_labels :: "label list"
  lv_back :: "label list"
  lv_compose_len :: "(u16, unit) result"
  lv_flat :: "octets option"

definition NAME_MAX_LEN :: nat where
  "NAME_MAX_LEN = 255"

text \<open>\<open>ToLabelIter::compose_len\<close> as provided: a sum of \<open>u16\<close> that panics on overflow.\<close>

fun sum_compose_len :: "label list \<Rightarrow> (u16, 'e) result" where
  "sum_compose_len [] = Ok 0"
| "sum_compose_len (l # ls) =
     rbind (label_compose_len l) (\<lambda>a. rbind (sum_compose_len ls) (\<lambda>b.
       if unat a + unat b < 2 ^ 16 then Ok (a + b) else Panic))"

fun labels_start_with :: "label list \<Rightarrow> label list \<Rightarrow> bool" where
  "labels_start_with _ [] = True"
| "labels_start_with [] (bl # bs) = False"
| "labels_start_with (sl # ss) (bl # bs) = (label_eq sl bl \<and> labels_start_with ss bs)"

definition starts_with :: "label_view \<Rightarrow> label_view \<Rightarrow> bool" where
  "starts_with self base = labels_start_with (lv_labels self) (lv_labels base)"

definition ends_with :: "label_view \<Rightarrow> label_view \<Rightarrow> bool" where
  "ends_with self base = labels_start_with (lv_back self) (lv_back base)"

definition name_compose :: "'b builder_ops \<Rightarrow> label_view \<Rightarrow> 'b target_step" where
  "name_compose B self target =
     (case lv_flat self of
        Some octs \<Rightarrow> bo_append B target octs
      | None \<Rightarrow> compose_all (label_compose B) (lv_labels self) target)"

definition name_compose_canonical :: "'b builder_ops \<Rightarrow> label_view \<Rightarrow> 'b target_step" where
  "name_compose_canonical B self = compose_all (label_compose_canonical B) (lv_labels self)"

text \<open>\<open>try_to_name\<close> and \<open>try_to_canonical_name\<close>: the labels composed into an empty builder.\<close>

definition try_to_name :: "'b builder_ops \<Rightarrow> label_view \<Rightarrow> (octets, append_error) result" where
  "try_to_name B self =
     rbind (runwrap (lv_compose_len self)) (\<lambda>_.
       case compose_all (label_compose B) (lv_labels self) (bo_empty B) of
         (r, b) \<Rightarrow> rmap (\<lambda>_. bo_as_ref B b) r)"

definition try_to_canonical_name :: "'b builder_ops \<Rightarrow> label_view \<Rightarrow> (octets, append_error) result" where
  "try_to_canonical_name B self =
     rbind (runwrap (lv_compose_len self)) (\<lambda>_.
       case compose_all (label_compose_canonical B) (lv_labels self) (bo_empty B) of
         (r, b) \<Rightarrow> rmap (\<lambda>_. bo_as_ref B b) r)"

fun labels_eq :: "label list \<Rightarrow> label list \<Rightarrow> bool" where
  "labels_eq [] [] = True"
| "labels_eq (a # as) (b # bs) = (label_eq a b \<and> labels_eq as bs)"
| "labels_eq _ _ = False"

definition name_eq :: "label_view \<Rightarrow> label_view \<Rightarrow> bool" where
  "name_eq self other =
     (case (lv_flat self, lv_flat other) of
        (Some left, Some right) \<Rightarrow> eq_ignore_ascii_case left right
      | _ \<Rightarrow> labels_eq (lv_labels self) (lv_labels other))"

definition name_cmp :: "label_view \<Rightarrow> label_view \<Rightarrow> ordering" where
  "name_cmp self other = list_cmp label_cmp (lv_back self) (lv_back other)"

fun composed_cmp_loop :: "(label \<Rightarrow> label \<Rightarrow> ordering) \<Rightarrow> label list \<Rightarrow> label list \<Rightarrow> (ordering, 'e) result" where
  "composed_cmp_loop c (l # ls) (r # rs) =
     (case c l r of Equal \<Rightarrow> composed_cmp_loop c ls rs | res \<Rightarrow> Ok res)"
| "composed_cmp_loop c [] [] = Ok Equal"
| "composed_cmp_loop c _ _ = Panic"

definition composed_cmp :: "label_view \<Rightarrow> label_view \<Rightarrow> (ordering, 'e) result" where
  "composed_cmp self other =
     (case (lv_flat self, lv_flat other) of
        (Some left, Some right) \<Rightarrow> Ok (list_cmp ord_cmp left right)
      | _ \<Rightarrow> composed_cmp_loop label_composed_cmp (lv_labels self) (lv_labels other))"

definition lowercase_composed_cmp :: "label_view \<Rightarrow> label_view \<Rightarrow> (ordering, 'e) result" where
  "lowercase_composed_cmp self other =
     composed_cmp_loop label_lowercase_composed_cmp (lv_labels self) (lv_labels other)"

definition rrsig_label_count :: "label_view \<Rightarrow> (octet, 'e) result" where
  "rrsig_label_count self =
     (case lv_labels self of
        [] \<Rightarrow> Panic
      | first # labels \<Rightarrow>
          if label_is_wildcard first then
            (if labels = [] then Panic else Ok (of_nat (length labels - 1)))
          else Ok (of_nat (length labels)))"

section \<open>Display\<close>

text \<open>The \<open>Display\<close> of a label and \<open>DisplayWithDot\<close>.\<close>

definition label_char_display :: "octet \<Rightarrow> uchar list" where
  "label_char_display ch =
     (if ch = 32 \<or> ch = 46 \<or> ch = 92 then [92, unat ch]
      else if \<not> printable ch then 92 # dec3 ch
      else [unat ch])"

definition label_display :: "label \<Rightarrow> uchar list" where
  "label_display l = concat (map label_char_display l)"

definition display_with_dot :: "label_view \<Rightarrow> (uchar list, 'e) result" where
  "display_with_dot self =
     (case lv_labels self of
        [] \<Rightarrow> Panic
      | first # labels \<Rightarrow>
          if label_is_root first then Ok [46]
          else Ok (label_display first @ concat (map (\<lambda>l. 46 # label_display l) labels)))"

section \<open>The laws of an implementation\<close>

definition view_ok :: "label_view \<Rightarrow> bool" where
  "view_ok v \<longleftrightarrow>
     list_all valid_label (lv_labels v) \<and> lv_back v = rev (lv_labels v) \<and>
     lv_compose_len v = Ok (of_nat (length (wire (lv_labels v)))) \<and>
     length (wire (lv_labels v)) \<le> NAME_MAX_LEN \<and>
     (\<forall>octs. lv_flat v = Some octs \<longrightarrow> octs = wire (lv_labels v))"

text \<open>The labels of an absolute name end with the root label and have no other; a relative name has none.\<close>

definition abs_labels :: "label list \<Rightarrow> bool" where
  "abs_labels ls \<longleftrightarrow> (\<exists>ms. ls = ms @ [[]] \<and> list_all (\<lambda>l. valid_label l \<and> l \<noteq> []) ms)"

definition rel_labels :: "label list \<Rightarrow> bool" where
  "rel_labels ls \<longleftrightarrow> list_all (\<lambda>l. valid_label l \<and> l \<noteq> []) ls"

text \<open>
  The interface that the types of names implement: a view of every well-formed value with the
  labels the value stands for.
\<close>

locale to_label_iter =
  fixes view :: "'n \<Rightarrow> label_view"
    and inv :: "'n \<Rightarrow> bool"
    and labels_of :: "'n \<Rightarrow> label list"
  assumes view_ok: "inv n \<Longrightarrow> view_ok (view n)"
    and view_labels: "inv n \<Longrightarrow> lv_labels (view n) = labels_of n"

lemma view_okD:
  assumes "view_ok v"
  shows "list_all valid_label (lv_labels v)" "lv_back v = rev (lv_labels v)"
    "lv_compose_len v = Ok (of_nat (length (wire (lv_labels v))))"
    "length (wire (lv_labels v)) \<le> NAME_MAX_LEN"
    "lv_flat v = Some octs \<Longrightarrow> octs = wire (lv_labels v)"
  using assms by (simp_all add: view_ok_def)

lemma abs_labels_Cons:
  "abs_labels (l # ls) \<longleftrightarrow> (l = [] \<and> ls = []) \<or> (l \<noteq> [] \<and> valid_label l \<and> abs_labels ls)"
  unfolding abs_labels_def by (auto simp: Cons_eq_append_conv)

lemma abs_labels_Nil [simp]: "\<not> abs_labels []"
  by (simp add: abs_labels_def)

lemma abs_labels_valid: "abs_labels ls \<Longrightarrow> list_all valid_label ls"
  by (auto simp: abs_labels_def list_all_iff valid_label_def)

lemma rel_labels_valid: "rel_labels ls \<Longrightarrow> list_all valid_label ls"
  by (auto simp: rel_labels_def list_all_iff)

lemma rel_labels_simps [simp]:
  "rel_labels []" "rel_labels (l # ls) \<longleftrightarrow> valid_label l \<and> l \<noteq> [] \<and> rel_labels ls"
  "rel_labels (ls @ ms) \<longleftrightarrow> rel_labels ls \<and> rel_labels ms"
  by (auto simp: rel_labels_def)

lemma abs_labels_iff: "abs_labels ls \<longleftrightarrow> (\<exists>ms. ls = ms @ [[]] \<and> rel_labels ms)"
  by (simp add: abs_labels_def rel_labels_def)

lemma abs_labels_append: "rel_labels ls \<Longrightarrow> abs_labels (ls @ ms) \<longleftrightarrow> abs_labels ms"
  by (induction ls) (auto simp: abs_labels_Cons)

section \<open>Equality\<close>

abbreviation canonical_labels :: "label list \<Rightarrow> label list" where
  "canonical_labels \<equiv> map label_make_canonical"

lemma lowercase_length_octet:
  "valid_label l \<Longrightarrow> to_ascii_lowercase (of_nat (length l)) = of_nat (length l)"
  by (simp add: to_ascii_lowercase_def valid_label_def LABEL_MAX_LEN_def word_le_nat_alt unat_of_nat_label)

lemma lowercase_wire:
  "list_all valid_label ls \<Longrightarrow> map to_ascii_lowercase (wire ls) = wire (canonical_labels ls)"
  by (induction ls) (simp_all add: wire_label_def lowercase_length_octet label_make_canonical_def)

lemma label_eq_canonical: "label_eq a b \<longleftrightarrow> label_make_canonical a = label_make_canonical b"
  by (simp add: label_eq_def eq_ignore_ascii_case_def label_make_canonical_def)

lemma labels_eq_canonical: "labels_eq ls ms \<longleftrightarrow> canonical_labels ls = canonical_labels ms"
  by (induction ls ms rule: labels_eq.induct) (simp_all add: label_eq_canonical)

lemma canonical_valid [simp]: "list_all valid_label (canonical_labels ls) = list_all valid_label ls"
  by (simp add: list_all_iff)

lemma eq_ignore_ascii_case_wire:
  assumes "list_all valid_label ls" "list_all valid_label ms"
  shows "eq_ignore_ascii_case (wire ls) (wire ms) \<longleftrightarrow> labels_eq ls ms"
  using assms wire_inj [of "canonical_labels ls" "canonical_labels ms"]
  by (auto simp: eq_ignore_ascii_case_def lowercase_wire labels_eq_canonical)

lemma name_eq_canonical:
  assumes "view_ok a" "view_ok b"
  shows "name_eq a b \<longleftrightarrow> canonical_labels (lv_labels a) = canonical_labels (lv_labels b)"
  using view_okD [OF assms(1)] view_okD [OF assms(2)]
  by (auto simp: name_eq_def eq_ignore_ascii_case_wire labels_eq_canonical split: option.splits)

lemma labels_start_with_prefix:
  "labels_start_with ls ms \<longleftrightarrow> prefix (canonical_labels ms) (canonical_labels ls)"
  by (induction ls ms rule: labels_start_with.induct) (simp_all add: label_eq_canonical eq_commute)

lemma starts_with_prefix:
  "starts_with a b \<longleftrightarrow> prefix (canonical_labels (lv_labels b)) (canonical_labels (lv_labels a))"
  by (simp add: starts_with_def labels_start_with_prefix)

lemma ends_with_suffix:
  assumes "view_ok a" "view_ok b"
  shows "ends_with a b \<longleftrightarrow> suffix (canonical_labels (lv_labels b)) (canonical_labels (lv_labels a))"
  by (simp add: ends_with_def labels_start_with_prefix view_okD(2) [OF assms(1)] view_okD(2) [OF assms(2)]
      suffix_to_prefix rev_map)

section \<open>Orders\<close>

interpretation name_cmp: total_cmp name_cmp "\<lambda>v. canonical_labels (lv_back v)"
proof -
  have "total_cmp (list_cmp label_cmp) (map (map to_ascii_lowercase))"
    by (rule label_cmp.total_list_cmp)
  from total_cmp_image [OF this, of lv_back]
  show "total_cmp name_cmp (\<lambda>v. canonical_labels (lv_back v))"
    by (simp add: name_cmp_def [abs_def] label_make_canonical_def [abs_def])
qed

lemma list_cmp_append:
  "length xs = length ys \<Longrightarrow>
   list_cmp c (xs @ as) (ys @ bs) = (case list_cmp c xs ys of Equal \<Rightarrow> list_cmp c as bs | r \<Rightarrow> r)"
  by (induction xs ys rule: list_induct2) (simp_all split: ordering.splits)

lemma list_cmp_wire_label:
  assumes "valid_label l" "valid_label m"
  shows "list_cmp ord_cmp (wire_label l @ xs) (wire_label m @ ys) =
    (case label_composed_cmp l m of Equal \<Rightarrow> list_cmp ord_cmp xs ys | r \<Rightarrow> r)"
proof (cases "length l = length m")
  case True
  then show ?thesis
    using list_cmp_append [of "wire_label l" "wire_label m" ord_cmp] by (simp add: label_composed_cmp_wire [OF assms])
next
  case False
  with assms have "(of_nat (length l) :: octet) \<noteq> of_nat (length m)"
    by (simp add: word_unat_eq_iff valid_label_def LABEL_MAX_LEN_def unat_of_nat_label)
  with False show ?thesis
    unfolding label_composed_cmp_wire [OF assms]
    by (auto simp: wire_label_def split: ordering.splits dest: order.asym)
qed

lemma composed_cmp_loop_wire:
  assumes "abs_labels ls" "abs_labels ms"
  shows "composed_cmp_loop label_composed_cmp ls ms = Ok (list_cmp ord_cmp (wire ls) (wire ms))"
  using assms
proof (induction ls arbitrary: ms)
  case (Cons l ls)
  then obtain m ms' where ms: "ms = m # ms'" by (cases ms) simp_all
  have v: "valid_label l" "valid_label m"
    using abs_labels_valid [OF Cons.prems(1)] abs_labels_valid [OF Cons.prems(2)] ms by simp_all
  show ?case
  proof (cases "label_composed_cmp l m = Equal")
    case True
    then have "l = m"
      by (simp add: label_composed_cmp_def ord_cmp.list_cmp_Equal split: ordering.splits)
    with Cons ms True v show ?thesis
      by (auto simp: abs_labels_Cons list_cmp_wire_label)
  next
    case False
    with ms v show ?thesis by (simp add: list_cmp_wire_label split: ordering.splits)
  qed
qed simp

lemma label_lowercase_composed_cmp_canonical:
  "label_lowercase_composed_cmp a b = label_composed_cmp (label_make_canonical a) (label_make_canonical b)"
  by (simp add: label_lowercase_composed_cmp_def label_composed_cmp_def label_cmp_def label_make_canonical_def
      split: ordering.splits)

lemma composed_cmp_loop_map:
  "composed_cmp_loop (\<lambda>a b. c (f a) (f b)) ls ms = composed_cmp_loop c (map f ls) (map f ms)"
  by (induction ls ms rule: list_induct2') (simp_all split: ordering.splits)

lemma canonical_labels_kinds [simp]:
  "rel_labels (canonical_labels ls) = rel_labels ls" "abs_labels (canonical_labels ls) = abs_labels ls"
proof -
  have nil: "label_make_canonical l = [] \<longleftrightarrow> l = []" for l by (simp add: label_make_canonical_def)
  then show "rel_labels (canonical_labels ls) = rel_labels ls" by (induction ls) simp_all
  show "abs_labels (canonical_labels ls) = abs_labels ls"
    by (induction ls) (simp_all add: abs_labels_Cons nil)
qed

lemma lowercase_composed_cmp_loop_wire:
  assumes "abs_labels ls" "abs_labels ms"
  shows "composed_cmp_loop label_lowercase_composed_cmp ls ms =
    Ok (list_cmp ord_cmp (map to_ascii_lowercase (wire ls)) (map to_ascii_lowercase (wire ms)))"
proof -
  have eq: "label_lowercase_composed_cmp = (\<lambda>a b. label_composed_cmp (label_make_canonical a) (label_make_canonical b))"
    by (rule ext)+ (rule label_lowercase_composed_cmp_canonical)
  show ?thesis
    unfolding eq composed_cmp_loop_map using assms by (simp add: composed_cmp_loop_wire lowercase_wire abs_labels_valid)
qed

section \<open>Composing\<close>

lemma sum_compose_len_wire: "length (wire ls) < 2 ^ 16 \<Longrightarrow> sum_compose_len ls = Ok (of_nat (length (wire ls)))"
  by (induction ls) (simp_all add: label_compose_len_def unat_word_ariths unat_of_nat)

context octets_target
begin

lemma appends_name_compose [appends_intros]:
  assumes "view_ok v"
  shows "appends B (name_compose B v) (wire (lv_labels v))"
proof (cases "lv_flat v")
  case None
  have "appends B (compose_all (label_compose B) (lv_labels v)) (concat (map wire_label (lv_labels v)))"
    by (rule appends_all) (rule appends_label_compose)
  moreover have "name_compose B v = compose_all (label_compose B) (lv_labels v)"
    using None by (auto simp: name_compose_def)
  ultimately show ?thesis by (simp add: wire_def)
next
  case (Some octs)
  then have "name_compose B v = (\<lambda>t. bo_append B t octs)" by (auto simp: name_compose_def)
  then show ?thesis using appends_append view_okD(5) [OF assms Some] by simp
qed

lemma appends_name_compose_canonical [appends_intros]:
  "appends B (name_compose_canonical B v) (wire (canonical_labels (lv_labels v)))"
proof -
  have "appends B (compose_all (label_compose_canonical B) (lv_labels v))
      (concat (map (\<lambda>l. wire_label (label_make_canonical l)) (lv_labels v)))"
    by (rule appends_all) (rule appends_label_compose_canonical)
  then show ?thesis by (simp add: name_compose_canonical_def wire_def comp_def)
qed

end

lemma try_to_name_eq: "try_to_name vec_builder v = rbind (runwrap (lv_compose_len v)) (\<lambda>_. Ok (wire (lv_labels v)))"
proof -
  have "always_appends (compose_all (label_compose vec_builder) (lv_labels v)) (concat (map wire_label (lv_labels v)))"
    by (rule always_appends_all) (rule always_appends_label)
  then show ?thesis
    by (simp add: try_to_name_def always_appends_def wire_def vec_builder_def)
qed

section \<open>Display\<close>

definition label_symbol :: "octet \<Rightarrow> symbol" where
  "label_symbol ch =
     (if ch = 32 \<or> ch = 46 \<or> ch = 92 then SimpleEscape ch
      else if \<not> printable ch then DecimalEscape ch
      else Char (unat ch))"

lemma label_char_display_symbol: "label_char_display = (\<lambda>ch. symbol_display (label_symbol ch))"
  by (rule ext) (simp add: label_char_display_def label_symbol_def)

lemma valid_label_symbol [simp]: "valid_symbol (label_symbol ch)"
proof -
  have "unat ch = 92 \<longleftrightarrow> ch = 92" by (simp add: word_unat_eq_iff)
  then show ?thesis by (auto simp: label_symbol_def printable_def octet_is_digit_def)
qed

lemma into_octet_label_symbol [simp]: "into_octet (label_symbol ch) = Ok ch"
proof -
  have "unat ch < 128 \<and> 32 \<le> unat ch \<and> unat ch \<le> 126" if "printable ch"
    using that by (auto simp: printable_def word_le_nat_alt word_less_nat_alt)
  then show ?thesis by (auto simp: label_symbol_def)
qed

lemma symbols_label_display:
  "symbols (label_display l @ rest) = (map label_symbol l @ fst (symbols rest), snd (symbols rest))"
  using symbols_display [of "map label_symbol l" rest]
  by (simp add: label_display_def label_char_display_symbol list_all_iff comp_def)

section \<open>Properties\<close>

text \<open>
  C21.  The order on names is the canonical order of RFC 4034: the labels are compared from the last one to the first, each as the
  sequence of its octets in lower case, and a name comes before all that end in it.  It is antisymmetric and
  transitive, and it does not tell apart names that are equal.
\<close>

theorem name_order:
  assumes "view_ok a" "view_ok b"
  shows "(name_cmp a b = Less \<longleftrightarrow> (rev (canonical_labels (lv_labels a)), rev (canonical_labels (lv_labels b))) \<in> lexord (lexord {(x, y). x < y})) \<and>
    name_cmp b a = ord_reverse (name_cmp a b) \<and>
    (name_cmp a b = Less \<and> name_cmp b c = Less \<longrightarrow> name_cmp a c = Less) \<and>
    (name_eq a b \<longleftrightarrow> name_cmp a b = Equal) \<and>
    (name_eq a b \<longrightarrow> name_cmp a c = name_cmp b c)"
proof -
  have rv: "canonical_labels (lv_back a) = rev (canonical_labels (lv_labels a))" "canonical_labels (lv_back b) = rev (canonical_labels (lv_labels b))"
    using assms by (simp_all add: view_okD(2) rev_map)
  have "name_cmp a b = Less \<longleftrightarrow> (canonical_labels (lv_back a), canonical_labels (lv_back b)) \<in> lexord (lexord {(x, y). x < y})"
    unfolding name_cmp_def by (rule list_cmp_lexord [OF label_cmp_lexord]) (simp add: label_make_canonical_def label_cmp.cmp_Equal)
  moreover have "name_eq a b \<longleftrightarrow> canonical_labels (lv_back a) = canonical_labels (lv_back b)"
    using assms by (simp add: name_eq_canonical view_okD(2) rev_map [symmetric])
  ultimately show ?thesis
    using name_cmp.cmp_flip [of b a] name_cmp.cmp_trans [of a b c] name_cmp.cmp_key_left [of a b c]
      name_cmp.cmp_Equal [of a b] unfolding rv by blast
qed

text \<open>The order of z.a and A.B is that of their last labels.\<close>

theorem name_order_witness:
  "let a = \<lparr>lv_labels = [[122], [97], []], lv_back = [[], [97], [122]], lv_compose_len = Ok 5, lv_flat = None\<rparr>;
       b = \<lparr>lv_labels = [[65], [66], []], lv_back = [[], [66], [65]], lv_compose_len = Ok 5, lv_flat = Some [1, 65, 1, 66, 0]\<rparr>
   in name_cmp a b = Less \<and> name_cmp b a = Greater \<and> \<not> name_eq a b \<and>
     ([[], [97], [122]], [[], [98], [97 :: octet]]) \<in> lexord (lexord {(x, y). x < y})"
  using name_order [of "\<lparr>lv_labels = [[122], [97], []], lv_back = [[], [97], [122]], lv_compose_len = Ok 5, lv_flat = None\<rparr>"
      "\<lparr>lv_labels = [[65], [66], []], lv_back = [[], [66], [65]], lv_compose_len = Ok 5, lv_flat = Some [1, 65, 1, 66, 0]\<rparr>"]
  by (simp add: Let_def view_ok_def valid_label_def wire_label_def LABEL_MAX_LEN_def NAME_MAX_LEN_def name_cmp_def label_cmp_def
      label_make_canonical_def to_ascii_lowercase_def ord_cmp_def)

text \<open>
  C22.  The two orders on the composed form of absolute names never reach their unreachable branch,
  and compare what is composed: the octets of the wire format, and these octets in lower case.  So the
  shortcut for names in a single slice gives the result of the loop over the labels.
\<close>

theorem composed_cmp_correct:
  assumes "view_ok a" "view_ok b" "abs_labels (lv_labels a)" "abs_labels (lv_labels b)"
  shows "composed_cmp a b = (Ok (list_cmp ord_cmp (wire (lv_labels a)) (wire (lv_labels b))) :: (ordering, 'e) result) \<and>
    composed_cmp_loop label_composed_cmp (lv_labels a) (lv_labels b) = (composed_cmp a b :: (ordering, 'e) result) \<and>
    lowercase_composed_cmp a b = (Ok (list_cmp ord_cmp (map to_ascii_lowercase (wire (lv_labels a)))
      (map to_ascii_lowercase (wire (lv_labels b)))) :: (ordering, 'e) result)"
proof -
  have "composed_cmp a b = (Ok (list_cmp ord_cmp (wire (lv_labels a)) (wire (lv_labels b))) :: (ordering, 'e) result)"
    using assms by (auto simp: composed_cmp_def composed_cmp_loop_wire dest: view_okD(5) split: option.splits)
  then show ?thesis
    using assms(3,4)
    by (simp add: composed_cmp_loop_wire lowercase_composed_cmp_def lowercase_composed_cmp_loop_wire)
qed

theorem composed_cmp_correct_witness:
  "composed_cmp \<lparr>lv_labels = [[]], lv_back = [[]], lv_compose_len = Ok 1, lv_flat = None\<rparr>
     \<lparr>lv_labels = [[97], []], lv_back = [[], [97]], lv_compose_len = Ok 3, lv_flat = Some [1, 97, 0]\<rparr> =
   (Ok Less :: (ordering, unit) result)"
  using composed_cmp_correct [where 'e = unit,
      of "\<lparr>lv_labels = [[]], lv_back = [[]], lv_compose_len = Ok 1, lv_flat = None\<rparr>"
      "\<lparr>lv_labels = [[97], []], lv_back = [[], [97]], lv_compose_len = Ok 3, lv_flat = Some [1, 97, 0]\<rparr>"]
  by (simp add: view_ok_def valid_label_def wire_label_def LABEL_MAX_LEN_def NAME_MAX_LEN_def
      abs_labels_Cons ord_cmp_def)

end
