(* ===== verification/Name.thy ===== *)
theory Name
  imports NameTraits
begin

text \<open>
  \<^verbatim>\<open>src/base/name/absolute.rs\<close> and \<^verbatim>\<open>src/base/name/relative.rs\<close>: uncompressed domain names.  \<open>Name\<close> and
  \<open>RelativeName\<close> are their octets; what the checked constructors guarantee about them is
  \<open>name_ok\<close> and \<open>relative_name_ok\<close>.
\<close>

section \<open>Errors\<close>

datatype name_error =
  NameBadLabel label_type_error | NameCompressed | NameLong | NameRelative | NameTrailingData | NameShortInput

fun name_error_from_split :: "split_label_error \<Rightarrow> name_error" where
  "name_error_from_split (Pointer _) = NameCompressed"
| "name_error_from_split (BadType t) = NameBadLabel t"
| "name_error_from_split SplitShortInput = NameShortInput"

fun form_error_from_name :: "name_error \<Rightarrow> form_error" where
  "form_error_from_name (NameBadLabel _) = ''unknown label type''"
| "form_error_from_name NameCompressed = ''compressed domain name''"
| "form_error_from_name NameLong = ''long domain name''"
| "form_error_from_name NameRelative = ''relative domain name''"
| "form_error_from_name NameTrailingData = ''trailing data in buffer''"
| "form_error_from_name NameShortInput = ''unexpected end of buffer''"

definition parse_error_from_name :: "name_error \<Rightarrow> parse_error" where
  "parse_error_from_name err =
     (case err of NameShortInput \<Rightarrow> ShortInputError | _ \<Rightarrow> Form (form_error_from_name err))"

datatype relative_name_error =
  RelBadLabel label_type_error | RelCompressed | RelShortInput | RelLong | RelAbsolute

fun relative_error_from_split :: "split_label_error \<Rightarrow> relative_name_error" where
  "relative_error_from_split (Pointer _) = RelCompressed"
| "relative_error_from_split (BadType t) = RelBadLabel t"
| "relative_error_from_split SplitShortInput = RelShortInput"

section \<open>The iterator over the labels\<close>

definition name_iter_next :: "octets \<Rightarrow> label option \<times> octets" where
  "name_iter_next octs =
     (case split_from octs of Ok (label, tail) \<Rightarrow> (Some label, tail) | _ \<Rightarrow> (None, octs))"

function name_iter_back_loop :: "octets \<Rightarrow> (label, 'e) result" where
  "name_iter_back_loop tmp =
     (case split_from tmp of
        Ok (label, tail) \<Rightarrow> if tail = [] then Ok label else name_iter_back_loop tail
      | _ \<Rightarrow> Panic)"
  by pat_completeness auto
termination
  by (relation "measure length") (auto dest: split_from_shorter)

declare name_iter_back_loop.simps [simp del]

definition name_iter_next_back :: "octets \<Rightarrow> (label option \<times> octets, 'e) result" where
  "name_iter_next_back octs =
     (if octs = [] then Ok (None, octs)
      else rbind (name_iter_back_loop octs) (\<lambda>label.
        if length octs < length label + 1 then Panic
        else Ok (Some label, take (length octs - (length label + 1)) octs)))"

text \<open>Running the iterator from either end until it returns \<open>None\<close>.\<close>

lemma name_iter_next_shorter: "name_iter_next octs = (Some l, tail) \<Longrightarrow> length tail < length octs"
  by (auto simp: name_iter_next_def dest: split_from_shorter split: result.splits)

function name_labels :: "octets \<Rightarrow> label list" where
  "name_labels octs =
     (case name_iter_next octs of
        (Some label, tail) \<Rightarrow> label # name_labels tail
      | (None, _) \<Rightarrow> [])"
  by pat_completeness auto
termination
  by (relation "measure length") (auto dest: name_iter_next_shorter [OF sym])

declare name_labels.simps [simp del]

lemma name_iter_next_back_shorter:
  "name_iter_next_back octs = Ok (Some l, rest) \<Longrightarrow> length rest < length octs"
  by (auto simp: name_iter_next_back_def rbind_Ok_iff split: if_splits)

function name_labels_back :: "octets \<Rightarrow> (label list, 'e) result" where
  "name_labels_back octs =
     rbind (name_iter_next_back octs) (\<lambda>(l, rest).
       case l of
         Some label \<Rightarrow> rmap ((#) label) (name_labels_back rest)
       | None \<Rightarrow> Ok [])"
  by pat_completeness auto
termination
  by (relation "measure length") (auto dest: name_iter_next_back_shorter)

declare name_labels_back.simps [simp del]

section \<open>The traits\<close>

text \<open>
  \<open>Name\<close> and \<open>RelativeName\<close> implement the traits alike.  The iterator panics when it is run backwards
  over octets that are not a name, which no checked constructor admits; the view has no labels then.
\<close>

definition octets_compose_len :: "octets \<Rightarrow> (u16, 'e) result" where
  "octets_compose_len octs = (if length octs < 2 ^ 16 then Ok (of_nat (length octs)) else Panic)"

definition name_view :: "octets \<Rightarrow> label_view" where
  "name_view octs =
     \<lparr>lv_labels = name_labels octs,
      lv_back = (case name_labels_back octs of Ok ls \<Rightarrow> ls | Err (_ :: unit) \<Rightarrow> [] | Panic \<Rightarrow> []),
      lv_compose_len = octets_compose_len octs,
      lv_flat = Some octs\<rparr>"

section \<open>Absolute names\<close>

function name_check_loop :: "octets \<Rightarrow> (unit, name_error) result" where
  "name_check_loop octs =
     (case split_from octs of
        Ok (label, tail) \<Rightarrow>
          if label_is_root label then
            (if tail = [] then Ok () else Err NameTrailingData)
          else if tail = [] then Err NameRelative
          else name_check_loop tail
      | Err e \<Rightarrow> Err (name_error_from_split e)
      | Panic \<Rightarrow> Panic)"
  by pat_completeness auto
termination
  by (relation "measure length") (auto dest: split_from_shorter)

declare name_check_loop.simps [simp del]

definition name_check_slice :: "octets \<Rightarrow> (unit, name_error) result" where
  "name_check_slice octs = (if length octs > NAME_MAX_LEN then Err NameLong else name_check_loop octs)"

definition name_from_octets :: "octets \<Rightarrow> (octets, name_error) result" where
  "name_from_octets octs = rbind (name_check_slice octs) (\<lambda>_. Ok octs)"

definition name_root :: octets where
  "name_root = [0]"

definition name_into_relative :: "octets \<Rightarrow> (octets, 'e) result" where
  "name_into_relative self = (if length self < 1 then Panic else Ok (take (length self - 1) self))"

definition name_make_canonical :: "octets \<Rightarrow> (octets, 'e) result" where
  "name_make_canonical self = make_slice_canonical self"

definition name_is_root :: "octets \<Rightarrow> bool" where
  "name_is_root self \<longleftrightarrow> length self = 1"

definition name_label_count :: "octets \<Rightarrow> nat" where
  "name_label_count self = length (name_labels self)"

definition name_first :: "octets \<Rightarrow> (label, 'e) result" where
  "name_first self = (case name_iter_next self of (Some l, _) \<Rightarrow> Ok l | (None, _) \<Rightarrow> Panic)"

function name_is_label_start_loop :: "octets \<Rightarrow> nat \<Rightarrow> (bool, 'e) result" where
  "name_is_label_start_loop tmp index =
     (if tmp = [] then Ok False
      else (case split_from tmp of
              Ok (label, tail) \<Rightarrow>
                (let len = length label + 1 in
                 if index < len \<or> len = 1 then Ok False
                 else if index = len then Ok True
                 else name_is_label_start_loop tail (index - len))
            | _ \<Rightarrow> Panic))"
  by pat_completeness auto
termination
  by (relation "measure (\<lambda>(t, _). length t)") (auto dest: split_from_shorter)

declare name_is_label_start_loop.simps [simp del]

definition name_is_label_start :: "octets \<Rightarrow> nat \<Rightarrow> (bool, 'e) result" where
  "name_is_label_start self index = (if index = 0 then Ok True else name_is_label_start_loop self index)"

definition name_check_index :: "octets \<Rightarrow> nat \<Rightarrow> (unit, 'e) result" where
  "name_check_index self index = rbind (name_is_label_start self index) (\<lambda>b. if b then Ok () else Panic)"

datatype bound = Included nat | Excluded nat | Unbounded

text \<open>Slicing with a range: out of bounds or a start after the end panics.\<close>

definition octets_range :: "octets \<Rightarrow> bound \<Rightarrow> bound \<Rightarrow> (octets, 'e) result" where
  "octets_range octs lo hi =
     (let begin' = (case lo of Included i \<Rightarrow> i | Excluded i \<Rightarrow> i + 1 | Unbounded \<Rightarrow> 0);
          end' = (case hi of Included i \<Rightarrow> i + 1 | Excluded i \<Rightarrow> i | Unbounded \<Rightarrow> length octs)
      in if end' < begin' \<or> length octs < end' then Panic else Ok (drop begin' (take end' octs)))"

definition name_check_bounds :: "octets \<Rightarrow> bound \<Rightarrow> bound \<Rightarrow> (unit, 'e) result" where
  "name_check_bounds self lo hi =
     rbind (case lo of Included i \<Rightarrow> name_check_index self i | Excluded _ \<Rightarrow> Panic | Unbounded \<Rightarrow> Ok ()) (\<lambda>_.
       case hi of
         Included i \<Rightarrow> name_check_index self (i + 1)
       | Excluded i \<Rightarrow> name_check_index self i
       | Unbounded \<Rightarrow> Panic)"

definition name_range :: "octets \<Rightarrow> bound \<Rightarrow> bound \<Rightarrow> (octets, 'e) result" where
  "name_range self lo hi = rbind (name_check_bounds self lo hi) (\<lambda>_. octets_range self lo hi)"

definition name_range_from :: "octets \<Rightarrow> nat \<Rightarrow> (octets, 'e) result" where
  "name_range_from self begin' =
     rbind (name_check_index self begin') (\<lambda>_. octets_range self (Included begin') Unbounded)"

definition name_split :: "octets \<Rightarrow> nat \<Rightarrow> (octets \<times> octets, 'e) result" where
  "name_split self mid =
     rbind (name_check_index self mid) (\<lambda>_.
     rbind (octets_range self Unbounded (Excluded mid)) (\<lambda>left.
     rbind (octets_range self (Included mid) Unbounded) (\<lambda>right. Ok (left, right))))"

definition name_truncate :: "octets \<Rightarrow> nat \<Rightarrow> (octets, 'e) result" where
  "name_truncate self len = rbind (name_check_index self len) (\<lambda>_. Ok (take len self))"

definition name_split_first :: "octets \<Rightarrow> ((label \<times> octets) option, 'e) result" where
  "name_split_first self =
     rbind (octets_compose_len self) (\<lambda>len.
       if len = 1 then Ok None
       else rbind (name_first self) (\<lambda>label.
         rmap (\<lambda>(_, right). Some (label, right)) (name_split self (length label + 1))))"

definition name_parent :: "octets \<Rightarrow> (octets option, 'e) result" where
  "name_parent self = rmap (map_option snd) (name_split_first self)"

text \<open>\<open>strip_suffix\<close> gives the name back as its error.\<close>

definition name_strip_suffix :: "octets \<Rightarrow> label_view \<Rightarrow> (octets, octets) result" where
  "name_strip_suffix self base =
     (if ends_with (name_view self) base then
        rbind (runwrap (lv_compose_len base)) (\<lambda>clen.
          if length self < unat clen then Panic else name_truncate self (length self - unat clen))
      else Err self)"

text \<open>\<open>Display\<close> and \<open>Hash\<close>.\<close>

definition name_display :: "octets \<Rightarrow> (uchar list, 'e) result" where
  "name_display self =
     (if name_is_root self then Ok [46]
      else (case name_labels self of
              [] \<Rightarrow> Panic
            | first # labels \<Rightarrow>
                Ok (label_display first @
                    concat (map (\<lambda>l. if label_is_root l then [] else 46 # label_display l) labels))))"

definition name_hash_input :: "octets \<Rightarrow> octets" where
  "name_hash_input self = concat (map label_hash_input (name_labels self))"

text \<open>The iterator over the suffixes: its state is the start of the next one.\<close>

definition suffix_iter_next :: "octets \<Rightarrow> nat option \<Rightarrow> (octets option \<times> nat option, 'e) result" where
  "suffix_iter_next name start =
     (case start of
        None \<Rightarrow> Ok (None, None)
      | Some s \<Rightarrow>
          rbind (octets_range name (Included s) Unbounded) (\<lambda>res.
          rbind (name_first res) (\<lambda>label.
            if label_is_root label then Ok (Some res, None)
            else rbind (label_compose_len label) (\<lambda>clen. Ok (Some res, Some (s + unat clen))))))"

section \<open>Parsing\<close>

function parse_name_len_loop :: "octets \<Rightarrow> (octets, parse_error) result" where
  "parse_name_len_loop tmp =
     (if tmp = [] then Err ShortInputError
      else (case split_from tmp of
              Ok (label, tail) \<Rightarrow> if label_is_root label then Ok tail else parse_name_len_loop tail
            | Err e \<Rightarrow> Err (parse_error_from_split e)
            | Panic \<Rightarrow> Panic))"
  by pat_completeness auto
termination
  by (relation "measure length") (auto dest: split_from_shorter)

declare parse_name_len_loop.simps [simp del]

definition parse_name_len :: "parser_ops \<Rightarrow> parser \<Rightarrow> (nat, parse_error) result" where
  "parse_name_len P p =
     rbind (parse_name_len_loop (ps_peek_all P p)) (\<lambda>tmp.
       if p_remaining p < length tmp then Panic
       else (let len = p_remaining p - length tmp in
             if len > NAME_MAX_LEN then Err (parse_error_from_name NameLong) else Ok len))"

definition name_parse :: "parser_ops \<Rightarrow> parser \<Rightarrow> octets parse_result" where
  "name_parse P p =
     rbind (parse_name_len P p) (\<lambda>len. rmap_err parse_error_from_short (ps_parse_octets P p len))"

section \<open>Relative names\<close>

function relative_check_loop :: "octets \<Rightarrow> (unit, relative_name_error) result" where
  "relative_check_loop octs =
     (if octs = [] then Ok ()
      else (case split_from octs of
              Ok (label, tail) \<Rightarrow>
                if label_is_root label then Err RelAbsolute else relative_check_loop tail
            | Err e \<Rightarrow> Err (relative_error_from_split e)
            | Panic \<Rightarrow> Panic))"
  by pat_completeness auto
termination
  by (relation "measure length") (auto dest: split_from_shorter)

declare relative_check_loop.simps [simp del]

definition relative_check_slice :: "octets \<Rightarrow> (unit, relative_name_error) result" where
  "relative_check_slice octs = (if length octs > 254 then Err RelLong else relative_check_loop octs)"

definition relative_from_octets :: "octets \<Rightarrow> (octets, relative_name_error) result" where
  "relative_from_octets octs = rbind (relative_check_slice octs) (\<lambda>_. Ok octs)"

definition relative_empty :: octets where
  "relative_empty = []"

definition relative_wildcard :: octets where
  "relative_wildcard = [1, 42]"

definition relative_is_empty :: "octets \<Rightarrow> bool" where
  "relative_is_empty self \<longleftrightarrow> self = []"

definition relative_first :: "octets \<Rightarrow> label option" where
  "relative_first self = fst (name_iter_next self)"

definition relative_last :: "octets \<Rightarrow> (label option, 'e) result" where
  "relative_last self = rmap fst (name_iter_next_back self)"

definition relative_ndots :: "octets \<Rightarrow> (nat, 'e) result" where
  "relative_ndots self =
     (if self = [] then Ok 0
      else if name_label_count self < 1 then Panic else Ok (name_label_count self - 1))"

function relative_is_label_start_loop :: "octets \<Rightarrow> nat \<Rightarrow> (bool, 'e) result" where
  "relative_is_label_start_loop tmp index =
     (if tmp = [] then Ok False
      else (case split_from tmp of
              Ok (label, tail) \<Rightarrow>
                (let len = length label + 1 in
                 case ord_cmp index len of
                   Less \<Rightarrow> Ok False
                 | Equal \<Rightarrow> Ok True
                 | Greater \<Rightarrow> relative_is_label_start_loop tail (index - len))
            | _ \<Rightarrow> Panic))"
  by pat_completeness auto
termination
  by (relation "measure (\<lambda>(t, _). length t)") (auto dest: split_from_shorter)

declare relative_is_label_start_loop.simps [simp del]

definition relative_is_label_start :: "octets \<Rightarrow> nat \<Rightarrow> (bool, 'e) result" where
  "relative_is_label_start self index =
     (if index = 0 then Ok True else relative_is_label_start_loop self index)"

definition relative_check_index :: "octets \<Rightarrow> nat \<Rightarrow> (unit, 'e) result" where
  "relative_check_index self index =
     rbind (relative_is_label_start self index) (\<lambda>b. if b then Ok () else Panic)"

definition relative_check_bounds :: "octets \<Rightarrow> bound \<Rightarrow> bound \<Rightarrow> (unit, 'e) result" where
  "relative_check_bounds self lo hi =
     rbind (case lo of Included i \<Rightarrow> relative_check_index self i | Excluded _ \<Rightarrow> Panic | Unbounded \<Rightarrow> Ok ()) (\<lambda>_.
       case hi of
         Included i \<Rightarrow> relative_check_index self (i + 1)
       | Excluded i \<Rightarrow> relative_check_index self i
       | Unbounded \<Rightarrow> Ok ())"

definition relative_range :: "octets \<Rightarrow> bound \<Rightarrow> bound \<Rightarrow> (octets, 'e) result" where
  "relative_range self lo hi = rbind (relative_check_bounds self lo hi) (\<lambda>_. octets_range self lo hi)"

definition relative_split :: "octets \<Rightarrow> nat \<Rightarrow> (octets \<times> octets, 'e) result" where
  "relative_split self mid =
     rbind (relative_check_index self mid) (\<lambda>_.
     rbind (octets_range self Unbounded (Excluded mid)) (\<lambda>left.
     rbind (octets_range self (Included mid) Unbounded) (\<lambda>right. Ok (left, right))))"

definition relative_truncate :: "octets \<Rightarrow> nat \<Rightarrow> (octets, 'e) result" where
  "relative_truncate self len = rbind (relative_check_index self len) (\<lambda>_. Ok (take len self))"

definition relative_split_first :: "octets \<Rightarrow> ((label \<times> octets) option, 'e) result" where
  "relative_split_first self =
     (if relative_is_empty self then Ok None
      else (case fst (name_iter_next self) of
              None \<Rightarrow> Ok None
            | Some label \<Rightarrow>
                rmap (\<lambda>(_, right). Some (label, right)) (relative_split self (length label + 1))))"

definition relative_parent :: "octets \<Rightarrow> (octets option, 'e) result" where
  "relative_parent self = rmap (map_option snd) (relative_split_first self)"

datatype strip_suffix_error = StripSuffixError

definition relative_strip_suffix :: "octets \<Rightarrow> label_view \<Rightarrow> (octets, strip_suffix_error) result" where
  "relative_strip_suffix self base =
     (if ends_with (name_view self) base then
        rbind (runwrap (lv_compose_len base)) (\<lambda>clen.
          if length self < unat clen then Panic else Ok (take (length self - unat clen) self))
      else Err StripSuffixError)"

definition relative_display :: "octets \<Rightarrow> uchar list" where
  "relative_display self =
     (case name_labels self of
        [] \<Rightarrow> []
      | first # labels \<Rightarrow> label_display first @ concat (map (\<lambda>l. 46 # label_display l) labels))"

section \<open>Well-formed names\<close>

definition name_ok :: "octets \<Rightarrow> bool" where
  "name_ok octs \<longleftrightarrow> (\<exists>ls. abs_labels ls \<and> octs = wire ls \<and> length octs \<le> NAME_MAX_LEN)"

definition relative_name_ok :: "octets \<Rightarrow> bool" where
  "relative_name_ok octs \<longleftrightarrow> (\<exists>ls. rel_labels ls \<and> octs = wire ls \<and> length octs \<le> 254)"

lemma name_labels_wire [simp]: "list_all valid_label ls \<Longrightarrow> name_labels (wire ls) = ls"
proof (induction ls)
  case Nil
  show ?case by (subst name_labels.simps) (simp add: name_iter_next_def split_from_def)
next
  case (Cons l ls)
  then show ?case by (subst name_labels.simps) (simp add: name_iter_next_def)
qed

lemma name_iter_back_loop_wire:
  "list_all valid_label ls \<Longrightarrow> ls \<noteq> [] \<Longrightarrow> name_iter_back_loop (wire ls) = Ok (last ls)"
proof (induction ls)
  case (Cons l ls)
  then show ?case by (subst name_iter_back_loop.simps) auto
qed simp

lemma name_iter_next_back_wire:
  assumes "list_all valid_label (ls @ [l])"
  shows "name_iter_next_back (wire (ls @ [l])) = (Ok (Some l, wire ls) :: (label option \<times> octets, 'a) result)"
proof -
  have "name_iter_back_loop (wire (ls @ [l])) = (Ok l :: (label, 'a) result)"
    using name_iter_back_loop_wire [OF assms] by simp
  then show ?thesis by (simp add: name_iter_next_back_def)
qed

lemma name_labels_back_wire [simp]: "list_all valid_label ls \<Longrightarrow> name_labels_back (wire ls) = Ok (rev ls)"
proof (induction ls rule: rev_induct)
  case Nil
  show ?case by (subst name_labels_back.simps) (simp add: name_iter_next_back_def)
next
  case (snoc l ls)
  then show ?case
    by (subst name_labels_back.simps) (simp del: wire_simps add: name_iter_next_back_wire)
qed

lemma view_ok_name_view:
  "list_all valid_label ls \<Longrightarrow> length (wire ls) \<le> NAME_MAX_LEN \<Longrightarrow> view_ok (name_view (wire ls))"
  by (simp add: view_ok_def name_view_def octets_compose_len_def NAME_MAX_LEN_def)

lemma name_okE:
  assumes "name_ok octs"
  obtains ls where "abs_labels ls" "octs = wire ls" "length (wire ls) \<le> NAME_MAX_LEN"
    "list_all valid_label ls" "name_labels octs = ls" "view_ok (name_view octs)"
proof -
  from assms obtain ls where ls: "abs_labels ls" "octs = wire ls" "length octs \<le> NAME_MAX_LEN"
    by (auto simp: name_ok_def)
  then show thesis using that [of ls] abs_labels_valid [OF ls(1)] by (simp add: view_ok_name_view)
qed

lemma relative_name_okE:
  assumes "relative_name_ok octs"
  obtains ls where "rel_labels ls" "octs = wire ls" "length (wire ls) \<le> 254"
    "list_all valid_label ls" "name_labels octs = ls" "view_ok (name_view octs)"
proof -
  from assms obtain ls where ls: "rel_labels ls" "octs = wire ls" "length octs \<le> 254"
    by (auto simp: relative_name_ok_def)
  then show thesis
    using that [of ls] rel_labels_valid [OF ls(1)] by (simp add: view_ok_name_view NAME_MAX_LEN_def)
qed

interpretation name_iter: to_label_iter name_view name_ok name_labels
  by unfold_locales (auto elim!: name_okE simp: name_view_def)

interpretation relative_iter: to_label_iter name_view relative_name_ok name_labels
  by unfold_locales (auto elim!: relative_name_okE simp: name_view_def)

section \<open>Walking over the labels\<close>

text \<open>
  Every sequence of octets is a relative name followed by nothing, by a root label or by something
  that is not a label, and the loops over labels go over the relative name.
\<close>

lemma labels_cover:
  obtains ls rest where "rel_labels ls" "octs = wire ls @ rest"
    "rest = [] \<or> (\<exists>t. split_from rest = Ok ([], t)) \<or> (rest \<noteq> [] \<and> (\<exists>e. split_from rest = Err e))"
proof (induction octs arbitrary: thesis rule: measure_induct_rule [of length])
  case (less octs)
  show ?case
  proof (cases "split_from octs")
    case (Ok r)
    then obtain l t where r: "split_from octs = Ok (l, t)" by (cases r) auto
    show ?thesis
    proof (cases "l = []")
      case True
      with r show ?thesis using less.prems [of "[]" octs] by simp
    next
      case False
      from split_from_shorter [OF r] less.IH obtain ls rest where "rel_labels ls" "t = wire ls @ rest"
        "rest = [] \<or> (\<exists>t. split_from rest = Ok ([], t)) \<or> (rest \<noteq> [] \<and> (\<exists>e. split_from rest = Err e))"
        by blast
      moreover from r have "valid_label l" "octs = wire_label l @ t" by (simp_all add: split_from_Ok_iff)
      ultimately show ?thesis using False less.prems [of "l # ls" rest] by simp
    qed
  next
    case (Err e)
    then show ?thesis using less.prems [of "[]" octs] by auto
  next
    case Panic
    then show ?thesis by (auto simp: split_from_def Let_def split: list.splits if_splits)
  qed
qed

lemma split_from_root [simp]: "split_from (0 # rest) = Ok ([], rest)"
  using split_from_wire_label [of "[]" rest] by (simp add: wire_label_def valid_label_def)

lemma wire_label_Nil [simp]: "wire_label [] = [0]"
  by (simp add: wire_label_def)

lemma split_from_root_iff: "split_from octs = Ok ([], t) \<longleftrightarrow> octs = 0 # t"
  by (auto simp: split_from_Ok_iff valid_label_def)

lemma split_from_Nil [simp]: "split_from [] = Err SplitShortInput"
  by (simp add: split_from_def)

lemma wire_append_root: "abs_labels ls \<longleftrightarrow> (\<exists>ms. rel_labels ms \<and> ls = ms @ [[]])"
  by (auto simp: abs_labels_iff)

lemma name_check_loop_walk:
  "rel_labels ls \<Longrightarrow> name_check_loop (wire ls @ rest) =
     (if ls \<noteq> [] \<and> rest = [] then Err NameRelative else name_check_loop rest)"
proof (induction ls)
  case (Cons l ls)
  then show ?case
    by (subst name_check_loop.simps) (auto simp: label_is_root_def)
qed simp

lemma relative_check_loop_walk:
  "rel_labels ls \<Longrightarrow> relative_check_loop (wire ls @ rest) = relative_check_loop rest"
proof (induction ls)
  case (Cons l ls)
  then show ?case
    by (subst relative_check_loop.simps) (auto simp: label_is_root_def)
qed simp

lemma parse_name_len_loop_walk:
  "rel_labels ls \<Longrightarrow> parse_name_len_loop (wire ls @ rest) = parse_name_len_loop rest"
proof (induction ls)
  case (Cons l ls)
  then show ?case
    by (subst parse_name_len_loop.simps) (auto simp: label_is_root_def)
qed simp

lemma name_check_loop_base:
  "name_check_loop (0 # t) = (if t = [] then Ok () else Err NameTrailingData)"
  "split_from rest = Err e \<Longrightarrow> name_check_loop rest = Err (name_error_from_split e)"
  by (simp_all add: name_check_loop.simps label_is_root_def)

lemma relative_check_loop_base:
  "relative_check_loop [] = Ok ()"
  "relative_check_loop (0 # t) = Err RelAbsolute"
  "rest \<noteq> [] \<Longrightarrow> split_from rest = Err e \<Longrightarrow> relative_check_loop rest = Err (relative_error_from_split e)"
  by (simp_all add: relative_check_loop.simps label_is_root_def)

lemma parse_name_len_loop_base:
  "parse_name_len_loop [] = Err ShortInputError"
  "parse_name_len_loop (0 # t) = Ok t"
  "rest \<noteq> [] \<Longrightarrow> split_from rest = Err e \<Longrightarrow> parse_name_len_loop rest = Err (parse_error_from_split e)"
  by (simp_all add: parse_name_len_loop.simps label_is_root_def)


lemma name_ok_iff: "name_ok octs \<longleftrightarrow> (\<exists>ls. rel_labels ls \<and> octs = wire ls @ [0] \<and> length octs \<le> NAME_MAX_LEN)"
  by (auto simp: name_ok_def wire_append_root)

section \<open>Checking octets\<close>

lemma name_check_loop_cases:
  obtains (ok) ls where "rel_labels ls" "octs = wire ls @ [0]" "name_check_loop octs = Ok ()"
  | (trailing) ls t where "rel_labels ls" "octs = wire ls @ 0 # t" "t \<noteq> []" "name_check_loop octs = Err NameTrailingData"
  | (relative) ls where "rel_labels ls" "ls \<noteq> []" "octs = wire ls" "name_check_loop octs = Err NameRelative"
  | (split) ls rest e where "rel_labels ls" "octs = wire ls @ rest" "rest = [] \<longrightarrow> ls = []"
      "split_from rest = Err e" "name_check_loop octs = Err (name_error_from_split e)"
proof -
  obtain ls rest where ls: "rel_labels ls" "octs = wire ls @ rest"
    and rest: "rest = [] \<or> (\<exists>t. split_from rest = Ok ([], t)) \<or> (rest \<noteq> [] \<and> (\<exists>e. split_from rest = Err e))"
    by (rule labels_cover)
  note eval = name_check_loop_walk [OF ls(1), of rest, folded ls(2)]
  from rest consider "rest = []" | t where "rest = 0 # t" | e where "rest \<noteq> []" "split_from rest = Err e"
    by (auto simp: split_from_root_iff)
  then show thesis
  proof cases
    case 1
    with ls eval relative split [of "[]" "[]" SplitShortInput] show thesis
      by (cases "ls = []") (auto simp: name_check_loop_base)
  next
    case (2 t)
    with ls eval ok [of ls] trailing [of ls t] show thesis
      by (cases "t = []") (simp_all add: name_check_loop_base)
  next
    case (3 e)
    with ls eval split [of ls rest e] show thesis by (simp add: name_check_loop_base)
  qed
qed

lemma relative_check_loop_cases:
  obtains (ok) ls where "rel_labels ls" "octs = wire ls" "relative_check_loop octs = Ok ()"
  | (absolute) ls t where "rel_labels ls" "octs = wire ls @ 0 # t" "relative_check_loop octs = Err RelAbsolute"
  | (split) ls rest e where "rel_labels ls" "octs = wire ls @ rest" "rest \<noteq> []"
      "split_from rest = Err e" "relative_check_loop octs = Err (relative_error_from_split e)"
proof -
  obtain ls rest where ls: "rel_labels ls" "octs = wire ls @ rest"
    and rest: "rest = [] \<or> (\<exists>t. split_from rest = Ok ([], t)) \<or> (rest \<noteq> [] \<and> (\<exists>e. split_from rest = Err e))"
    by (rule labels_cover)
  note eval = relative_check_loop_walk [OF ls(1), of rest, folded ls(2)]
  from rest consider "rest = []" | t where "rest = 0 # t" | e where "rest \<noteq> []" "split_from rest = Err e"
    by (auto simp: split_from_root_iff)
  then show thesis
    using ls eval that by cases (simp_all add: relative_check_loop_base)
qed

lemma name_error_from_split_ne [simp]:
  "name_error_from_split e \<noteq> NameLong" "name_error_from_split e \<noteq> NameRelative"
  "name_error_from_split e \<noteq> NameTrailingData"
  by (cases e; simp)+

lemma relative_error_from_split_ne [simp]:
  "relative_error_from_split e \<noteq> RelLong" "relative_error_from_split e \<noteq> RelAbsolute"
  by (cases e; simp)+

lemmas error_from_split_ne [simp] =
  name_error_from_split_ne [THEN not_sym] relative_error_from_split_ne [THEN not_sym]

lemma name_check_loop_Ok: "name_check_loop octs = Ok () \<longleftrightarrow> (\<exists>ls. rel_labels ls \<and> octs = wire ls @ [0])"
proof -
  have "name_check_loop (wire ls @ [0]) = Ok ()" if "rel_labels ls" for ls
    using that by (simp add: name_check_loop_walk name_check_loop_base)
  moreover have "\<exists>ls. rel_labels ls \<and> octs = wire ls @ [0]" if "name_check_loop octs = Ok ()"
    by (rule name_check_loop_cases [of octs]) (use that in auto)
  ultimately show ?thesis by blast
qed

lemma relative_check_loop_Ok: "relative_check_loop octs = Ok () \<longleftrightarrow> (\<exists>ls. rel_labels ls \<and> octs = wire ls)"
proof -
  have "relative_check_loop (wire ls) = Ok ()" if "rel_labels ls" for ls
    using relative_check_loop_walk [OF that, of "[]"] by (simp add: relative_check_loop_base)
  moreover have "\<exists>ls. rel_labels ls \<and> octs = wire ls" if "relative_check_loop octs = Ok ()"
    by (rule relative_check_loop_cases [of octs]) (use that in auto)
  ultimately show ?thesis by blast
qed

lemma name_check_slice_Ok: "name_check_slice octs = Ok () \<longleftrightarrow> name_ok octs"
  by (auto simp: name_check_slice_def name_ok_iff name_check_loop_Ok)

lemma relative_check_slice_Ok: "relative_check_slice octs = Ok () \<longleftrightarrow> relative_name_ok octs"
  by (auto simp: relative_check_slice_def relative_name_ok_def relative_check_loop_Ok)

lemma name_check_loop_Relative:
  "name_check_loop octs = Err NameRelative \<longleftrightarrow> (\<exists>ls. rel_labels ls \<and> ls \<noteq> [] \<and> octs = wire ls)"
proof -
  have "name_check_loop (wire ls) = Err NameRelative" if "rel_labels ls" "ls \<noteq> []" for ls
    using that name_check_loop_walk [of ls "[]"] by simp
  then show ?thesis by - (rule name_check_loop_cases [of octs], auto)
qed

lemma name_check_loop_no_Panic: "name_check_loop octs \<noteq> Panic" "name_check_loop octs \<noteq> Err NameLong"
  by (rule name_check_loop_cases [of octs]; simp)+

section \<open>Positions of labels\<close>

text \<open>The position of the label with index \<open>k\<close>.\<close>

abbreviation label_pos :: "label list \<Rightarrow> nat \<Rightarrow> nat" where
  "label_pos ls k \<equiv> length (wire (take k ls))"

lemma take_label_pos: "take (label_pos ls k) (wire ls) = wire (take k ls)"
  "drop (label_pos ls k) (wire ls) = wire (drop k ls)"
proof -
  have "wire ls = wire (take k ls) @ wire (drop k ls)"
    using wire_simps(3) [of "take k ls" "drop k ls"] by simp
  then show "take (label_pos ls k) (wire ls) = wire (take k ls)" "drop (label_pos ls k) (wire ls) = wire (drop k ls)"
    by simp_all
qed

lemma label_pos_le: "label_pos ls k \<le> length (wire ls)"
  using arg_cong [OF take_label_pos(1) [of k ls], of length] by simp

lemma name_is_label_start_loop_wire:
  "abs_labels ls \<Longrightarrow> 0 < i \<Longrightarrow>
     (name_is_label_start_loop (wire ls) i :: (bool, 'e) result) = Ok (\<exists>k<length ls. i = label_pos ls k)"
proof (induction ls arbitrary: i)
  case (Cons l ls)
  have v: "valid_label l" using abs_labels_valid [OF Cons.prems(1)] by simp
  consider "l = []" "ls = []" | "l \<noteq> []" "abs_labels ls" "ls \<noteq> []"
    using Cons.prems(1) by (cases ls) (auto simp: abs_labels_Cons)
  then show ?case
  proof cases
    case 1
    with Cons.prems show ?thesis by (subst name_is_label_start_loop.simps) simp
  next
    case 2
    have ex: "(\<exists>k<length (l # ls). i = label_pos (l # ls) k) \<longleftrightarrow>
        (\<exists>k<length ls. i = Suc (length l) + label_pos ls k)"
      using Cons.prems(2) by (auto simp: Ex_less_Suc2)
    have zero: "\<exists>k<length ls. label_pos ls k = 0"
      using 2 by (intro exI [of _ 0]) simp
    have rec: "(name_is_label_start_loop (wire ls) (i - Suc (length l)) :: (bool, 'e) result) =
        Ok (\<exists>k<length ls. i - Suc (length l) = label_pos ls k)" if "Suc (length l) < i"
      using that by (intro Cons.IH [OF 2(2)]) simp
    show ?thesis
      unfolding ex using v 2 zero rec
      by (subst name_is_label_start_loop.simps) (auto simp: Let_def)
  qed
qed simp

lemma name_is_label_start_wire:
  assumes "abs_labels ls"
  shows "name_is_label_start (wire ls) i = Ok (\<exists>k<length ls. i = label_pos ls k)"
proof (cases "i = 0")
  case True
  moreover have "ls \<noteq> []" using assms by auto
  ultimately show ?thesis by (auto simp: name_is_label_start_def intro: exI [of _ 0])
qed (simp add: name_is_label_start_def name_is_label_start_loop_wire assms)

lemma relative_is_label_start_loop_wire:
  "rel_labels ls \<Longrightarrow> 0 < i \<Longrightarrow>
     (relative_is_label_start_loop (wire ls) i :: (bool, 'e) result) = Ok (\<exists>k\<le>length ls. i = label_pos ls k)"
proof (induction ls arbitrary: i)
  case Nil
  then show ?case by (subst relative_is_label_start_loop.simps) simp
next
  case (Cons l ls)
  have ex: "(\<exists>k\<le>length (l # ls). i = label_pos (l # ls) k) \<longleftrightarrow>
      (\<exists>k\<le>length ls. i = Suc (length l) + label_pos ls k)"
    using Cons.prems(2) by (simp only: less_Suc_eq_le [symmetric] list.size) (simp add: Ex_less_Suc2)
  have zero: "\<exists>k\<le>length ls. label_pos ls k = 0" by (intro exI [of _ 0]) simp
  have rec: "(relative_is_label_start_loop (wire ls) (i - Suc (length l)) :: (bool, 'e) result) =
      Ok (\<exists>k\<le>length ls. i - Suc (length l) = label_pos ls k)" if "Suc (length l) < i"
    using that Cons.prems by (intro Cons.IH) simp_all
  show ?case
    unfolding ex using Cons.prems zero rec
    by (subst relative_is_label_start_loop.simps)
      (auto simp: Let_def split: ordering.splits)
qed

lemma relative_is_label_start_wire:
  "rel_labels ls \<Longrightarrow> relative_is_label_start (wire ls) i = Ok (\<exists>k\<le>length ls. i = label_pos ls k)"
  by (cases "i = 0")
    (auto simp: relative_is_label_start_def relative_is_label_start_loop_wire intro: exI [of _ 0])

lemma name_check_index_wire:
  "abs_labels ls \<Longrightarrow> name_check_index (wire ls) i = (if \<exists>k<length ls. i = label_pos ls k then Ok () else Panic)"
  by (simp add: name_check_index_def name_is_label_start_wire)

lemma relative_check_index_wire:
  "rel_labels ls \<Longrightarrow>
     relative_check_index (wire ls) i = (if \<exists>k\<le>length ls. i = label_pos ls k then Ok () else Panic)"
  by (simp add: relative_check_index_def relative_is_label_start_wire)

text \<open>The two parts of a name at a label position are names.\<close>

lemma abs_labels_drop:
  assumes "abs_labels ls" "k < length ls"
  shows "abs_labels (drop k ls)" "rel_labels (take k ls)"
proof -
  from assms obtain ms where ls: "ls = ms @ [[]]" "rel_labels ms" by (auto simp: wire_append_root)
  with assms(2) have "k \<le> length ms" by simp
  then have eq: "take k ls = take k ms" "drop k ls = drop k ms @ [[]]" using ls by simp_all
  have "rel_labels (take k ms)" "rel_labels (drop k ms)"
    using ls(2) rel_labels_simps(3) [of "take k ms" "drop k ms"] by simp_all
  then show "abs_labels (drop k ls)" "rel_labels (take k ls)"
    unfolding eq wire_append_root by blast+
qed

lemma rel_labels_drop: "rel_labels ls \<Longrightarrow> rel_labels (drop k ls)" "rel_labels ls \<Longrightarrow> rel_labels (take k ls)"
  using rel_labels_simps(3) [of "take k ls" "drop k ls"] by simp_all

lemma name_split_wire:
  assumes "abs_labels ls" "k < length ls"
  shows "name_split (wire ls) (label_pos ls k) = (Ok (wire (take k ls), wire (drop k ls)) :: (octets \<times> octets, 'e) result)"
proof -
  have "name_check_index (wire ls) (label_pos ls k) = (Ok () :: (unit, 'e) result)"
    using assms by (auto simp: name_check_index_wire)
  then show ?thesis
    using label_pos_le [of k ls] by (simp add: name_split_def octets_range_def take_label_pos)
qed

lemma relative_split_wire:
  assumes "rel_labels ls" "k \<le> length ls"
  shows "relative_split (wire ls) (label_pos ls k) = (Ok (wire (take k ls), wire (drop k ls)) :: (octets \<times> octets, 'e) result)"
proof -
  have "relative_check_index (wire ls) (label_pos ls k) = (Ok () :: (unit, 'e) result)"
    using assms by (auto simp: relative_check_index_wire)
  then show ?thesis
    using label_pos_le [of k ls] by (simp add: relative_split_def octets_range_def take_label_pos)
qed

section \<open>Parsing\<close>

lemma parse_name_len_loop_Ok:
  "parse_name_len_loop octs = Ok t \<longleftrightarrow> (\<exists>ls. rel_labels ls \<and> octs = wire ls @ 0 # t)"
proof -
  have "parse_name_len_loop (wire ls @ 0 # t) = Ok t" if "rel_labels ls" for ls
    using that by (simp add: parse_name_len_loop_walk parse_name_len_loop_base)
  moreover have "\<exists>ls. rel_labels ls \<and> octs = wire ls @ 0 # t" if eq: "parse_name_len_loop octs = Ok t"
  proof -
    obtain ls rest where ls: "rel_labels ls" "octs = wire ls @ rest"
      and rest: "rest = [] \<or> (\<exists>t. split_from rest = Ok ([], t)) \<or> (rest \<noteq> [] \<and> (\<exists>e. split_from rest = Err e))"
      by (rule labels_cover)
    note eval = parse_name_len_loop_walk [OF ls(1), of rest, folded ls(2)]
    from rest consider "rest = []" | t where "rest = 0 # t" | e where "rest \<noteq> []" "split_from rest = Err e"
      by (auto simp: split_from_root_iff)
    then show ?thesis
      using ls eval eq by cases (auto simp: parse_name_len_loop_base)
  qed
  ultimately show ?thesis by blast
qed

lemma parse_name_len_loop_no_Panic: "parse_name_len_loop octs \<noteq> Panic"
  by (induction octs rule: parse_name_len_loop.induct)
    (subst parse_name_len_loop.simps, auto simp: split_from_def Let_def split: result.splits list.splits if_splits)

lemma length_wire_canonical [simp]: "length (wire (canonical_labels ls)) = length (wire ls)"
  by (induction ls) (simp_all add: label_make_canonical_def)

context octseq_parser
begin

lemma name_parse_iff:
  assumes "parser_wf p"
  shows "name_parse P p = Ok (n, p') \<longleftrightarrow>
    name_ok n \<and> take (length n) (p_rest p) = n \<and> p' = p_forward p (length n)"
proof -
  have "name_parse P p = Ok (n, p')"
    if n: "name_ok n" and rest: "take (length n) (p_rest p) = n" and p': "p' = p_forward p (length n)"
  proof -
    obtain t where t: "p_rest p = n @ t" using rest by (metis append_take_drop_id)
    from n obtain ls where ls: "rel_labels ls" "n = wire ls @ [0]" "length n \<le> NAME_MAX_LEN"
      by (auto simp: name_ok_iff)
    then have "parse_name_len_loop (p_rest p) = Ok t" using t by (auto simp: parse_name_len_loop_Ok)
    moreover have "p_remaining p = length n + length t"
      using length_p_rest [OF assms] t by simp
    ultimately show ?thesis
      using ls t p' by (simp add: name_parse_def parse_name_len_def ps_laws)
  qed
  moreover have "name_ok n \<and> take (length n) (p_rest p) = n \<and> p' = p_forward p (length n)"
    if "name_parse P p = Ok (n, p')"
  proof -
    from that obtain t len where t: "parse_name_len_loop (p_rest p) = Ok t"
      and len: "len = p_remaining p - length t" "len \<le> NAME_MAX_LEN"
      and n: "n = take len (p_rest p)" "p' = p_forward p len"
      by (auto simp: name_parse_def parse_name_len_def ps_laws rbind_Ok_iff Let_def split: if_splits)
    from t obtain ls where ls: "rel_labels ls" "p_rest p = (wire ls @ [0]) @ t"
      by (auto simp: parse_name_len_loop_Ok)
    then have "len = length (wire ls @ [0])"
      using length_p_rest [OF assms] len(1) by simp
    then have eq: "n = wire ls @ [0]" and len_n: "len = length n" using n ls(2) by simp_all
    have "name_ok n" unfolding name_ok_iff using ls(1) eq len(2) [unfolded len_n] by blast
    then show ?thesis using n(1) [unfolded len_n, symmetric] n(2) [unfolded len_n] by blast
  qed
  ultimately show ?thesis by blast
qed

lemma name_parse_no_Panic: "parser_wf p \<Longrightarrow> name_parse P p \<noteq> Panic"
proof
  assume p: "parser_wf p" and panic: "name_parse P p = Panic"
  have "p_remaining p < length t" if "parse_name_len_loop (p_rest p) = Ok t" for t
    using panic that
    by (auto simp: name_parse_def parse_name_len_def ps_laws rbind_Panic_iff parse_name_len_loop_no_Panic
        Let_def split: if_splits)
  then show False
    using length_p_rest [OF p] panic
    by (auto simp: name_parse_def parse_name_len_def ps_laws rbind_Panic_iff parse_name_len_loop_no_Panic
        parse_name_len_loop_Ok Let_def split: if_splits)
qed

end

section \<open>Equality\<close>

lemma name_hash_input_wire:
  "list_all valid_label ls \<Longrightarrow> name_hash_input (wire ls) = wire (canonical_labels ls)"
  by (simp add: name_hash_input_def wire_def [of "canonical_labels ls"] label_hash_input_def [abs_def]
      wire_label_def [abs_def] label_make_canonical_def comp_def)

section \<open>Properties\<close>

text \<open>
  C23.  Equality of absolute names stored in slices is decided on the whole slices, and that is right:
  it holds exactly when the labels are the same up to letter case, which is when the names compare as
  equal in the canonical order and when they are hashed alike.
\<close>

theorem name_equality:
  assumes "name_ok a" "name_ok b"
  shows "(name_eq (name_view a) (name_view b) \<longleftrightarrow> labels_eq (name_labels a) (name_labels b)) \<and>
    (name_eq (name_view a) (name_view b) \<longleftrightarrow> name_cmp (name_view a) (name_view b) = Equal) \<and>
    (name_eq (name_view a) (name_view b) \<longleftrightarrow> name_hash_input a = name_hash_input b)"
proof -
  obtain ls where ls: "a = wire ls" "list_all valid_label ls" "view_ok (name_view a)"
    using assms(1) by (auto elim!: name_okE)
  obtain ms where ms: "b = wire ms" "list_all valid_label ms" "view_ok (name_view b)"
    using assms(2) by (auto elim!: name_okE)
  have eq: "name_eq (name_view a) (name_view b) \<longleftrightarrow> canonical_labels ls = canonical_labels ms"
    using ls ms by (simp add: name_eq_canonical) (simp add: name_view_def)
  have cmp: "name_cmp (name_view a) (name_view b) = Equal \<longleftrightarrow> canonical_labels ls = canonical_labels ms"
    using ls(1,2) ms(1,2) by (simp add: name_cmp.cmp_Equal) (simp add: name_view_def rev_map [symmetric])
  have "name_hash_input a = name_hash_input b \<longleftrightarrow> canonical_labels ls = canonical_labels ms"
    using ls(1,2) ms(1,2) wire_inj [of "canonical_labels ls" "canonical_labels ms"]
    by (auto simp: name_hash_input_wire)
  with eq cmp show ?thesis using ls ms by (simp add: labels_eq_canonical)
qed

theorem name_equality_witness:
  "(name_eq (name_view [1, 97, 0]) (name_view [1, 65, 0]) \<longleftrightarrow> labels_eq (name_labels [1, 97, 0]) (name_labels [1, 65, 0])) \<and>
   (name_eq (name_view [1, 97, 0]) (name_view [1, 65, 0]) \<longleftrightarrow> name_cmp (name_view [1, 97, 0]) (name_view [1, 65, 0]) = Equal) \<and>
   (name_eq (name_view [1, 97, 0]) (name_view [1, 65, 0]) \<longleftrightarrow> name_hash_input [1, 97, 0] = name_hash_input [1, 65, 0])"
proof (rule name_equality)
  have "name_check_slice [1, 97, 0] = Ok ()" "name_check_slice [1, 65, 0] = Ok ()" by code_simp+
  then show "name_ok [1, 97, 0]" "name_ok [1, 65, 0]" by (simp_all add: name_check_slice_Ok)
qed

text \<open>
  C18.  \<open>Name::check_slice\<close> is a decision procedure for absolute names.  It succeeds exactly on the
  wire format of non-root labels followed by the root label, in at most 255 octets.  Anything longer
  is a long name; otherwise octets after the root label, a missing root label, and anything that is
  not a label are reported as such, and the check never panics.
\<close>

theorem name_check_slice_correct:
  "(name_check_slice octs = Ok () \<longleftrightarrow> name_ok octs) \<and>
   name_check_slice octs \<noteq> Panic \<and>
   (name_check_slice octs = Err NameLong \<longleftrightarrow> NAME_MAX_LEN < length octs) \<and>
   (name_check_slice octs = Err NameTrailingData \<longleftrightarrow>
      length octs \<le> NAME_MAX_LEN \<and> (\<exists>ls t. rel_labels ls \<and> t \<noteq> [] \<and> octs = wire ls @ 0 # t)) \<and>
   (name_check_slice octs = Err NameRelative \<longleftrightarrow>
      length octs \<le> NAME_MAX_LEN \<and> (\<exists>ls. rel_labels ls \<and> ls \<noteq> [] \<and> octs = wire ls))"
proof (cases "NAME_MAX_LEN < length octs")
  case True
  then show ?thesis by (auto simp: name_check_slice_def name_ok_iff)
next
  case False
  have tr: "name_check_loop (wire ls @ 0 # t) = Err NameTrailingData" if "rel_labels ls" "t \<noteq> []" for ls t
    using that by (simp add: name_check_loop_walk name_check_loop_base)
  have "name_check_slice octs = name_check_loop octs" using False by (simp add: name_check_slice_def)
  moreover have "name_check_loop octs = Ok () \<longleftrightarrow> name_ok octs"
    using False by (auto simp: name_ok_iff name_check_loop_Ok)
  moreover have "name_check_loop octs = Err NameTrailingData \<longleftrightarrow>
      (\<exists>ls t. rel_labels ls \<and> t \<noteq> [] \<and> octs = wire ls @ 0 # t)"
    by (rule name_check_loop_cases [of octs]) (use tr in auto)
  ultimately show ?thesis using False name_check_loop_no_Panic name_check_loop_Relative by simp
qed

text \<open>
  C19.  \<open>RelativeName::check_slice\<close> succeeds exactly on the wire format of non-root labels in at most
  254 octets, reports a root label in front of which there are only labels, and never panics.
\<close>

theorem relative_check_slice_correct:
  "(relative_check_slice octs = Ok () \<longleftrightarrow> relative_name_ok octs) \<and>
   relative_check_slice octs \<noteq> Panic \<and>
   (relative_check_slice octs = Err RelLong \<longleftrightarrow> 254 < length octs) \<and>
   (relative_check_slice octs = Err RelAbsolute \<longleftrightarrow>
      length octs \<le> 254 \<and> (\<exists>ls t. rel_labels ls \<and> octs = wire ls @ 0 # t))"
proof -
  have "relative_check_loop (wire ls @ 0 # t) = Err RelAbsolute" if "rel_labels ls" for ls t
    using that by (simp add: relative_check_loop_walk relative_check_loop_base)
  then have "relative_check_loop octs = Err RelAbsolute \<longleftrightarrow> (\<exists>ls t. rel_labels ls \<and> octs = wire ls @ 0 # t)"
    by - (rule relative_check_loop_cases [of octs], auto)
  moreover have "relative_check_loop octs \<noteq> Panic \<and> relative_check_loop octs \<noteq> Err RelLong"
    by (rule relative_check_loop_cases [of octs]) auto
  ultimately show ?thesis
    by (auto simp: relative_check_slice_Ok) (auto simp: relative_check_slice_def split: if_splits)
qed

text \<open>
  The double-ended iterator over the labels of an absolute or relative name: run forwards it
  gives labels whose wire format is the name, run backwards it gives the same labels in reverse and
  does not panic.
\<close>

theorem name_iter_double_ended:
  assumes "name_ok octs \<or> relative_name_ok octs"
  shows "wire (name_labels octs) = octs \<and> name_labels_back octs = (Ok (rev (name_labels octs)) :: (label list, unit) result)"
  using assms by (auto elim!: name_okE relative_name_okE)

theorem name_iter_double_ended_witness:
  "wire (name_labels [1, 97, 2, 98, 99, 0]) = [1, 97, 2, 98, 99, 0] \<and>
   name_labels_back [1, 97, 2, 98, 99, 0] =
     (Ok (rev (name_labels [1, 97, 2, 98, 99, 0])) :: (label list, unit) result)"
proof (rule name_iter_double_ended, rule disjI1)
  have "name_check_slice [1, 97, 2, 98, 99, 0] = Ok ()" by code_simp
  then show "name_ok [1, 97, 2, 98, 99, 0]" by (simp add: name_check_slice_Ok)
qed

text \<open>
  C24.  Splitting an absolute name: \<open>is_label_start\<close> answers for every index without a panic, and
  says yes exactly at the positions of the labels, the root label included.  \<open>split\<close> panics at every
  other index, and at such a position gives a relative and an absolute name that together have the
  labels of the original.
\<close>

theorem name_split_correct:
  assumes "name_ok n"
  shows "name_is_label_start n i = (Ok (\<exists>k<name_label_count n. i = label_pos (name_labels n) k) :: (bool, 'e) result) \<and>
    (case name_split n i :: (octets \<times> octets, 'e) result of
       Ok (left, right) \<Rightarrow> relative_name_ok left \<and> name_ok right \<and> length left = i \<and> left @ right = n \<and>
         name_labels left @ name_labels right = name_labels n
     | Err _ \<Rightarrow> False
     | Panic \<Rightarrow> \<not> (\<exists>k<name_label_count n. i = label_pos (name_labels n) k))"
proof -
  obtain ls where ls: "abs_labels ls" "n = wire ls" "length (wire ls) \<le> NAME_MAX_LEN" "list_all valid_label ls"
    using assms by (auto elim!: name_okE)
  then have labels: "name_labels n = ls" by simp
  show ?thesis
  proof (cases "\<exists>k<length ls. i = label_pos ls k")
    case True
    then obtain k where k: "k < length ls" "i = label_pos ls k" by blast
    note parts = abs_labels_drop [OF ls(1) k(1)]
    have valid: "list_all valid_label (take k ls)" "list_all valid_label (drop k ls)"
      using parts rel_labels_valid abs_labels_valid by blast+
    have len: "length (wire (take k ls)) + length (wire (drop k ls)) = length (wire ls)"
      using wire_simps(3) [of "take k ls" "drop k ls"] by simp
    have "drop k ls \<noteq> []" using k by simp
    then have "0 < length (wire (drop k ls))" by simp
    then have "length (wire (take k ls)) \<le> 254" "length (wire (drop k ls)) \<le> NAME_MAX_LEN"
      using len ls(3) unfolding NAME_MAX_LEN_def by linarith+
    then have "relative_name_ok (wire (take k ls))" "name_ok (wire (drop k ls))"
      using parts by (auto simp: relative_name_ok_def name_ok_def intro!: exI)
    moreover have "wire (take k ls) @ wire (drop k ls) = wire ls"
      using wire_simps(3) [of "take k ls" "drop k ls"] by simp
    ultimately show ?thesis
      using ls k valid labels by (simp add: name_label_count_def name_is_label_start_wire name_split_wire)
  next
    case False
    then show ?thesis
      using ls labels by (auto simp: name_label_count_def name_is_label_start_wire name_split_def name_check_index_wire)
  qed
qed

theorem name_split_correct_witness:
  "(case name_split [1, 97, 2, 98, 99, 0] 2 :: (octets \<times> octets, unit) result of
       Ok (left, right) \<Rightarrow> relative_name_ok left \<and> name_ok right \<and> length left = 2 \<and> left @ right = [1, 97, 2, 98, 99, 0] \<and>
         name_labels left @ name_labels right = name_labels [1, 97, 2, 98, 99, 0]
     | Err _ \<Rightarrow> False
     | Panic \<Rightarrow> \<not> (\<exists>k<name_label_count [1, 97, 2, 98, 99, 0]. 2 = label_pos (name_labels [1, 97, 2, 98, 99, 0]) k))"
proof -
  have "name_check_slice [1, 97, 2, 98, 99, 0] = Ok ()" by code_simp
  then have "name_ok [1, 97, 2, 98, 99, 0]" by (simp add: name_check_slice_Ok)
  from name_split_correct [OF this, of 2] show ?thesis by blast
qed

text \<open>
  Stripping a suffix never panics.  It succeeds exactly when the labels of the base are, up to
  letter case, the last labels of the name, and then gives the relative name of the labels before
  them; otherwise the name is handed back unchanged.
\<close>

theorem name_strip_suffix_correct:
  assumes "name_ok n" "view_ok b" "abs_labels (lv_labels b)"
  shows "case name_strip_suffix n b of
      Ok r \<Rightarrow> relative_name_ok r \<and>
        (\<exists>suf. name_labels n = name_labels r @ suf \<and> canonical_labels suf = canonical_labels (lv_labels b))
    | Err n' \<Rightarrow> n' = n \<and> \<not> suffix (canonical_labels (lv_labels b)) (canonical_labels (name_labels n))
    | Panic \<Rightarrow> False"
proof -
  obtain ls where ls: "abs_labels ls" "n = wire ls" "length (wire ls) \<le> NAME_MAX_LEN" "list_all valid_label ls"
    and view: "view_ok (name_view n)"
    using assms(1) by (auto elim!: name_okE)
  then have labels: "name_labels n = ls" "lv_labels (name_view n) = ls" by (simp_all add: name_view_def)
  let ?bs = "lv_labels b"
  show ?thesis
  proof (cases "suffix (canonical_labels ?bs) (canonical_labels ls)")
    case True
    define k where "k = length ls - length ?bs"
    from True have le: "length ?bs \<le> length ls" by (auto dest: suffix_length_le)
    from True obtain zs where zs: "canonical_labels ls = zs @ canonical_labels ?bs" by (auto simp: suffix_def)
    have "length ls = length zs + length ?bs"
      using arg_cong [OF zs, of length] by (simp only: length_map length_append)
    then have "length zs = k" by (simp add: k_def)
    with zs have canon: "canonical_labels (drop k ls) = canonical_labels ?bs" by (simp add: drop_map [symmetric])
    have "?bs \<noteq> []" using assms(3) by auto
    with le have k: "k < length ls" by (cases ?bs) (simp_all add: k_def)
    have "length (wire ?bs) = length (wire (drop k ls))"
      using arg_cong [OF canon, of "\<lambda>ls. length (wire ls)"] by simp
    then have pos: "length (wire ls) - length (wire ?bs) = label_pos ls k" "length (wire ?bs) \<le> length (wire ls)"
      using wire_simps(3) [of "take k ls" "drop k ls"] by simp_all
    have "name_check_index (wire ls) (label_pos ls k) = (Ok () :: (unit, octets) result)"
      using ls(1) k by (auto simp: name_check_index_wire)
    moreover have "unat (of_nat (length (wire ?bs)) :: u16) = length (wire ?bs)"
      using view_okD(4) [OF assms(2)] by (simp add: NAME_MAX_LEN_def unat_of_nat)
    ultimately have "name_strip_suffix n b = Ok (wire (take k ls))"
      using True ls labels view pos view_okD(3) [OF assms(2)] assms(2)
      by (simp add: name_strip_suffix_def ends_with_suffix name_truncate_def take_label_pos)
    moreover have "relative_name_ok (wire (take k ls))" "name_labels (wire (take k ls)) = take k ls"
    proof -
      have rel: "rel_labels (take k ls)" using abs_labels_drop [OF ls(1) k] by simp
      have "0 < length (wire ?bs)" using \<open>?bs \<noteq> []\<close> by simp
      then have "length (wire (take k ls)) \<le> 254"
        using pos ls(3) unfolding NAME_MAX_LEN_def by linarith
      then show "relative_name_ok (wire (take k ls))" using rel by (auto simp: relative_name_ok_def)
      show "name_labels (wire (take k ls)) = take k ls" using rel_labels_valid [OF rel] by simp
    qed
    ultimately show ?thesis using canon labels by (auto intro: exI [of _ "drop k ls"])
  next
    case False
    then show ?thesis using labels view assms(2) by (simp add: name_strip_suffix_def ends_with_suffix)
  qed
qed

theorem name_strip_suffix_correct_witness:
  "case name_strip_suffix [1, 97, 2, 98, 99, 0] (name_view [2, 66, 67, 0]) of
      Ok r \<Rightarrow> relative_name_ok r \<and> (\<exists>suf. name_labels [1, 97, 2, 98, 99, 0] = name_labels r @ suf \<and>
        canonical_labels suf = canonical_labels (lv_labels (name_view [2, 66, 67, 0])))
    | Err n' \<Rightarrow> n' = [1, 97, 2, 98, 99, 0] \<and>
        \<not> suffix (canonical_labels (lv_labels (name_view [2, 66, 67, 0])))
          (canonical_labels (name_labels [1, 97, 2, 98, 99, 0]))
    | Panic \<Rightarrow> False"
proof (rule name_strip_suffix_correct)
  have "name_check_slice [1, 97, 2, 98, 99, 0] = Ok ()" "name_check_slice [2, 66, 67, 0] = Ok ()" by code_simp+
  then have ok: "name_ok [1, 97, 2, 98, 99, 0]" "name_ok [2, 66, 67, 0]" by (simp_all add: name_check_slice_Ok)
  then show "name_ok [1, 97, 2, 98, 99, 0]" by blast
  from ok(2) show "view_ok (name_view [2, 66, 67, 0])" "abs_labels (lv_labels (name_view [2, 66, 67, 0]))"
    by (auto elim!: name_okE simp: name_view_def)
qed

text \<open>
  C17.  \<open>Name::parse\<close>, for every parser that satisfies the \<open>octseq\<close> contract: it never panics, and it
  succeeds exactly when the remaining input starts with a well-formed name, which it returns and
  moves over.
\<close>

theorem name_parse_correct:
  assumes "octseq_parser P" "parser_wf p"
  shows "name_parse P p \<noteq> Panic \<and>
    (name_parse P p = Ok (n, p') \<longleftrightarrow>
       name_ok n \<and> take (length n) (p_rest p) = n \<and> p' = p_forward p (length n))"
  using octseq_parser.name_parse_no_Panic [OF assms] octseq_parser.name_parse_iff [OF assms] by blast

theorem name_parse_correct_witness:
  "name_parse slice_parser \<lparr>p_octets = [9, 1, 97, 0, 7], p_pos = 1, p_len = 5\<rparr> \<noteq> Panic \<and>
   (name_parse slice_parser \<lparr>p_octets = [9, 1, 97, 0, 7], p_pos = 1, p_len = 5\<rparr> =
       Ok ([1, 97, 0], p_forward \<lparr>p_octets = [9, 1, 97, 0, 7], p_pos = 1, p_len = 5\<rparr> 3) \<longleftrightarrow>
      name_ok [1, 97, 0] \<and> take 3 [1, 97, 0, 7] = [1, 97, 0 :: octet])"
  using name_parse_correct [OF slice_parser.octseq_parser_axioms,
      of "\<lparr>p_octets = [9, 1, 97, 0, 7], p_pos = 1, p_len = 5\<rparr>" "[1, 97, 0]"
        "p_forward \<lparr>p_octets = [9, 1, 97, 0, 7], p_pos = 1, p_len = 5\<rparr> 3"]
  by (simp add: parser_wf_def p_rest_def)

text \<open>
  The iterator over the suffixes of an absolute name, at the position of a label: it returns
  the name that starts there, without a panic, and moves on to the next label; after the root label it
  is at its end.
\<close>

theorem suffix_iter_next_correct:
  assumes "name_ok n" "k < name_label_count n"
  shows "suffix_iter_next n (Some (label_pos (name_labels n) k)) =
    (Ok (Some (wire (drop k (name_labels n))),
      if Suc k < name_label_count n then Some (label_pos (name_labels n) (Suc k)) else None)
      :: (octets option \<times> nat option, 'e) result)"
proof -
  obtain ls where ls: "abs_labels ls" "n = wire ls" "length (wire ls) \<le> NAME_MAX_LEN" "list_all valid_label ls"
    using assms by (auto elim!: name_okE)
  then have labels: "name_labels n = ls" "k < length ls" using assms(2) by (simp_all add: name_label_count_def)
  then have dr: "drop k ls = ls ! k # drop (Suc k) ls" by (simp add: Cons_nth_drop_Suc)
  have "abs_labels (ls ! k # drop (Suc k) ls)"
    using abs_labels_drop(1) [OF ls(1) labels(2)] dr by simp
  then have root: "ls ! k = [] \<longleftrightarrow> \<not> Suc k < length ls" and v: "valid_label (ls ! k)"
    using abs_labels_valid by (fastforce simp: abs_labels_Cons)+
  have first: "name_first (wire (drop k ls)) = (Ok (ls ! k) :: (label, 'e) result)"
    using v unfolding dr by (simp add: name_first_def name_iter_next_def)
  have clen: "label_compose_len (ls ! k) = (Ok (of_nat (Suc (length (ls ! k)))) :: (u16, 'e) result)"
    "unat (of_nat (Suc (length (ls ! k))) :: u16) = Suc (length (ls ! k))"
    using v by (simp_all add: label_compose_len_def valid_label_def LABEL_MAX_LEN_def unat_of_nat del: of_nat_Suc)
      simp
  have pos: "label_pos ls (Suc k) = label_pos ls k + Suc (length (ls ! k))"
    using labels(2) by (simp add: take_Suc_conv_app_nth)
  show ?thesis
    using label_pos_le [of k ls] first root clen pos labels ls(2)
    by (simp add: suffix_iter_next_def octets_range_def take_label_pos label_is_root_def name_label_count_def
        del: of_nat_Suc)
qed

theorem suffix_iter_next_correct_witness:
  "suffix_iter_next [1, 97, 2, 98, 99, 0] (Some (label_pos (name_labels [1, 97, 2, 98, 99, 0]) 1)) =
    (Ok (Some (wire (drop 1 (name_labels [1, 97, 2, 98, 99, 0]))),
      if Suc 1 < name_label_count [1, 97, 2, 98, 99, 0]
      then Some (label_pos (name_labels [1, 97, 2, 98, 99, 0]) (Suc 1)) else None)
      :: (octets option \<times> nat option, unit) result)"
proof (rule suffix_iter_next_correct)
  have "name_check_slice [1, 97, 2, 98, 99, 0] = Ok ()" by code_simp
  then show "name_ok [1, 97, 2, 98, 99, 0]" by (simp add: name_check_slice_Ok)
  show "1 < name_label_count [1, 97, 2, 98, 99, 0]" by code_simp
qed

end
