(* ===== verification/NameBuilder.thy ===== *)
theory NameBuilder
  imports Name
begin

text \<open>
  \<^verbatim>\<open>src/base/name/builder.rs\<close>: building names step by step, with the conversions from the
  presentation format of \<^verbatim>\<open>absolute.rs\<close>, \<^verbatim>\<open>relative.rs\<close> and \<^verbatim>\<open>label.rs\<close> that use it.  A method is a
  \<open>step\<close> on the builder.  Subtraction below zero and access out of bounds are panics.
\<close>

section \<open>Errors\<close>

datatype push_error = PushLongLabel | PushLongName | PushShortBuf

datatype push_name_error = PushNameLongName | PushNameShortBuf

datatype label_from_str_error =
  LabelSymbolChars symbol_chars_error | LabelBadSymbol bad_symbol | LabelBinary | LabelLong

datatype presentation_error = PresBadLabel label_from_str_error | PresEmptyLabel | PresLongName

datatype from_str_error = Presentation presentation_error | FromStrShortBuf

datatype relative_from_str_error = RelFromStr from_str_error | RelFromStrAbsolute

fun from_str_of_push :: "push_error \<Rightarrow> from_str_error" where
  "from_str_of_push PushLongLabel = Presentation (PresBadLabel LabelLong)"
| "from_str_of_push PushLongName = Presentation PresLongName"
| "from_str_of_push PushShortBuf = FromStrShortBuf"

definition from_str_of_chars :: "symbol_chars_error \<Rightarrow> from_str_error" where
  "from_str_of_chars e = Presentation (PresBadLabel (LabelSymbolChars e))"

definition from_str_of_bad_symbol :: "bad_symbol \<Rightarrow> from_str_error" where
  "from_str_of_bad_symbol e = Presentation (PresBadLabel (LabelBadSymbol e))"

section \<open>The builder\<close>

record 'b name_builder =
  nb_builder :: 'b
  nb_head :: "nat option"

type_synonym ('b, 'a, 'e) nb_step = "('b name_builder, 'a, 'e) step"

definition nb_from_builder_unchecked :: "'b \<Rightarrow> 'b name_builder" where
  "nb_from_builder_unchecked b = \<lparr>nb_builder = b, nb_head = None\<rparr>"

definition nb_new :: "'b builder_ops \<Rightarrow> 'b name_builder" where
  "nb_new B = nb_from_builder_unchecked (bo_empty B)"

definition nb_from_builder :: "'b builder_ops \<Rightarrow> 'b \<Rightarrow> ('b name_builder, relative_name_error) result" where
  "nb_from_builder B b =
     rbind (relative_check_slice (bo_as_ref B b)) (\<lambda>_. Ok (nb_from_builder_unchecked b))"

definition nb_slice :: "'b builder_ops \<Rightarrow> 'b name_builder \<Rightarrow> octets" where
  "nb_slice B nb = bo_as_ref B (nb_builder nb)"

definition nb_len :: "'b builder_ops \<Rightarrow> 'b name_builder \<Rightarrow> nat" where
  "nb_len B nb = length (nb_slice B nb)"

definition nb_in_label :: "'b name_builder \<Rightarrow> bool" where
  "nb_in_label nb \<longleftrightarrow> nb_head nb \<noteq> None"

definition nb_append_octets :: "'b builder_ops \<Rightarrow> octets \<Rightarrow> ('b, unit, push_error) nb_step" where
  "nb_append_octets B octs nb =
     (case bo_append B (nb_builder nb) octs of
        (r, b) \<Rightarrow> (rmap_err (\<lambda>_. PushShortBuf) r, nb\<lparr>nb_builder := b\<rparr>))"

definition nb_push :: "'b builder_ops \<Rightarrow> octet \<Rightarrow> ('b, unit, push_error) nb_step" where
  "nb_push B ch nb =
     (let len = nb_len B nb in
      if len \<ge> 254 then (Err PushLongName, nb)
      else (case nb_head nb of
              Some head \<Rightarrow>
                if len < head then (Panic, nb)
                else if len - head > LABEL_MAX_LEN then (Err PushLongLabel, nb)
                else nb_append_octets B [ch] nb
            | None \<Rightarrow> nb_append_octets B [0, ch] (nb\<lparr>nb_head := Some len\<rparr>)))"

definition nb_end_label :: "'b builder_ops \<Rightarrow> ('b, unit, 'e) nb_step" where
  "nb_end_label B nb =
     (case nb_head nb of
        Some head \<Rightarrow>
          if nb_len B nb < head + 1 then (Panic, nb)
          else (let len = nb_len B nb - head - 1 in
                (Ok (), nb\<lparr>nb_builder := bo_as_mut B (nb_builder nb) ((nb_slice B nb)[head := of_nat len]),
                           nb_head := None\<rparr>))
      | None \<Rightarrow> (Ok (), nb))"

definition nb_push_symbol :: "'b builder_ops \<Rightarrow> symbol \<Rightarrow> ('b, unit, from_str_error) nb_step" where
  "nb_push_symbol B s nb =
     (if s = Char 46 then
        (if \<not> nb_in_label nb then (Err (Presentation PresEmptyLabel), nb) else nb_end_label B nb)
      else if s = SimpleEscape 91 \<and> \<not> nb_in_label nb then (Err (Presentation (PresBadLabel LabelBinary)), nb)
      else (case into_octet s of
              Ok ch \<Rightarrow> smap_err from_str_of_push (nb_push B ch) nb
            | Err e \<Rightarrow> (Err (from_str_of_bad_symbol e), nb)
            | Panic \<Rightarrow> (Panic, nb)))"

definition nb_append_slice :: "'b builder_ops \<Rightarrow> octets \<Rightarrow> ('b, unit, push_error) nb_step" where
  "nb_append_slice B octs nb =
     (if octs = [] then (Ok (), nb)
      else (case nb_head nb of
              Some head \<Rightarrow>
                if nb_len B nb < head \<or> LABEL_MAX_LEN < nb_len B nb - head then (Panic, nb)
                else if length octs > LABEL_MAX_LEN - (nb_len B nb - head) then (Err PushLongLabel, nb)
                else nb_append_octets B octs nb
            | None \<Rightarrow>
                if length octs > LABEL_MAX_LEN then (Err PushLongLabel, nb)
                else if nb_len B nb + length octs > 254 then (Err PushLongName, nb)
                else sbind (nb_append_octets B [0]) (\<lambda>_. nb_append_octets B octs)
                       (nb\<lparr>nb_head := Some (nb_len B nb)\<rparr>)))"

definition nb_append_label :: "'b builder_ops \<Rightarrow> octets \<Rightarrow> ('b, unit, push_error) nb_step" where
  "nb_append_label B label nb =
     (let head = nb_head nb in
      sbind (nb_end_label B) (\<lambda>_ nb.
        case nb_append_slice B label nb of
          (Err err, nb) \<Rightarrow> (Err err, nb\<lparr>nb_head := head\<rparr>)
        | (Ok _, nb) \<Rightarrow> nb_end_label B nb
        | (Panic, nb) \<Rightarrow> (Panic, nb)) nb)"

definition nb_append_dec_u8_label :: "'b builder_ops \<Rightarrow> octet \<Rightarrow> ('b, unit, push_error) nb_step" where
  "nb_append_dec_u8_label B value =
     sbind (nb_end_label B) (\<lambda>_.
       let hecto = value div 100; deka = (value div 10) mod 10 in
       sbind (if hecto > 0 then nb_push B (hecto + 48) else sreturn ()) (\<lambda>_.
       sbind (if hecto > 0 \<or> deka > 0 then nb_push B (deka + 48) else sreturn ()) (\<lambda>_.
       sbind (nb_push B (value mod 10 + 48)) (\<lambda>_.
       nb_end_label B))))"

definition hex_digit :: "octet \<Rightarrow> octet" where
  "hex_digit nibble =
     [48, 49, 50, 51, 52, 53, 54, 55, 56, 57, 65, 66, 67, 68, 69, 70] ! unat (nibble AND 0x0F)"

definition nb_append_hex_digit_label :: "'b builder_ops \<Rightarrow> octet \<Rightarrow> ('b, unit, push_error) nb_step" where
  "nb_append_hex_digit_label B nibble =
     sbind (nb_end_label B) (\<lambda>_.
     sbind (nb_push B (hex_digit nibble)) (\<lambda>_.
     nb_end_label B))"

text \<open>The labels of a name composed into the underlying builder.\<close>

definition nb_compose_labels :: "'b builder_ops \<Rightarrow> label list \<Rightarrow> ('b, unit, push_name_error) nb_step" where
  "nb_compose_labels B ls nb =
     (case compose_all (label_compose B) ls (nb_builder nb) of
        (r, b) \<Rightarrow> (rmap_err (\<lambda>_. PushNameShortBuf) r, nb\<lparr>nb_builder := b\<rparr>))"

definition nb_append_name :: "'b builder_ops \<Rightarrow> label_view \<Rightarrow> ('b, unit, push_name_error) nb_step" where
  "nb_append_name B name nb =
     (let head = nb_head nb; nb = nb\<lparr>nb_head := None\<rparr> in
      sbind (nb_end_label B) (\<lambda>_ nb.
        case lv_compose_len name of
          Ok clen \<Rightarrow>
            if nb_len B nb + unat clen > 254 then (Err PushNameLongName, nb\<lparr>nb_head := head\<rparr>)
            else nb_compose_labels B (lv_labels name) nb
        | _ \<Rightarrow> (Panic, nb)) nb)"

definition nb_append_symbols :: "'b builder_ops \<Rightarrow> symbol list \<Rightarrow> ('b, unit, from_str_error) nb_step" where
  "nb_append_symbols B syms = sfor (nb_push_symbol B) syms"

definition nb_append_chars :: "'b builder_ops \<Rightarrow> uchar list \<Rightarrow> ('b, unit, from_str_error) nb_step" where
  "nb_append_chars B chars nb =
     (let (syms, err) = symbols chars in
      sbind (nb_append_symbols B syms) (\<lambda>_ nb.
        case err of None \<Rightarrow> (Ok (), nb) | Some e \<Rightarrow> (Err (from_str_of_chars e), nb)) nb)"

definition nb_finish :: "'b builder_ops \<Rightarrow> 'b name_builder \<Rightarrow> (octets, 'e) result" where
  "nb_finish B nb = (case nb_end_label B nb of (r, nb) \<Rightarrow> rmap (\<lambda>_. nb_slice B nb) r)"

definition nb_into_name :: "'b builder_ops \<Rightarrow> 'b name_builder \<Rightarrow> (octets, push_error) result" where
  "nb_into_name B nb =
     (case sbind (nb_end_label B) (\<lambda>_. nb_append_octets B [0]) nb of (r, nb) \<Rightarrow> rmap (\<lambda>_. nb_slice B nb) r)"

definition nb_append_origin :: "'b builder_ops \<Rightarrow> label_view \<Rightarrow> 'b name_builder \<Rightarrow> (octets, push_name_error) result" where
  "nb_append_origin B origin nb =
     (case sbind (nb_end_label B) (\<lambda>_ nb.
        case lv_compose_len origin of
          Ok clen \<Rightarrow>
            if nb_len B nb + unat clen > NAME_MAX_LEN then (Err PushNameLongName, nb)
            else nb_compose_labels B (lv_labels origin) nb
        | _ \<Rightarrow> (Panic, nb)) nb of (r, nb) \<Rightarrow> rmap (\<lambda>_. nb_slice B nb) r)"

section \<open>Names from the presentation format\<close>

definition name_from_symbols :: "'b builder_ops \<Rightarrow> symbol list \<Rightarrow> (octets, from_str_error) result" where
  "name_from_symbols B syms =
     (case syms of
        [] \<Rightarrow> Err (from_str_of_chars SymShortInput)
      | first # syms \<Rightarrow>
          if first = Char 46 then
            (if syms \<noteq> [] then Err (Presentation PresEmptyLabel)
             else (case bo_append B (bo_empty B) [0] of
                     (r, b) \<Rightarrow> rmap (\<lambda>_. bo_as_ref B b) (rmap_err (\<lambda>_. FromStrShortBuf) r)))
          else (case sbind (nb_push_symbol B first) (\<lambda>_. nb_append_symbols B syms) (nb_new B) of
                  (r, nb) \<Rightarrow> rbind r (\<lambda>_. rmap_err from_str_of_push (nb_into_name B nb))))"

definition name_from_chars :: "'b builder_ops \<Rightarrow> uchar list \<Rightarrow> (octets, from_str_error) result" where
  "name_from_chars B chars = symbols_with from_str_of_chars chars (name_from_symbols B)"

definition relative_from_chars :: "'b builder_ops \<Rightarrow> uchar list \<Rightarrow> (octets, relative_from_str_error) result" where
  "relative_from_chars B chars =
     (case nb_append_chars B chars (nb_new B) of
        (r, nb) \<Rightarrow> rbind (rmap_err RelFromStr r) (\<lambda>_.
          if nb_in_label nb \<or> nb_slice B nb = [] then nb_finish B nb else Err RelFromStrAbsolute))"

definition relative_into_absolute :: "'b builder_ops \<Rightarrow> 'b \<Rightarrow> (octets, push_error) result" where
  "relative_into_absolute B b = nb_into_name B (nb_from_builder_unchecked b)"

section \<open>Reverse lookup names\<close>

datatype ip_addr = V4 ipv4_addr | V6 octets

definition in_addr_label :: octets where
  "in_addr_label = [105, 110, 45, 97, 100, 100, 114]"

definition arpa_label :: octets where
  "arpa_label = [97, 114, 112, 97]"

definition ip6_label :: octets where
  "ip6_label = [105, 112, 54]"

definition reverse_from_addr_steps :: "'b builder_ops \<Rightarrow> ip_addr \<Rightarrow> ('b, unit, push_error) nb_step" where
  "reverse_from_addr_steps B addr =
     (case addr of
        V4 (Ipv4Addr a b c d) \<Rightarrow>
          sbind (nb_append_dec_u8_label B d) (\<lambda>_.
          sbind (nb_append_dec_u8_label B c) (\<lambda>_.
          sbind (nb_append_dec_u8_label B b) (\<lambda>_.
          sbind (nb_append_dec_u8_label B a) (\<lambda>_.
          sbind (nb_append_label B in_addr_label) (\<lambda>_.
          nb_append_label B arpa_label)))))
      | V6 octs \<Rightarrow>
          sbind (sfor (\<lambda>item. sbind (nb_append_hex_digit_label B item) (\<lambda>_.
                   nb_append_hex_digit_label B (drop_bit 4 item))) (rev octs)) (\<lambda>_.
          sbind (nb_append_label B ip6_label) (\<lambda>_.
          nb_append_label B arpa_label)))"

definition reverse_from_addr :: "'b builder_ops \<Rightarrow> ip_addr \<Rightarrow> (octets, push_error) result" where
  "reverse_from_addr B addr =
     (case reverse_from_addr_steps B addr (nb_new B) of (r, nb) \<Rightarrow> rbind r (\<lambda>_. nb_into_name B nb))"

section \<open>Owned labels\<close>

text \<open>The array of 64 octets: the length octet, the content and zeros.\<close>

definition parse_escape :: "uchar list \<Rightarrow> bool \<Rightarrow> (octet \<times> uchar list, label_from_str_error) result" where
  "parse_escape chars in_label =
     (case chars of
        [] \<Rightarrow> Err (LabelSymbolChars SymShortInput)
      | ch # chars \<Rightarrow>
          if is_ascii_digit ch then
            (case chars of
               [] \<Rightarrow> Err (LabelSymbolChars SymShortInput)
             | c2 # chars \<Rightarrow>
                 (case to_digit 10 c2 of
                    None \<Rightarrow> Err (LabelSymbolChars SymBadEscape)
                  | Some d2 \<Rightarrow>
                      (case chars of
                         [] \<Rightarrow> Err (LabelSymbolChars SymShortInput)
                       | c3 # chars \<Rightarrow>
                           (case to_digit 10 c3 of
                              None \<Rightarrow> Err (LabelSymbolChars SymBadEscape)
                            | Some d3 \<Rightarrow>
                                (let v = (ch - 48) * 100 + d2 * 10 + d3 in
                                 if v > 255 then Err (LabelSymbolChars SymBadEscape)
                                 else Ok (of_nat v, chars))))))
          else if ch = 91 then (if in_label then Ok (91, chars) else Err LabelBinary)
          else Ok (of_nat ch, chars))"

lemma parse_escape_shorter: "parse_escape chars b = Ok (ch, rest) \<Longrightarrow> length rest < length chars"
  by (auto simp: parse_escape_def Let_def split: list.splits if_splits option.splits)

definition owned_from_label :: "label \<Rightarrow> (octets, 'e) result" where
  "owned_from_label l =
     (if length l > 63 then Panic else Ok (of_nat (length l) # l @ replicate (63 - length l) 0))"

definition owned_char :: "uchar \<Rightarrow> bool" where
  "owned_char ch \<longleftrightarrow> 32 \<le> ch \<and> ch \<le> 45 \<or> 47 \<le> ch \<and> ch \<le> 91 \<or> 93 \<le> ch \<and> ch \<le> 126"

function owned_from_chars_loop :: "octets \<Rightarrow> uchar list \<Rightarrow> (octets, label_from_str_error) result" where
  "owned_from_chars_loop res chars =
     (case chars of
        [] \<Rightarrow> Ok res
      | ch # chars \<Rightarrow>
          if unat (hd res) \<ge> LABEL_MAX_LEN then Err LabelLong
          else (case (if owned_char ch then Ok (of_nat ch, chars)
                      else if ch = 92 then parse_escape chars (hd res > 0)
                      else Err (LabelBadSymbol NonAscii)) of
                  Ok (c, chars) \<Rightarrow>
                    owned_from_chars_loop (res[unat (hd res) + 1 := c, 0 := hd res + 1]) chars
                | Err e \<Rightarrow> Err e
                | Panic \<Rightarrow> Panic))"
  by pat_completeness auto
termination
  by (relation "measure (\<lambda>(_, cs). length cs)") (auto dest: parse_escape_shorter split: if_splits)

declare owned_from_chars_loop.simps [simp del]

definition owned_from_chars :: "uchar list \<Rightarrow> (octets, label_from_str_error) result" where
  "owned_from_chars chars = owned_from_chars_loop (replicate 64 0) chars"

definition owned_as_label :: "octets \<Rightarrow> label" where
  "owned_as_label octs = take (unat (hd octs)) (tl octs)"

definition owned_make_canonical :: "octets \<Rightarrow> octets" where
  "owned_make_canonical octs = hd octs # map to_ascii_lowercase (tl octs)"

definition owned_as_wire_slice :: "octets \<Rightarrow> octets" where
  "owned_as_wire_slice octs = take (unat (hd octs) + 1) octs"

section \<open>The state of a builder\<close>

text \<open>
  What a builder stands for: the finished labels and the content of the label that is being built.
  The octet at the head of that label is only set when the label ends.
\<close>

definition nb_rel :: "'b builder_ops \<Rightarrow> 'b name_builder \<Rightarrow> label list \<Rightarrow> label option \<Rightarrow> bool" where
  "nb_rel B nb ls cur \<longleftrightarrow> rel_labels ls \<and>
     (case cur of
        None \<Rightarrow> nb_head nb = None \<and> nb_slice B nb = wire ls
      | Some c \<Rightarrow> c \<noteq> [] \<and> valid_label c \<and> nb_head nb = Some (length (wire ls)) \<and>
          (\<exists>x. nb_slice B nb = wire ls @ x # c))"

definition cur_labels :: "label option \<Rightarrow> label list" where
  "cur_labels cur = (case cur of None \<Rightarrow> [] | Some c \<Rightarrow> [c])"

definition cur_content :: "label option \<Rightarrow> label" where
  "cur_content cur = (case cur of None \<Rightarrow> [] | Some c \<Rightarrow> c)"

lemma cur_simps [simp]:
  "cur_labels None = []" "cur_labels (Some c) = [c]" "cur_content None = []" "cur_content (Some c) = c"
  by (simp_all add: cur_labels_def cur_content_def)

lemma nb_rel_None: "nb_rel B nb ls None \<longleftrightarrow> rel_labels ls \<and> nb_head nb = None \<and> nb_slice B nb = wire ls"
  by (simp add: nb_rel_def)

lemma nb_rel_Some: "nb_rel B nb ls (Some c) \<longleftrightarrow> rel_labels ls \<and> c \<noteq> [] \<and> valid_label c \<and>
    nb_head nb = Some (length (wire ls)) \<and> (\<exists>x. nb_slice B nb = wire ls @ x # c)"
  by (simp add: nb_rel_def)

lemma nb_rel_labels: "nb_rel B nb ls cur \<Longrightarrow> rel_labels (ls @ cur_labels cur)"
  by (cases cur) (auto simp: nb_rel_None nb_rel_Some)

lemma nb_rel_len: "nb_rel B nb ls cur \<Longrightarrow> nb_len B nb = length (wire (ls @ cur_labels cur))"
  by (cases cur) (auto simp: nb_rel_None nb_rel_Some nb_len_def)

lemma nb_rel_in_label: "nb_rel B nb ls cur \<Longrightarrow> nb_in_label nb \<longleftrightarrow> cur \<noteq> None"
  by (cases cur) (auto simp: nb_rel_None nb_rel_Some nb_in_label_def)

context octets_target
begin

lemma nb_append_octets_Ok:
  "nb_append_octets B octs nb = (Ok u, nb') \<Longrightarrow>
     nb_slice B nb' = nb_slice B nb @ octs \<and> nb_head nb' = nb_head nb"
  by (auto simp: nb_append_octets_def nb_slice_def dest: append_Ok split: prod.splits)

lemma nb_append_octets_no_Panic: "fst (nb_append_octets B octs nb) \<noteq> Panic"
  using append_no_Panic [of "nb_builder nb" octs]
  by (auto simp: nb_append_octets_def split: prod.splits)

lemma nb_push_Ok:
  assumes "nb_rel B nb ls cur" "nb_push B ch nb = (Ok u, nb')"
  shows "nb_rel B nb' ls (Some (cur_content cur @ [ch])) \<and> nb_len B nb < 254"
proof (cases cur)
  case None
  with assms have "nb_append_octets B [0, ch] (nb\<lparr>nb_head := Some (length (wire ls))\<rparr>) = (Ok u, nb')"
    "nb_len B nb < 254"
    by (auto simp: nb_push_def nb_rel_None nb_len_def Let_def split: if_splits)
  with nb_append_octets_Ok [OF this(1)] assms(1) None show ?thesis
    by (auto simp: nb_rel_None nb_rel_Some nb_slice_def valid_label_def LABEL_MAX_LEN_def)
next
  case (Some c)
  with assms have "nb_append_octets B [ch] nb = (Ok u, nb')" "nb_len B nb < 254" "length c < 63"
    by (auto simp: nb_push_def nb_rel_Some nb_len_def Let_def LABEL_MAX_LEN_def split: if_splits)
  with nb_append_octets_Ok [OF this(1)] assms(1) Some show ?thesis
    by (auto simp: nb_rel_Some valid_label_def LABEL_MAX_LEN_def)
qed

lemma nb_push_no_Panic: "nb_rel B nb ls cur \<Longrightarrow> fst (nb_push B ch nb) \<noteq> Panic"
  using nb_append_octets_no_Panic
  by (cases cur) (auto simp: nb_push_def nb_rel_None nb_rel_Some nb_len_def Let_def)

lemma nb_end_label_Ok:
  assumes "nb_rel B nb ls cur"
  obtains nb' where "nb_end_label B nb = (Ok () :: (unit, 'e) result, nb')" "nb_rel B nb' (ls @ cur_labels cur) None"
proof (cases cur)
  case None
  then show thesis using assms that [of nb] by (simp add: nb_end_label_def nb_rel_None)
next
  case (Some c)
  with assms obtain x where slice: "nb_slice B nb = wire ls @ x # c" and head: "nb_head nb = Some (length (wire ls))"
    and c: "c \<noteq> []" "valid_label c" "rel_labels ls" by (auto simp: nb_rel_Some)
  let ?octs = "(nb_slice B nb)[length (wire ls) := of_nat (length c)]"
  have octs: "?octs = wire (ls @ [c])" by (simp add: slice wire_label_def)
  have "bo_as_ref B (bo_as_mut B (nb_builder nb) ?octs) = ?octs"
    by (rule as_mut) (simp add: nb_slice_def)
  moreover have "nb_end_label B nb =
      (Ok (), nb\<lparr>nb_builder := bo_as_mut B (nb_builder nb) ?octs, nb_head := None\<rparr>)"
    using slice head by (simp add: nb_end_label_def nb_len_def)
  ultimately show thesis
    using Some c octs by (intro that) (auto simp: nb_rel_None nb_slice_def)
qed

lemma nb_end_label_rel:
  assumes "nb_rel B nb ls cur" "nb_end_label B nb = (r :: (unit, 'e) result, nb')"
  shows "r = Ok () \<and> nb_rel B nb' (ls @ cur_labels cur) None"
  by (rule nb_end_label_Ok [OF assms(1), where 'e = 'e]) (use assms(2) in auto)

lemma nb_append_slice_Ok:
  assumes "nb_rel B nb ls cur" "octs \<noteq> []" "nb_append_slice B octs nb = (Ok u, nb')"
  shows "nb_rel B nb' ls (Some (cur_content cur @ octs))"
proof (cases cur)
  case None
  let ?nb = "nb\<lparr>nb_head := Some (length (wire ls))\<rparr>"
  from None assms obtain nb1 where "nb_append_octets B [0] ?nb = (Ok (), nb1)"
    "nb_append_octets B octs nb1 = (Ok u, nb')" "length octs \<le> 63"
    by (auto simp: nb_append_slice_def nb_rel_None nb_len_def sbind_Ok LABEL_MAX_LEN_def split: if_splits)
  with nb_append_octets_Ok [OF this(1)] nb_append_octets_Ok [OF this(2)] assms None show ?thesis
    by (auto simp: nb_rel_None nb_rel_Some nb_slice_def valid_label_def LABEL_MAX_LEN_def)
next
  case (Some c)
  with assms have "nb_append_octets B octs nb = (Ok u, nb')" "length c + length octs \<le> 62"
    by (auto simp: nb_append_slice_def nb_rel_Some nb_len_def LABEL_MAX_LEN_def split: if_splits)
  with nb_append_octets_Ok [OF this(1)] assms Some show ?thesis
    by (auto simp: nb_rel_Some valid_label_def LABEL_MAX_LEN_def)
qed

lemma nb_append_label_Ok:
  assumes "nb_rel B nb ls cur" "label \<noteq> []" "nb_append_label B label nb = (Ok u, nb')"
  shows "nb_rel B nb' (ls @ cur_labels cur @ [label]) None"
proof -
  obtain nb1 where nb1: "nb_end_label B nb = (Ok () :: (unit, push_error) result, nb1)"
    and rel1: "nb_rel B nb1 (ls @ cur_labels cur) None"
    by (rule nb_end_label_Ok [OF assms(1), where 'e = push_error])
  obtain r nb2 where r: "nb_append_slice B label nb1 = (r, nb2)" by (cases "nb_append_slice B label nb1")
  with assms(3) nb1 obtain v where "r = Ok v" and eq: "nb_end_label B nb2 = (Ok u :: (unit, push_error) result, nb')"
    by (cases r) (auto simp: nb_append_label_def Let_def)
  with r have "nb_rel B nb2 (ls @ cur_labels cur) (Some label)"
    using nb_append_slice_Ok [OF rel1 assms(2)] by simp
  from nb_end_label_rel [OF this eq] show ?thesis by simp
qed

lemma nb_push_symbol_Ok:
  assumes "nb_rel B nb ls cur" "nb_push_symbol B s nb = (Ok u, nb')"
  shows "(s = Char 46 \<and> cur \<noteq> None \<and> nb_rel B nb' (ls @ cur_labels cur) None) \<or>
    (s \<noteq> Char 46 \<and> nb_len B nb < 254 \<and>
      (\<exists>ch. into_octet s = Ok ch \<and> nb_rel B nb' ls (Some (cur_content cur @ [ch]))))"
proof (cases "s = Char 46")
  case True
  with assms have "cur \<noteq> None" "nb_end_label B nb = (Ok u :: (unit, from_str_error) result, nb')"
    by (auto simp: nb_push_symbol_def nb_rel_in_label split: if_splits)
  with True nb_end_label_rel [OF assms(1) this(2)] show ?thesis by simp
next
  case False
  with assms obtain ch where "into_octet s = Ok ch" "nb_push B ch nb = (Ok u, nb')"
    by (auto simp: nb_push_symbol_def split: if_splits result.splits)
  with False nb_push_Ok [OF assms(1) this(2)] show ?thesis by auto
qed

lemma nb_compose_labels_Ok:
  assumes "nb_compose_labels B ms nb = (Ok u, nb')"
  shows "nb_slice B nb' = nb_slice B nb @ wire ms \<and> nb_head nb' = nb_head nb"
proof -
  have "appends B (compose_all (label_compose B) ms) (concat (map wire_label ms))"
    by (rule appends_all) (rule appends_label_compose)
  then show ?thesis
    using assms
    by (auto simp: nb_compose_labels_def nb_slice_def wire_def dest: appends_Ok split: prod.splits)
qed

lemma nb_finish_Ok:
  assumes "nb_rel B nb ls cur"
  shows "nb_finish B nb = (Ok (wire (ls @ cur_labels cur)) :: (octets, 'e) result)"
  by (rule nb_end_label_Ok [OF assms, where 'e = 'e]) (simp add: nb_finish_def nb_rel_None)

lemma nb_into_name_Ok:
  assumes "nb_rel B nb ls cur" "nb_into_name B nb = Ok n"
  shows "n = wire (ls @ cur_labels cur @ [[]])"
proof -
  obtain nb1 where nb1: "nb_end_label B nb = (Ok () :: (unit, push_error) result, nb1)"
    and rel: "nb_rel B nb1 (ls @ cur_labels cur) None"
    by (rule nb_end_label_Ok [OF assms(1), where 'e = push_error])
  obtain r nb2 where app: "nb_append_octets B [0] nb1 = (r, nb2)" by (cases "nb_append_octets B [0] nb1")
  with assms(2) nb1 have "r = Ok ()" "n = nb_slice B nb2"
    by (cases r; simp add: nb_into_name_def)+
  with app nb_append_octets_Ok [of "[0]" nb1 "()" nb2] rel show ?thesis
    by (simp add: nb_rel_None)
qed

end

section \<open>Reachable builders\<close>

text \<open>
  The builders that calls lead to, successful ones and rejected ones: those that fail because a label or the name would
  get too long or because a symbol is not allowed.  Calls that panic or for which there is not enough space are left out, and
  appending a name is only taken while no label is being built: see below for what happens otherwise.
\<close>

inductive nb_reach :: "'b builder_ops \<Rightarrow> 'b name_builder \<Rightarrow> bool" for B where
  new: "nb_reach B (nb_new B)"
| from_builder: "nb_from_builder B b = Ok nb \<Longrightarrow> nb_reach B nb"
| push: "nb_reach B nb \<Longrightarrow> nb_push B ch nb = (r, nb') \<Longrightarrow> r \<notin> {Panic, Err PushShortBuf} \<Longrightarrow> nb_reach B nb'"
| push_symbol: "nb_reach B nb \<Longrightarrow> nb_push_symbol B s nb = (r, nb') \<Longrightarrow> r \<notin> {Panic, Err FromStrShortBuf} \<Longrightarrow> nb_reach B nb'"
| append_slice: "nb_reach B nb \<Longrightarrow> nb_append_slice B octs nb = (r, nb') \<Longrightarrow> r \<notin> {Panic, Err PushShortBuf} \<Longrightarrow> nb_reach B nb'"
| end_label: "nb_reach B nb \<Longrightarrow> nb_end_label B nb = (r :: (unit, unit) result, nb') \<Longrightarrow> nb_reach B nb'"
| append_label: "nb_reach B nb \<Longrightarrow> nb_append_label B octs nb = (r, nb') \<Longrightarrow> r \<notin> {Panic, Err PushShortBuf} \<Longrightarrow> nb_reach B nb'"
| append_dec_u8_label:
    "nb_reach B nb \<Longrightarrow> nb_append_dec_u8_label B v nb = (r, nb') \<Longrightarrow> r \<notin> {Panic, Err PushShortBuf} \<Longrightarrow> nb_reach B nb'"
| append_hex_digit_label:
    "nb_reach B nb \<Longrightarrow> nb_append_hex_digit_label B v nb = (r, nb') \<Longrightarrow> r \<notin> {Panic, Err PushShortBuf} \<Longrightarrow> nb_reach B nb'"
| append_symbols: "nb_reach B nb \<Longrightarrow> nb_append_symbols B syms nb = (r, nb') \<Longrightarrow> r \<notin> {Panic, Err FromStrShortBuf} \<Longrightarrow> nb_reach B nb'"
| append_chars: "nb_reach B nb \<Longrightarrow> nb_append_chars B chars nb = (r, nb') \<Longrightarrow> r \<notin> {Panic, Err FromStrShortBuf} \<Longrightarrow> nb_reach B nb'"
| append_name: "nb_reach B nb \<Longrightarrow> \<not> nb_in_label nb \<Longrightarrow> view_ok v \<Longrightarrow> rel_labels (lv_labels v) \<Longrightarrow>
    nb_append_name B v nb = (r, nb') \<Longrightarrow> r \<notin> {Panic, Err PushNameShortBuf} \<Longrightarrow> nb_reach B nb'"

definition nb_inv :: "'b builder_ops \<Rightarrow> 'b name_builder \<Rightarrow> bool" where
  "nb_inv B nb \<longleftrightarrow> (\<exists>ls cur. nb_rel B nb ls cur)"

text \<open>A call keeps the invariant unless it panics or fails with the given error.\<close>

definition keeps_inv :: "'b builder_ops \<Rightarrow> 'e \<Rightarrow> ('b, 'a, 'e) nb_step \<Rightarrow> bool" where
  "keeps_inv B e m \<longleftrightarrow> (\<forall>nb r nb'. nb_inv B nb \<longrightarrow> m nb = (r, nb') \<longrightarrow> r \<notin> {Panic, Err e} \<longrightarrow> nb_inv B nb')"

context octets_builder
begin

lemma nb_inv_I: "nb_rel B nb ls cur \<Longrightarrow> nb_inv B nb"
  unfolding nb_inv_def by blast

lemma nb_rel_new: "nb_rel B (nb_new B) [] None"
  by (simp add: nb_new_def nb_from_builder_unchecked_def nb_rel_None nb_slice_def empty_ref)

text \<open>Appending to the target fails for lack of space only; a rejected octet or slice leaves the builder as it was.\<close>

lemma nb_append_octets_Err: "nb_append_octets B octs nb = (Err e, nb') \<Longrightarrow> e = PushShortBuf"
  by (auto simp: nb_append_octets_def split: prod.splits) (metis result.exhaust rmap_err.simps result.distinct result.inject(2))

lemma nb_push_rejected: "nb_push B ch nb = (Err e, nb') \<Longrightarrow> e \<noteq> PushShortBuf \<Longrightarrow> nb' = nb"
  by (auto simp: nb_push_def Let_def dest: nb_append_octets_Err split: if_splits option.splits)

lemma nb_append_slice_rejected: "nb_append_slice B octs nb = (Err e, nb') \<Longrightarrow> e \<noteq> PushShortBuf \<Longrightarrow> nb' = nb"
  by (auto simp: nb_append_slice_def sbind_def dest: nb_append_octets_Err split: if_splits option.splits result.splits prod.splits)

lemma nb_inv_push: "keeps_inv B PushShortBuf (nb_push B ch)"
  unfolding keeps_inv_def
proof (intro allI impI)
  fix nb r nb' assume a: "nb_inv B nb" "nb_push B ch nb = (r, nb')" "r \<notin> {Panic, Err PushShortBuf}"
  then obtain ls cur where "nb_rel B nb ls cur" unfolding nb_inv_def by blast
  note ok = nb_push_Ok [OF this, of ch]
  show "nb_inv B nb'"
  proof (cases r)
    case (Ok u)
    with ok a(2) show ?thesis by (auto intro: nb_inv_I)
  next
    case (Err e)
    with a nb_push_rejected [of ch nb e nb'] show ?thesis by simp
  qed (use a(3) in simp)
qed

lemma nb_inv_end_label: "nb_inv B nb \<Longrightarrow> nb_end_label B nb = (r :: (unit, 'e) result, nb') \<Longrightarrow> r = Ok () \<and> nb_inv B nb'"
  unfolding nb_inv_def using nb_end_label_rel by blast

lemma nb_inv_push_symbol: "keeps_inv B FromStrShortBuf (nb_push_symbol B s)"
  unfolding keeps_inv_def
proof (intro allI impI)
  fix nb r nb' assume a: "nb_inv B nb" "nb_push_symbol B s nb = (r, nb')" "r \<notin> {Panic, Err FromStrShortBuf}"
  show "nb_inv B nb'"
  proof (cases "s = Char 46 \<and> nb_in_label nb")
    case True
    with a(2) have "nb_end_label B nb = (r, nb')" by (simp add: nb_push_symbol_def)
    from nb_inv_end_label [OF a(1) this] show ?thesis ..
  next
    case False
    show ?thesis
    proof (cases "nb' = nb")
      case False
      with \<open>\<not> (s = Char 46 \<and> nb_in_label nb)\<close> a(2) obtain ch q where q: "nb_push B ch nb = (q, nb')" "r = rmap_err from_str_of_push q"
        by (auto simp: nb_push_symbol_def smap_err_def split: if_splits result.splits prod.splits)
      with a(3) have "q \<notin> {Panic, Err PushShortBuf}" by auto
      with nb_inv_push a(1) q(1) show ?thesis unfolding keeps_inv_def by blast
    qed (use a(1) in simp)
  qed
qed

lemma nb_inv_append_slice: "keeps_inv B PushShortBuf (nb_append_slice B octs)"
  unfolding keeps_inv_def
proof (intro allI impI)
  fix nb r nb' assume a: "nb_inv B nb" "nb_append_slice B octs nb = (r, nb')" "r \<notin> {Panic, Err PushShortBuf}"
  then obtain ls cur where "nb_rel B nb ls cur" unfolding nb_inv_def by blast
  note ok = nb_append_slice_Ok [OF this, of octs]
  show "nb_inv B nb'"
  proof (cases r)
    case (Ok u)
    with ok a(1,2) show ?thesis by (cases "octs = []") (auto intro: nb_inv_I simp: nb_append_slice_def)
  next
    case (Err e)
    with a nb_append_slice_rejected [of octs nb e nb'] show ?thesis by simp
  qed (use a(3) in simp)
qed

text \<open>A rejected label leaves the label under construction open, with its length already set.\<close>

lemma nb_inv_reopen:
  assumes "nb_rel B nb ls cur" "nb_end_label B nb = (r :: (unit, 'e) result, nb1)"
  shows "nb_inv B (nb1\<lparr>nb_head := nb_head nb\<rparr>)"
proof -
  from nb_end_label_rel [OF assms] have rel: "nb_rel B nb1 (ls @ cur_labels cur) None" by simp
  show ?thesis
  proof (cases cur)
    case None
    with rel assms(1) have "nb1\<lparr>nb_head := nb_head nb\<rparr> = nb1" by (simp add: nb_rel_None)
    with rel show ?thesis by (auto intro: nb_inv_I)
  next
    case (Some c)
    with rel assms(1) have "nb_rel B (nb1\<lparr>nb_head := nb_head nb\<rparr>) ls (Some c)"
      by (auto simp: nb_rel_None nb_rel_Some nb_slice_def wire_label_def)
    then show ?thesis by (rule nb_inv_I)
  qed
qed

lemma nb_inv_append_label: "keeps_inv B PushShortBuf (nb_append_label B octs)"
  unfolding keeps_inv_def
proof (intro allI impI)
  fix nb r nb' assume a: "nb_inv B nb" "nb_append_label B octs nb = (r, nb')" "r \<notin> {Panic, Err PushShortBuf}"
  then obtain ls cur where rel: "nb_rel B nb ls cur" unfolding nb_inv_def by blast
  obtain nb1 where nb1: "nb_end_label B nb = (Ok () :: (unit, push_error) result, nb1)" "nb_inv B nb1"
    unfolding nb_inv_def using nb_end_label_Ok [OF rel, where 'e = push_error] by blast
  obtain q nb2 where q: "nb_append_slice B octs nb1 = (q, nb2)" by (cases "nb_append_slice B octs nb1")
  show "nb_inv B nb'"
  proof (cases q)
    case (Ok v)
    with q nb_inv_append_slice nb1(2) have "nb_inv B nb2" unfolding keeps_inv_def by blast
    moreover from Ok a(2) nb1(1) q have "nb_end_label B nb2 = (r, nb')" by (simp add: nb_append_label_def Let_def)
    ultimately show ?thesis using nb_inv_end_label by blast
  next
    case (Err e)
    with a(2,3) nb1(1) q have "e \<noteq> PushShortBuf" and nb': "nb' = nb2\<lparr>nb_head := nb_head nb\<rparr>"
      by (auto simp: nb_append_label_def Let_def)
    with nb_append_slice_rejected q Err have "nb2 = nb1" by blast
    with nb_inv_reopen [OF rel nb1(1)] nb' show ?thesis by simp
  qed (use a(2,3) nb1(1) q in \<open>simp add: nb_append_label_def Let_def\<close>)
qed

lemma keeps_invD: "keeps_inv B e m \<Longrightarrow> nb_inv B nb \<Longrightarrow> m nb = (r, nb') \<Longrightarrow> r \<notin> {Panic, Err e} \<Longrightarrow> nb_inv B nb'"
  unfolding keeps_inv_def by blast

lemma keeps_inv_bind:
  assumes "keeps_inv B e m" "\<And>a. keeps_inv B e (f a)"
  shows "keeps_inv B e (sbind m f)"
  unfolding keeps_inv_def
proof (intro allI impI)
  fix nb r nb' assume a: "nb_inv B nb" "sbind m f nb = (r, nb')" "r \<notin> {Panic, Err e}"
  obtain q nb1 where q: "m nb = (q, nb1)" by (cases "m nb")
  with a(2,3) have "q \<notin> {Panic, Err e}" by (auto simp: sbind_def split: result.splits)
  from keeps_invD [OF assms(1) a(1) q this] a(2,3) q keeps_invD [OF assms(2)] show "nb_inv B nb'"
    by (cases q) (auto simp: sbind_def)
qed

lemma keeps_inv_return: "keeps_inv B e (sreturn a)"
  by (simp add: keeps_inv_def sreturn_def)

lemma keeps_inv_end_label: "keeps_inv B e (nb_end_label B)"
  unfolding keeps_inv_def
proof (intro allI impI)
  fix nb r nb' assume "nb_inv B nb" "nb_end_label B nb = (r, nb')"
  from nb_inv_end_label [OF this] show "nb_inv B nb'" ..
qed

lemmas keeps_inv_basic = keeps_inv_return nb_inv_push keeps_inv_end_label nb_inv_push_symbol

lemma keeps_inv_for: "(\<And>x. keeps_inv B e (f x)) \<Longrightarrow> keeps_inv B e (sfor f xs)"
  by (induction xs) (simp_all add: keeps_inv_bind keeps_inv_basic)

lemma keeps_inv_compound:
  "keeps_inv B PushShortBuf (nb_append_dec_u8_label B v)" "keeps_inv B PushShortBuf (nb_append_hex_digit_label B v)"
  "keeps_inv B FromStrShortBuf (nb_append_symbols B syms)" "keeps_inv B FromStrShortBuf (nb_append_chars B chars)"
proof -
  show "keeps_inv B PushShortBuf (nb_append_dec_u8_label B v)" "keeps_inv B PushShortBuf (nb_append_hex_digit_label B v)"
    unfolding nb_append_dec_u8_label_def nb_append_hex_digit_label_def Let_def
    by (auto intro!: keeps_inv_bind keeps_inv_basic)
  show syms: "keeps_inv B FromStrShortBuf (nb_append_symbols B syms)" for syms
    unfolding nb_append_symbols_def by (rule keeps_inv_for) (rule keeps_inv_basic)
  obtain ss err where ss: "symbols chars = (ss, err)" by (cases "symbols chars")
  have "keeps_inv B FromStrShortBuf (\<lambda>nb. case err of None \<Rightarrow> (Ok (), nb) | Some e \<Rightarrow> (Err (from_str_of_chars e), nb))"
    by (auto simp: keeps_inv_def split: option.splits)
  from keeps_inv_bind [OF syms this] show "keeps_inv B FromStrShortBuf (nb_append_chars B chars)"
    unfolding nb_append_chars_def [abs_def] ss by simp
qed

lemma nb_append_name_Ok:
  assumes "nb_rel B nb ls None" "view_ok v" "nb_append_name B v nb = (Ok u, nb')"
  shows "nb_slice B nb' = wire (ls @ lv_labels v) \<and> nb_head nb' = None \<and> nb_len B nb' \<le> 254"
proof -
  have head: "nb\<lparr>nb_head := None\<rparr> = nb" using assms(1) by (simp add: nb_rel_None)
  have "nb_end_label B nb = (Ok () :: (unit, push_name_error) result, nb)"
    using assms(1) by (simp add: nb_end_label_def nb_rel_None)
  with assms have comp: "nb_compose_labels B (lv_labels v) nb = (Ok u, nb')"
    and len: "length (wire ls) + unat (of_nat (length (wire (lv_labels v))) :: u16) \<le> 254"
    by (auto simp: nb_append_name_def head nb_rel_None nb_len_def view_okD(3) split: if_splits)
  moreover have "unat (of_nat (length (wire (lv_labels v))) :: u16) = length (wire (lv_labels v))"
    using view_okD(4) [OF assms(2)] by (simp add: NAME_MAX_LEN_def unat_of_nat)
  ultimately show ?thesis
    using nb_compose_labels_Ok [OF comp] assms(1) by (simp add: nb_rel_None nb_len_def)
qed

lemma nb_append_name_rejected:
  assumes "nb_rel B nb ls None" "nb_append_name B v nb = (Err e, nb')" "e \<noteq> PushNameShortBuf"
  shows "nb' = nb"
proof -
  have "nb\<lparr>nb_head := None\<rparr> = nb" "nb_end_label B nb = (Ok () :: (unit, push_name_error) result, nb)"
    using assms(1) by (simp_all add: nb_rel_None nb_end_label_def)
  moreover have "rmap_err (\<lambda>_. PushNameShortBuf) r \<noteq> Err e" for r :: "(unit, append_error) result"
    using assms(3) by (cases r) auto
  ultimately show ?thesis
    using assms(1,2) by (auto simp: nb_append_name_def nb_compose_labels_def nb_rel_None split: if_splits result.splits prod.splits)
qed

lemma nb_reach_inv: "nb_reach B nb \<Longrightarrow> nb_inv B nb"
proof (induction rule: nb_reach.induct)
  case (from_builder b nb)
  then obtain ls where "rel_labels ls" "bo_as_ref B b = wire ls" "nb = nb_from_builder_unchecked b"
    by (auto simp: nb_from_builder_def rbind_Ok_iff relative_check_slice_Ok elim!: relative_name_okE)
  then have "nb_rel B nb ls None" by (simp add: nb_rel_None nb_from_builder_unchecked_def nb_slice_def)
  then show ?case by (rule nb_inv_I)
next
  case new
  show ?case by (rule nb_inv_I) (rule nb_rel_new)
next
  case (push nb ch r nb')
  from keeps_invD [OF nb_inv_push push(4,2,3)] show ?case .
next
  case (push_symbol nb s r nb')
  from keeps_invD [OF nb_inv_push_symbol push_symbol(4,2,3)] show ?case .
next
  case (append_slice nb octs r nb')
  from keeps_invD [OF nb_inv_append_slice append_slice(4,2,3)] show ?case .
next
  case (end_label nb r nb')
  from nb_inv_end_label [OF end_label(3,2)] show ?case ..
next
  case (append_label nb octs r nb')
  from keeps_invD [OF nb_inv_append_label append_label(4,2,3)] show ?case .
next
  case (append_dec_u8_label nb v r nb')
  from keeps_invD [OF keeps_inv_compound(1) append_dec_u8_label(4,2,3)] show ?case .
next
  case (append_hex_digit_label nb v r nb')
  from keeps_invD [OF keeps_inv_compound(2) append_hex_digit_label(4,2,3)] show ?case .
next
  case (append_symbols nb syms r nb')
  from keeps_invD [OF keeps_inv_compound(3) append_symbols(4,2,3)] show ?case .
next
  case (append_chars nb chars r nb')
  from keeps_invD [OF keeps_inv_compound(4) append_chars(4,2,3)] show ?case .
next
  case (append_name nb v r nb')
  from append_name(7) obtain ls cur where "nb_rel B nb ls cur" unfolding nb_inv_def by blast
  with nb_rel_in_label [OF this] append_name(2) have rel: "nb_rel B nb ls None" by simp
  show ?case
  proof (cases r)
    case (Ok u)
    with nb_append_name_Ok [OF rel append_name(3)] append_name(5) rel append_name(4)
    have "nb_rel B nb' (ls @ lv_labels v) None" by (simp add: nb_rel_None)
    then show ?thesis by (rule nb_inv_I)
  next
    case (Err e)
    with nb_append_name_rejected [OF rel] append_name(5,6) rel show ?thesis by (auto intro: nb_inv_I)
  qed (use append_name(6) in simp)
qed

end

section \<open>Building in a vector\<close>

text \<open>The builder over a \<open>Vec<u8>\<close> with the given labels and the given content of the open label.\<close>

definition vec_nb :: "label list \<Rightarrow> label \<Rightarrow> octets name_builder" where
  "vec_nb ls c =
     (if c = [] then \<lparr>nb_builder = wire ls, nb_head = None\<rparr>
      else \<lparr>nb_builder = wire ls @ 0 # c, nb_head = Some (length (wire ls))\<rparr>)"

lemma vec_builder_simps [simp]:
  "bo_as_ref vec_builder b = b" "bo_append vec_builder b xs = (Ok (), b @ xs)" "bo_empty vec_builder = []"
  "bo_as_mut vec_builder b xs = xs"
  by (simp_all add: vec_builder_def)

lemma nb_new_vec: "nb_new vec_builder = vec_nb [] []"
  by (simp add: nb_new_def nb_from_builder_unchecked_def vec_nb_def)

lemma nb_slice_vec [simp]: "nb_slice vec_builder nb = nb_builder nb"
  by (simp add: nb_slice_def)

lemma vec_push:
  assumes "length c < 63" "length (wire ls) + length c < 253"
  shows "nb_push vec_builder ch (vec_nb ls c) = (Ok (), vec_nb ls (c @ [ch]))"
  using assms by (auto simp: nb_push_def vec_nb_def nb_len_def nb_append_octets_def LABEL_MAX_LEN_def)

lemma vec_end_label: "nb_end_label vec_builder (vec_nb ls c) = (Ok (), vec_nb (ls @ (if c = [] then [] else [c])) [])"
  by (simp add: nb_end_label_def vec_nb_def nb_len_def wire_label_def)

lemma vec_push_symbol:
  assumes "length c < 63" "length (wire ls) + length c < 253"
  shows "nb_push_symbol vec_builder (label_symbol ch) (vec_nb ls c) = (Ok (), vec_nb ls (c @ [ch]))"
proof -
  have "unat ch = 46 \<longleftrightarrow> ch = 46" by (simp add: word_unat_eq_iff)
  then have "label_symbol ch \<noteq> Char 46" "label_symbol ch \<noteq> SimpleEscape 91"
    by (auto simp: label_symbol_def)
  then show ?thesis by (simp add: nb_push_symbol_def smap_err_def vec_push [OF assms])
qed

lemma vec_push_symbols:
  "length c + length l \<le> 63 \<Longrightarrow> length (wire ls) + length c + length l \<le> 253 \<Longrightarrow>
     sfor (nb_push_symbol vec_builder) (map label_symbol l @ rest) (vec_nb ls c) =
     sfor (nb_push_symbol vec_builder) rest (vec_nb ls (c @ l))"
proof (induction l arbitrary: c)
  case (Cons ch l)
  have "nb_push_symbol vec_builder (label_symbol ch) (vec_nb ls c) = (Ok (), vec_nb ls (c @ [ch]))"
    using Cons.prems by (intro vec_push_symbol) simp_all
  with Cons.IH [of "c @ [ch]"] Cons.prems show ?case by simp
qed simp

lemma vec_push_dot:
  "c \<noteq> [] \<Longrightarrow> nb_push_symbol vec_builder (Char 46) (vec_nb ls c) = (Ok (), vec_nb (ls @ [c]) [])"
  by (simp add: nb_push_symbol_def nb_in_label_def vec_end_label) (simp add: vec_nb_def)

text \<open>The symbols of a displayed sequence of labels.\<close>

definition labels_symbols :: "label list \<Rightarrow> symbol list" where
  "labels_symbols ls = concat (map (\<lambda>l. Char 46 # map label_symbol l) ls)"

lemma vec_push_labels:
  "rel_labels ms \<Longrightarrow> c \<noteq> [] \<Longrightarrow> length (wire (ls @ c # ms)) \<le> 254 \<Longrightarrow>
     sfor (nb_push_symbol vec_builder) (labels_symbols ms) (vec_nb ls c) =
       (Ok (), vec_nb (butlast (ls @ c # ms)) (last (c # ms)))"
proof (induction ms arbitrary: ls c)
  case Nil
  then show ?case by (simp add: labels_symbols_def sreturn_def)
next
  case (Cons m ms)
  have "sfor (nb_push_symbol vec_builder) (map label_symbol m @ labels_symbols ms) (vec_nb (ls @ [c]) []) =
      sfor (nb_push_symbol vec_builder) (labels_symbols ms) (vec_nb (ls @ [c]) ([] @ m))"
    using Cons.prems by (intro vec_push_symbols) (simp_all add: valid_label_def LABEL_MAX_LEN_def)
  moreover have "labels_symbols (m # ms) = Char 46 # map label_symbol m @ labels_symbols ms"
    by (simp add: labels_symbols_def)
  ultimately show ?case
    using Cons.IH [of m "ls @ [c]"] Cons.prems by (simp add: vec_push_dot)
qed

lemma vec_push_all:
  assumes "rel_labels (l # ms)" "length (wire (l # ms)) \<le> 254"
  shows "sfor (nb_push_symbol vec_builder) (map label_symbol l @ labels_symbols ms) (vec_nb [] []) =
    (Ok (), vec_nb (butlast (l # ms)) (last (l # ms)))"
proof -
  have "sfor (nb_push_symbol vec_builder) (map label_symbol l @ labels_symbols ms) (vec_nb [] []) =
      sfor (nb_push_symbol vec_builder) (labels_symbols ms) (vec_nb [] l)"
    using assms vec_push_symbols [of "[]" l "[]"] by (simp add: valid_label_def LABEL_MAX_LEN_def)
  also have "\<dots> = (Ok (), vec_nb (butlast ([] @ l # ms)) (last (l # ms)))"
    using assms by (intro vec_push_labels) simp_all
  finally show ?thesis by simp
qed

lemma vec_into_name:
  "ls \<noteq> [] \<Longrightarrow> last ls \<noteq> [] \<Longrightarrow>
     nb_into_name vec_builder (vec_nb (butlast ls) (last ls)) = Ok (wire ls @ [0])"
  by (simp add: nb_into_name_def vec_end_label nb_append_octets_def)
    (simp add: vec_nb_def)

lemma vec_finish:
  "ls \<noteq> [] \<Longrightarrow> last ls \<noteq> [] \<Longrightarrow> nb_finish vec_builder (vec_nb (butlast ls) (last ls)) = Ok (wire ls)"
  by (simp add: nb_finish_def vec_end_label) (simp add: vec_nb_def)

lemma symbols_dot [simp]: "symbols (46 # chars) = (Char 46 # fst (symbols chars), snd (symbols chars))"
  using symbols_display_append [of "Char 46" chars] by simp

lemma symbols_labels_display:
  "symbols (concat (map (\<lambda>l. 46 # label_display l) ls)) = (labels_symbols ls, None)"
  by (induction ls) (simp_all add: labels_symbols_def symbols_label_display)

lemma rel_labels_last: "rel_labels ls \<Longrightarrow> ls \<noteq> [] \<Longrightarrow> last ls \<noteq> []"
  by (auto simp: rel_labels_def list_all_iff dest!: bspec [OF _ last_in_set])

lemma label_symbol_not_dot: "label_symbol ch \<noteq> Char 46"
proof -
  have "unat ch = 46 \<longleftrightarrow> ch = 46" by (simp add: word_unat_eq_iff)
  then show ?thesis by (simp add: label_symbol_def)
qed

lemma name_from_symbols_labels:
  assumes "rel_labels (l # ms)" "length (wire (l # ms)) \<le> 254"
  shows "name_from_symbols vec_builder (map label_symbol l @ labels_symbols ms) = Ok (wire (l # ms) @ [0])"
proof -
  from assms obtain ch l' where l: "l = ch # l'" by (cases l) auto
  have "sbind (nb_push_symbol vec_builder (label_symbol ch))
      (\<lambda>_. nb_append_symbols vec_builder (map label_symbol l' @ labels_symbols ms)) (nb_new vec_builder) =
      (Ok (), vec_nb (butlast (l # ms)) (last (l # ms)))"
    using vec_push_all [OF assms] by (simp add: l nb_append_symbols_def nb_new_vec)
  moreover have "nb_into_name vec_builder (vec_nb (butlast (l # ms)) (last (l # ms))) = Ok (wire (l # ms) @ [0])"
    using rel_labels_last [OF assms(1)] by (intro vec_into_name) simp_all
  ultimately show ?thesis
    by (simp add: name_from_symbols_def l label_symbol_not_dot del: wire_simps)
qed

lemma relative_from_chars_symbols:
  assumes "symbols chars = (map label_symbol l @ labels_symbols ms, None)"
    and "rel_labels (l # ms)" "length (wire (l # ms)) \<le> 254"
  shows "relative_from_chars vec_builder chars = Ok (wire (l # ms))"
proof -
  let ?nb = "vec_nb (butlast (l # ms)) (last (l # ms))"
  have "nb_append_chars vec_builder chars (nb_new vec_builder) = (Ok (), ?nb)"
    using vec_push_all [OF assms(2,3)]
    by (simp add: nb_append_chars_def assms(1) nb_append_symbols_def nb_new_vec)
  moreover have last: "last (l # ms) \<noteq> []" using rel_labels_last [OF assms(2)] by simp
  moreover from last have "nb_finish vec_builder ?nb = (Ok (wire (l # ms)) :: (octets, relative_from_str_error) result)"
    by (intro vec_finish) simp_all
  moreover have "nb_in_label ?nb" using last by (simp add: nb_in_label_def vec_nb_def)
  ultimately show ?thesis by (simp add: relative_from_chars_def)
qed

lemma relative_from_chars_labels:
  assumes "rel_labels ls" "length (wire ls) \<le> 254"
  shows "relative_from_chars vec_builder (relative_display (wire ls)) = Ok (wire ls)"
proof (cases ls)
  case Nil
  then have "name_labels (wire ls) = []" using name_labels_wire [of "[]"] by simp
  with Nil show ?thesis
    by (simp add: relative_from_chars_def relative_display_def nb_append_chars_def nb_append_symbols_def
        sreturn_def sbind_def nb_new_vec vec_nb_def nb_finish_def nb_end_label_def)
next
  case (Cons l ms)
  have "name_labels (wire ls) = l # ms" using name_labels_wire [OF rel_labels_valid [OF assms(1)]] Cons by simp
  then have "symbols (relative_display (wire ls)) = (map label_symbol l @ labels_symbols ms, None)"
    by (simp add: relative_display_def symbols_label_display symbols_labels_display)
  from relative_from_chars_symbols [OF this] assms show ?thesis unfolding Cons by blast
qed

lemma name_from_chars_display:
  assumes "name_ok n" "name_display n = Ok chars"
  shows "name_from_chars vec_builder chars = Ok n"
proof -
  from assms(1) obtain ls where ls: "rel_labels ls" "n = wire ls @ [0]" "length n \<le> NAME_MAX_LEN"
    by (auto simp: name_ok_iff)
  show ?thesis
  proof (cases ls)
    case Nil
    with ls assms(2) have "chars = [46]" "n = [0]" by (simp_all add: name_display_def name_is_root_def)
    then show ?thesis by (simp add: name_from_chars_def symbols_with_def name_from_symbols_def)
  next
    case (Cons l ms)
    have "list_all valid_label (ls @ [[]])" using rel_labels_valid [OF ls(1)] by (simp add: valid_label_def)
    then have "name_labels n = l # ms @ [[]]"
      using ls(2) Cons name_labels_wire [of "ls @ [[]]"] by simp
    moreover have "concat (map (\<lambda>l. if l = [] then [] else 46 # label_display l) ms) =
        concat (map (\<lambda>l. 46 # label_display l) ms)"
      using ls(1) Cons by (intro arg_cong [where f = concat] map_cong) (auto simp: rel_labels_def list_all_iff)
    ultimately have "chars = label_display l @ concat (map (\<lambda>l. 46 # label_display l) ms)"
      using assms(2) ls(2) Cons by (auto simp: name_display_def name_is_root_def label_is_root_def split: if_splits)
    then have "symbols chars = (map label_symbol l @ labels_symbols ms, None)"
      by (simp add: symbols_label_display symbols_labels_display)
    moreover have "length (wire (l # ms)) \<le> 254" using ls Cons by (simp add: NAME_MAX_LEN_def)
    ultimately show ?thesis
      using name_from_symbols_labels [of l ms] ls(1,2) Cons
      by (simp add: name_from_chars_def symbols_with_def del: wire_simps)
  qed
qed

section \<open>Octets that come out of the presentation format\<close>

context octets_builder
begin

lemma nb_append_symbols_rel:
  "nb_rel B nb ls cur \<Longrightarrow> length (wire (ls @ cur_labels cur)) \<le> 255 \<Longrightarrow>
     sfor (nb_push_symbol B) syms nb = (Ok u, nb') \<Longrightarrow>
     \<exists>ls' cur'. nb_rel B nb' ls' cur' \<and> length (wire (ls' @ cur_labels cur')) \<le> 255"
proof (induction syms arbitrary: nb ls cur)
  case Nil
  then show ?case by auto
next
  case (Cons s syms)
  then obtain nb1 where nb1: "nb_push_symbol B s nb = (Ok (), nb1)" "sfor (nb_push_symbol B) syms nb1 = (Ok u, nb')"
    by (auto simp: sbind_Ok)
  have "\<exists>ls1 cur1. nb_rel B nb1 ls1 cur1 \<and> length (wire (ls1 @ cur_labels cur1)) \<le> 255"
    using nb_push_symbol_Ok [OF Cons.prems(1) nb1(1)]
  proof
    assume "s = Char 46 \<and> cur \<noteq> None \<and> nb_rel B nb1 (ls @ cur_labels cur) None"
    with Cons.prems(2) show ?thesis by (intro exI [of _ "ls @ cur_labels cur"] exI [of _ None]) simp
  next
    assume "s \<noteq> Char 46 \<and> nb_len B nb < 254 \<and>
      (\<exists>ch. into_octet s = Ok ch \<and> nb_rel B nb1 ls (Some (cur_content cur @ [ch])))"
    then obtain ch where "nb_len B nb < 254" "nb_rel B nb1 ls (Some (cur_content cur @ [ch]))" by blast
    moreover from this have "length (wire (ls @ cur_labels (Some (cur_content cur @ [ch])))) \<le> 255"
      using nb_rel_len [OF Cons.prems(1)] by (cases cur) simp_all
    ultimately show ?thesis by blast
  qed
  with Cons.IH nb1(2) show ?case by blast
qed

lemma name_from_chars_sound:
  assumes "name_from_chars B chars = Ok n"
  shows "\<exists>ls. abs_labels ls \<and> n = wire ls \<and> length n \<le> 256"
proof -
  from assms obtain syms where syms: "name_from_symbols B syms = Ok n"
    by (auto simp: name_from_chars_def symbols_with_def rbind_Ok_iff split: prod.splits option.splits)
  then obtain first rest where fr: "syms = first # rest" by (cases syms) (auto simp: name_from_symbols_def)
  show ?thesis
  proof (cases "first = Char 46")
    case True
    with syms fr obtain b where "bo_append B (bo_empty B) [0] = (Ok (), b)" "n = bo_as_ref B b"
      by (auto simp: name_from_symbols_def rmap_Ok_iff split: if_splits prod.splits)
    then have "n = wire [[]]" using append_Ok [of "bo_empty B" "[0]"] empty_ref by simp
    then show ?thesis by (intro exI [of _ "[[]]"]) (simp add: abs_labels_Cons)
  next
    case False
    with syms fr obtain nb where nb: "sfor (nb_push_symbol B) (first # rest) (nb_new B) = (Ok (), nb)"
      and n: "nb_into_name B nb = Ok n"
      by (auto simp: name_from_symbols_def nb_append_symbols_def rbind_Ok_iff split: prod.splits)
    from nb_append_symbols_rel [OF nb_rel_new _ nb] obtain ls cur where rel: "nb_rel B nb ls cur"
      and len: "length (wire (ls @ cur_labels cur)) \<le> 255" by auto
    have "n = wire ((ls @ cur_labels cur) @ [[]])" using nb_into_name_Ok [OF rel n] by simp
    moreover have "abs_labels ((ls @ cur_labels cur) @ [[]])"
      using nb_rel_labels [OF rel] by (auto simp: abs_labels_iff)
    ultimately show ?thesis using len by (intro exI [of _ "(ls @ cur_labels cur) @ [[]]"]) simp
  qed
qed

end

section \<open>Labels of addresses\<close>

lemma vec_append_label:
  assumes "label \<noteq> []" "length label \<le> 63" "length (wire ls) + length label \<le> 254"
  shows "nb_append_label vec_builder label (vec_nb ls []) = (Ok (), vec_nb (ls @ [label]) [])"
proof -
  have "nb_append_slice vec_builder label (vec_nb ls []) = (Ok (), vec_nb ls label)"
    using assms by (simp add: nb_append_slice_def vec_nb_def nb_len_def LABEL_MAX_LEN_def nb_append_octets_def sbind_def)
  then show ?thesis using assms(1) by (simp add: nb_append_label_def vec_end_label)
qed

text \<open>The decimal digits of an octet, without leading zeros.\<close>

definition dec_label :: "octet \<Rightarrow> label" where
  "dec_label v =
     (if v \<ge> 100 then [v div 100 + 48] else []) @
     (if v \<ge> 10 then [v div 10 mod 10 + 48] else []) @ [v mod 10 + 48]"

lemma octet_div_mod: "unat (v div w) = unat v div unat w" "unat (v mod w) = unat v mod unat (w :: octet)"
  by (simp_all add: unat_div unat_mod)

lemma dec_digit_tests:
  "0 < v div 100 \<longleftrightarrow> 100 \<le> (v :: octet)"
  "0 < v div 100 \<or> 0 < v div 10 mod 10 \<longleftrightarrow> 10 \<le> v"
proof -
  have h: "0 < v div 100 \<longleftrightarrow> 100 \<le> unat v"
    by (simp add: word_less_nat_alt octet_div_mod div_greater_zero_iff)
  then show "0 < v div 100 \<longleftrightarrow> 100 \<le> v" by (simp add: word_le_nat_alt)
  have "0 < v div 10 mod 10 \<longleftrightarrow> 0 < unat v div 10 mod 10"
    by (simp add: word_less_nat_alt octet_div_mod)
  moreover have "0 < n div 10 mod 10 \<longleftrightarrow> 10 \<le> n" if "n < 100" for n :: nat
    using that by (simp add: mod_less less_mult_imp_div_less div_greater_zero_iff)
  ultimately show "0 < v div 100 \<or> 0 < v div 10 mod 10 \<longleftrightarrow> 10 \<le> v"
    unfolding h by (cases "100 \<le> unat v") (simp_all add: word_le_nat_alt not_le)
qed

lemma vec_append_dec_u8_label:
  assumes "length (wire ls) < 250"
  shows "nb_append_dec_u8_label vec_builder v (vec_nb ls []) = (Ok (), vec_nb (ls @ [dec_label v]) [])"
proof -
  have push: "nb_push vec_builder ch (vec_nb ls c) = (Ok (), vec_nb ls (c @ [ch]))" if "length c \<le> 2" for c ch
    using assms that by (intro vec_push) simp_all
  show ?thesis
    unfolding nb_append_dec_u8_label_def Let_def dec_digit_tests(2)
    unfolding dec_digit_tests(1)
    by (cases "100 \<le> v"; cases "10 \<le> v")
      (simp_all add: vec_end_label push sreturn_def dec_label_def sbind_def)
qed

lemma vec_append_hex_digit_label:
  assumes "length (wire ls) < 250"
  shows "nb_append_hex_digit_label vec_builder v (vec_nb ls []) = (Ok (), vec_nb (ls @ [[hex_digit v]]) [])"
  using assms by (simp add: nb_append_hex_digit_label_def sbind_def vec_end_label vec_push)

definition nibble_labels :: "octet \<Rightarrow> label list" where
  "nibble_labels v = [[hex_digit v], [hex_digit (drop_bit 4 v)]]"

lemma vec_append_nibbles:
  "length (wire ls) + 4 * length octs < 250 \<Longrightarrow>
     sfor (\<lambda>item. sbind (nb_append_hex_digit_label vec_builder item)
       (\<lambda>_. nb_append_hex_digit_label vec_builder (drop_bit 4 item))) octs (vec_nb ls []) =
     (Ok (), vec_nb (ls @ concat (map nibble_labels octs)) [])"
proof (induction octs arbitrary: ls)
  case (Cons v octs)
  then show ?case
    using Cons.IH [of "ls @ nibble_labels v"]
    by (simp add: vec_append_hex_digit_label nibble_labels_def)
qed (simp add: sreturn_def)

section \<open>Properties\<close>

text \<open>
  C2.  Every builder that calls lead to which neither panic nor run out of space, rejected calls included and with names appended
  only while no label is open, is well formed: it holds finished labels of 1 to 63 octets and possibly an open label of such a
  length.  So finishing it never panics and gives the wire format of non-root labels, and pushing more octets never panics.
\<close>

theorem nb_reach_well_formed:
  assumes "octets_builder B" "nb_reach B nb"
  shows "(\<exists>ls. rel_labels ls \<and> nb_finish B nb = (Ok (wire ls) :: (octets, 'e) result) \<and> nb_len B nb = length (wire ls)) \<and>
    fst (nb_push B ch nb) \<noteq> Panic"
proof -
  have target: "octets_target B" using assms(1) by (simp add: octets_builder_def)
  from octets_builder.nb_reach_inv [OF assms] obtain ls cur where rel: "nb_rel B nb ls cur"
    unfolding nb_inv_def by blast
  then show ?thesis
    using nb_rel_labels [OF rel] nb_rel_len [OF rel]
      octets_target.nb_finish_Ok [OF target rel, where 'e = 'e] octets_target.nb_push_no_Panic [OF target rel]
    by blast
qed

text \<open>After an octet was pushed and a label of 64 octets was rejected, the first label is still open.\<close>

theorem nb_reach_well_formed_witness:
  "let nb = \<lparr>nb_builder = [1, 97], nb_head = Some 0\<rparr> in
   (\<exists>ls. rel_labels ls \<and> nb_finish vec_builder nb = (Ok (wire ls) :: (octets, unit) result) \<and> nb_len vec_builder nb = length (wire ls)) \<and>
   fst (nb_push vec_builder 98 nb) \<noteq> Panic"
proof -
  have "nb_push vec_builder 97 (nb_new vec_builder) = (Ok (), \<lparr>nb_builder = [0, 97], nb_head = Some 0\<rparr>)"
    "nb_append_label vec_builder (replicate 64 0) \<lparr>nb_builder = [0, 97], nb_head = Some 0\<rparr> =
      (Err PushLongLabel, \<lparr>nb_builder = [1, 97], nb_head = Some 0\<rparr>)"
    by (simp_all add: nb_push_def nb_new_def nb_from_builder_unchecked_def nb_len_def nb_append_octets_def nb_append_label_def
        nb_end_label_def nb_append_slice_def LABEL_MAX_LEN_def)
  then have "nb_reach vec_builder \<lparr>nb_builder = [1, 97], nb_head = Some 0\<rparr>"
    using nb_reach.push [OF nb_reach.new] nb_reach.append_label by blast
  from nb_reach_well_formed [OF vec_builder.octets_builder_axioms this] show ?thesis by (simp only: Let_def simp_thms)
qed

text \<open>
  C7.  The presentation format is lossless: a well-formed absolute name is read back from its
  \<open>Display\<close>, and a well-formed relative name from its own.
\<close>

theorem name_presentation_roundtrip:
  assumes "name_ok n" "relative_name_ok r"
  shows "rbind (name_display n) (name_from_chars vec_builder) = Ok n \<and>
    relative_from_chars vec_builder (relative_display r) = Ok r"
proof -
  have "\<exists>chars. name_display n = (Ok chars :: (uchar list, from_str_error) result)"
    using assms(1) by (auto elim!: name_okE simp: name_display_def split: list.splits)
  then have "rbind (name_display n) (name_from_chars vec_builder) = Ok n"
    using name_from_chars_display [OF assms(1)] by auto
  moreover have "relative_from_chars vec_builder (relative_display r) = Ok r"
    using assms(2) by (auto elim!: relative_name_okE simp: relative_from_chars_labels)
  ultimately show ?thesis by blast
qed

theorem name_presentation_roundtrip_witness:
  "rbind (name_display [2, 97, 46, 1, 0, 0]) (name_from_chars vec_builder) = Ok [2, 97, 46, 1, 0, 0] \<and>
   relative_from_chars vec_builder (relative_display [1, 42]) = Ok [1, 42]"
proof (rule name_presentation_roundtrip)
  have "name_check_slice [2, 97, 46, 1, 0, 0] = Ok ()" "relative_check_slice [1, 42] = Ok ()" by code_simp+
  then show "name_ok [2, 97, 46, 1, 0, 0]" "relative_name_ok [1, 42]"
    by (simp_all add: name_check_slice_Ok relative_check_slice_Ok)
qed

text \<open>
  What \<open>Name::from_chars\<close> accepts is, for every builder, the wire format of an absolute name,
  with labels within their limit; the length is at most 256 octets, one more than a name may have.
\<close>

theorem name_from_chars_labels:
  assumes "octets_builder B" "name_from_chars B chars = Ok n"
  shows "\<exists>ls. abs_labels ls \<and> n = wire ls \<and> length n \<le> 256"
  by (rule octets_builder.name_from_chars_sound [OF assms])

theorem name_from_chars_labels_witness: "\<exists>ls. abs_labels ls \<and> [1, 97, 0] = wire ls \<and> length [1, 97, 0 :: octet] \<le> 256"
proof (rule name_from_chars_labels [OF vec_builder.octets_builder_axioms])
  show "name_from_chars vec_builder [97, 46] = Ok [1, 97, 0]" by code_simp
qed

text \<open>
  The names for reverse lookups never fail in a vector and never panic.  For an IPv4 address they
  are the decimal octets from last to first under \<open>in-addr.arpa.\<close>, for an IPv6 address the hexadecimal
  nibbles from last to first under \<open>ip6.arpa.\<close>.
\<close>

theorem reverse_from_addr_correct:
  assumes "length octs = 16"
  shows "reverse_from_addr vec_builder (V4 (Ipv4Addr a b c d)) =
      Ok (wire [dec_label d, dec_label c, dec_label b, dec_label a, in_addr_label, arpa_label, []]) \<and>
    reverse_from_addr vec_builder (V6 octs) =
      Ok (wire (concat (map nibble_labels (rev octs)) @ [ip6_label, arpa_label, []]))"
proof -
  have dec: "length (dec_label v) \<le> 3" for v by (simp add: dec_label_def)
  have small: "length (wire [dec_label d]) \<le> 4" "length (wire [dec_label d, dec_label c]) \<le> 8"
    "length (wire [dec_label d, dec_label c, dec_label b]) \<le> 12"
    "length (wire [dec_label d, dec_label c, dec_label b, dec_label a]) \<le> 16"
    using dec [of a] dec [of b] dec [of c] dec [of d] by simp_all
  have into: "nb_into_name vec_builder (vec_nb ls []) = Ok (wire ls @ [0])" for ls
    by (simp add: nb_into_name_def vec_end_label nb_append_octets_def) (simp add: vec_nb_def)
  have v4: "reverse_from_addr_steps vec_builder (V4 (Ipv4Addr a b c d)) (vec_nb [] []) =
      (Ok (), vec_nb [dec_label d, dec_label c, dec_label b, dec_label a, in_addr_label, arpa_label] [])"
    using small
    by (simp add: reverse_from_addr_steps_def sbind_def vec_append_dec_u8_label vec_append_label in_addr_label_def
        arpa_label_def)
  have len: "length (wire (concat (map nibble_labels xs))) = 4 * length xs" for xs
    by (induction xs) (simp_all add: nibble_labels_def)
  have "sfor (\<lambda>item. sbind (nb_append_hex_digit_label vec_builder item)
       (\<lambda>_. nb_append_hex_digit_label vec_builder (drop_bit 4 item))) (rev octs) (vec_nb [] []) =
     (Ok (), vec_nb ([] @ concat (map nibble_labels (rev octs))) [])"
    using assms by (intro vec_append_nibbles) simp
  then have v6: "reverse_from_addr_steps vec_builder (V6 octs) (vec_nb [] []) =
      (Ok (), vec_nb (concat (map nibble_labels (rev octs)) @ [ip6_label, arpa_label]) [])"
    using assms
    by (simp add: reverse_from_addr_steps_def sbind_def vec_append_label ip6_label_def arpa_label_def len)
  show ?thesis
    using into by (simp add: reverse_from_addr_def nb_new_vec v4 v6)
qed

theorem reverse_from_addr_correct_witness:
  "reverse_from_addr vec_builder (V4 (Ipv4Addr 192 0 2 10)) =
      Ok (wire [dec_label 10, dec_label 2, dec_label 0, dec_label 192, in_addr_label, arpa_label, []]) \<and>
    reverse_from_addr vec_builder (V6 (replicate 16 1)) =
      Ok (wire (concat (map nibble_labels (rev (replicate 16 1))) @ [ip6_label, arpa_label, []]))"
  by (rule reverse_from_addr_correct) simp

section \<open>Limits that the builder misses\<close>

lemma vec_push_new_label:
  "length (wire ls) < 254 \<Longrightarrow> nb_push vec_builder ch (vec_nb ls []) = (Ok (), vec_nb ls [ch])"
  by (simp add: nb_push_def vec_nb_def nb_len_def nb_append_octets_def)

lemma vec_push_symbol_new_label:
  assumes "length (wire ls) < 254"
  shows "nb_push_symbol vec_builder (label_symbol ch) (vec_nb ls []) = (Ok (), vec_nb ls [ch])"
proof -
  have "unat ch = 46 \<longleftrightarrow> ch = 46" by (simp add: word_unat_eq_iff)
  then have "label_symbol ch \<noteq> Char 46" "label_symbol ch \<noteq> SimpleEscape 91"
    by (auto simp: label_symbol_def)
  then show ?thesis by (simp add: nb_push_symbol_def smap_err_def vec_push_new_label [OF assms])
qed

lemma name_from_chars_one_more:
  assumes "rel_labels (l # ms)" "length (wire (l # ms)) = 253"
  shows "name_from_chars vec_builder (label_display l @ concat (map (\<lambda>l. 46 # label_display l) (ms @ [[ch]]))) =
    Ok (wire (l # ms @ [[ch], []]))"
proof -
  let ?f = "sfor (nb_push_symbol vec_builder)"
  have syms: "symbols (label_display l @ concat (map (\<lambda>l. 46 # label_display l) (ms @ [[ch]]))) =
      (map label_symbol l @ labels_symbols (ms @ [[ch]]), None)"
    unfolding symbols_label_display symbols_labels_display by simp
  have split: "map label_symbol l @ labels_symbols (ms @ [[ch]]) =
      (map label_symbol l @ labels_symbols ms) @ [Char 46, label_symbol ch]"
    by (simp add: labels_symbols_def)
  have last: "last (l # ms) \<noteq> []" using rel_labels_last [OF assms(1)] by simp
  then have "nb_push_symbol vec_builder (Char 46) (vec_nb (butlast (l # ms)) (last (l # ms))) =
      (Ok (), vec_nb (butlast (l # ms) @ [last (l # ms)]) [])" by (rule vec_push_dot)
  then have dot: "nb_push_symbol vec_builder (Char 46) (vec_nb (butlast (l # ms)) (last (l # ms))) = (Ok (), vec_nb (l # ms) [])"
    by (simp only: append_butlast_last_id list.distinct not_False_eq_True)
  have "?f (map label_symbol l @ labels_symbols (ms @ [[ch]])) (vec_nb [] []) = (Ok (), vec_nb (l # ms) [ch])"
    unfolding split sfor_append [of _ "map label_symbol l @ labels_symbols ms"]
    using vec_push_all [OF assms(1)] assms(2) dot vec_push_symbol_new_label [of "l # ms" ch]
    by (simp add: sbind_def sreturn_def del: wire_simps butlast.simps last.simps)
  moreover obtain c l' where l: "l = c # l'" using assms(1) by (cases l) auto
  moreover have "nb_into_name vec_builder (vec_nb (l # ms) [ch]) = Ok (wire (l # ms @ [[ch], []]))"
    using vec_into_name [of "l # ms @ [[ch]]"] by (simp add: butlast_append)
  ultimately show ?thesis
    unfolding name_from_chars_def symbols_with_def syms
    by (simp add: name_from_symbols_def label_symbol_not_dot nb_append_symbols_def nb_new_vec del: wire_simps)
qed

text \<open>
  C32.  The limit on the length of a name is missed by one: there is a string that \<open>Name::from_chars\<close>
  accepts although the name has 256 octets, which \<open>Name::check_slice\<close> rejects.
\<close>

theorem name_from_chars_too_long:
  "\<exists>chars n. name_from_chars vec_builder chars = Ok n \<and> length n = 256 \<and> name_check_slice n = Err NameLong"
proof -
  let ?l = "replicate 63 97 :: label" and ?m = "replicate 60 97 :: label"
  have "rel_labels [?l, ?l, ?l, ?m]" by (simp add: valid_label_def LABEL_MAX_LEN_def)
  moreover have "length (wire [?l, ?l, ?l, ?m]) = 253" by simp
  ultimately have "name_from_chars vec_builder (label_display ?l @
      concat (map (\<lambda>l. 46 # label_display l) ([?l, ?l, ?m] @ [[97]]))) = Ok (wire (?l # [?l, ?l, ?m] @ [[97], []]))"
    by (rule name_from_chars_one_more)
  moreover have "length (wire (?l # [?l, ?l, ?m] @ [[97], []])) = 256" by simp
  moreover from this have "name_check_slice (wire (?l # [?l, ?l, ?m] @ [[97], []])) = Err NameLong"
    unfolding name_check_slice_def NAME_MAX_LEN_def by simp
  ultimately show ?thesis by blast
qed

text \<open>
  C33.  \<open>append_name\<close> while a label is being built forgets that label before ending it, so its length
  octet stays zero: the octets that are finished afterwards contain a root label and are no relative
  name.
\<close>

theorem nb_append_name_in_label:
  assumes "rel_labels ls" "c \<noteq> []" "view_ok v" "rel_labels (lv_labels v)"
    and "length (wire (ls @ [c])) + length (wire (lv_labels v)) \<le> 254"
  shows "\<exists>nb. nb_append_name vec_builder v (vec_nb ls c) = (Ok (), nb) \<and>
    nb_finish vec_builder nb = (Ok (wire ls @ 0 # c @ wire (lv_labels v)) :: (octets, 'e) result) \<and>
    relative_check_slice (wire ls @ 0 # c @ wire (lv_labels v)) = Err RelAbsolute"
proof -
  have "unat (of_nat (length (wire (lv_labels v))) :: u16) = length (wire (lv_labels v))"
    using view_okD(4) [OF assms(3)] by (simp add: NAME_MAX_LEN_def unat_of_nat)
  moreover have "always_appends (compose_all (label_compose vec_builder) (lv_labels v)) (wire (lv_labels v))"
    unfolding wire_def by (rule always_appends_all) (rule always_appends_label)
  ultimately have "nb_append_name vec_builder v (vec_nb ls c) =
      (Ok (), \<lparr>nb_builder = wire ls @ 0 # c @ wire (lv_labels v), nb_head = None\<rparr>)"
    using assms(2,5) view_okD(3) [OF assms(3)]
    by (simp add: nb_append_name_def Let_def vec_nb_def nb_end_label_def nb_len_def nb_compose_labels_def always_appends_def)
  moreover have "relative_check_slice (wire ls @ 0 # c @ wire (lv_labels v)) = Err RelAbsolute"
    using assms by (simp add: relative_check_slice_def relative_check_loop_walk relative_check_loop_base)
  ultimately show ?thesis by (simp add: nb_finish_def nb_end_label_def)
qed

theorem nb_append_name_in_label_witness:
  "\<exists>nb. nb_append_name vec_builder (name_view [1, 98]) (vec_nb [] [97]) = (Ok (), nb) \<and>
    nb_finish vec_builder nb = (Ok [0, 97, 1, 98] :: (octets, unit) result) \<and>
    relative_check_slice [0, 97, 1, 98] = Err RelAbsolute"
proof -
  have "relative_check_slice [1, 98] = Ok ()" by code_simp
  then have "relative_name_ok [1, 98]" by (simp add: relative_check_slice_Ok)
  then have v: "view_ok (name_view [1, 98])" by (rule relative_iter.view_ok)
  have ls: "lv_labels (name_view [1, 98]) = [[98]]"
    using name_labels_wire [of "[[98]]"] by (simp add: name_view_def valid_label_def LABEL_MAX_LEN_def wire_label_def)
  from nb_append_name_in_label [where 'e = unit, of "[]" "[97]" "name_view [1, 98]"] v ls
  show ?thesis by (simp add: valid_label_def LABEL_MAX_LEN_def wire_label_def)
qed

text \<open>
  The other limits: an open label of 63 octets makes \<open>append_slice\<close> panic, and slices that would fill a
  label up to 63 octets are refused; after \<open>push\<close> has run out of space at the start of a label, ending
  the label panics; and an escaped character outside of ASCII is silently cut down to an octet.
\<close>

lemma nb_append_slice_full_label:
  assumes "nb_rel B nb ls (Some c)" "octs \<noteq> []"
  shows "length c = 63 \<Longrightarrow> nb_append_slice B octs nb = (Panic, nb)"
    and "length c < 63 \<Longrightarrow> length c + length octs = 63 \<Longrightarrow> nb_append_slice B octs nb = (Err PushLongLabel, nb)"
  using assms by (auto simp: nb_append_slice_def nb_rel_Some nb_len_def LABEL_MAX_LEN_def)

lemma nb_push_short_buf_panics:
  assumes "octets_builder B" "nb_rel B nb ls None" "nb_push B ch nb = (Err PushShortBuf, nb')"
  shows "fst (nb_end_label B nb') = Panic"
proof -
  from assms(2,3) obtain b e where b: "bo_append B (nb_builder nb) [0, ch] = (Err e, b)"
    "nb' = nb\<lparr>nb_head := Some (nb_len B nb), nb_builder := b\<rparr>"
    by (auto simp: nb_push_def nb_rel_None Let_def nb_append_octets_def split: if_splits prod.splits)
      (metis result.exhaust rmap_err.simps(1,3) result.distinct(1,5))
  from octets_builder.append_Err_same [OF assms(1) b(1)] b(2) show ?thesis
    by (simp add: nb_end_label_def nb_len_def nb_slice_def)
qed

lemma owned_from_chars_truncates: "rmap owned_as_label (owned_from_chars [92, 0x161]) = Ok [0x61]"
  by code_simp

end
