(* ===== verification/Chain.thy ===== *)
theory Chain
  imports NameBuilder
begin

text \<open>
  \<^verbatim>\<open>src/base/name/chain.rs\<close> and \<^verbatim>\<open>src/base/name/uncertain.rs\<close>: two names chained together, and names of which it is only
  known at run time whether they are absolute.  A chain is modelled over the views of its two parts.
\<close>

section \<open>Uncertain names\<close>

datatype uncertain_name = Absolute octets | Relative octets

datatype uncertain_error =
  UncBadLabel label_type_error | UncCompressed | UncLong | UncTrailingData | UncShortInput

fun uncertain_error_from_split :: "split_label_error \<Rightarrow> uncertain_error" where
  "uncertain_error_from_split (Pointer _) = UncCompressed"
| "uncertain_error_from_split (BadType t) = UncBadLabel t"
| "uncertain_error_from_split SplitShortInput = UncShortInput"

definition uncertain_root :: uncertain_name where
  "uncertain_root = Absolute name_root"

definition uncertain_empty :: uncertain_name where
  "uncertain_empty = Relative relative_empty"

function is_slice_absolute_loop :: "octets \<Rightarrow> (bool, uncertain_error) result" where
  "is_slice_absolute_loop octs =
     (case split_from octs of
        Ok (label, tail) \<Rightarrow>
          if label_is_root label then (if tail = [] then Ok True else Err UncTrailingData)
          else if tail = [] then Ok False
          else is_slice_absolute_loop tail
      | Err e \<Rightarrow> Err (uncertain_error_from_split e)
      | Panic \<Rightarrow> Panic)"
  by pat_completeness auto
termination
  by (relation "measure length") (auto dest: split_from_shorter)

declare is_slice_absolute_loop.simps [simp del]

definition is_slice_absolute :: "octets \<Rightarrow> (bool, uncertain_error) result" where
  "is_slice_absolute octs = (if length octs > NAME_MAX_LEN then Err UncLong else is_slice_absolute_loop octs)"

definition uncertain_from_octets :: "octets \<Rightarrow> (uncertain_name, uncertain_error) result" where
  "uncertain_from_octets octs =
     rbind (is_slice_absolute octs) (\<lambda>absolute. if absolute then Ok (Absolute octs) else Ok (Relative octs))"

definition uncertain_from_chars :: "'b builder_ops \<Rightarrow> uchar list \<Rightarrow> (uncertain_name, from_str_error) result" where
  "uncertain_from_chars B chars =
     (case nb_append_chars B chars (nb_new B) of
        (r, nb) \<Rightarrow> rbind r (\<lambda>_.
          if nb_in_label nb \<or> nb_slice B nb = [] then rmap Relative (nb_finish B nb)
          else rmap Absolute (rmap_err from_str_of_push (nb_into_name B nb))))"

fun is_absolute :: "uncertain_name \<Rightarrow> bool" where
  "is_absolute (Absolute _) = True"
| "is_absolute (Relative _) = False"

definition is_relative :: "uncertain_name \<Rightarrow> bool" where
  "is_relative u \<longleftrightarrow> \<not> is_absolute u"

fun as_absolute :: "uncertain_name \<Rightarrow> octets option" where
  "as_absolute (Absolute name) = Some name"
| "as_absolute (Relative _) = None"

fun as_relative :: "uncertain_name \<Rightarrow> octets option" where
  "as_relative (Relative name) = Some name"
| "as_relative (Absolute _) = None"

fun uncertain_into_absolute :: "octets builder_ops \<Rightarrow> uncertain_name \<Rightarrow> (octets, push_error) result" where
  "uncertain_into_absolute B (Absolute name) = Ok name"
| "uncertain_into_absolute B (Relative name) = relative_into_absolute B name"

fun try_into_absolute :: "uncertain_name \<Rightarrow> (octets, uncertain_name) result" where
  "try_into_absolute (Absolute name) = Ok name"
| "try_into_absolute (Relative name) = Err (Relative name)"

fun try_into_relative :: "uncertain_name \<Rightarrow> (octets, uncertain_name) result" where
  "try_into_relative (Relative name) = Ok name"
| "try_into_relative (Absolute name) = Err (Absolute name)"

fun uncertain_octets :: "uncertain_name \<Rightarrow> octets" where
  "uncertain_octets (Absolute name) = name"
| "uncertain_octets (Relative name) = name"

fun uncertain_eq :: "uncertain_name \<Rightarrow> uncertain_name \<Rightarrow> bool" where
  "uncertain_eq (Absolute l) (Absolute r) = name_eq (name_view l) (name_view r)"
| "uncertain_eq (Relative l) (Relative r) = name_eq (name_view l) (name_view r)"
| "uncertain_eq _ _ = False"

definition uncertain_hash_input :: "uncertain_name \<Rightarrow> octets" where
  "uncertain_hash_input u = concat (map label_hash_input (name_labels (uncertain_octets u)))"

definition uncertain_view :: "uncertain_name \<Rightarrow> label_view" where
  "uncertain_view u = (name_view (uncertain_octets u))\<lparr>lv_flat := None\<rparr>"

fun uncertain_display :: "uncertain_name \<Rightarrow> (uchar list, 'e) result" where
  "uncertain_display (Absolute name) = rmap (\<lambda>cs. cs @ [46]) (name_display name)"
| "uncertain_display (Relative name) = Ok (relative_display name)"

section \<open>Chains\<close>

datatype long_chain_error = LongChainError

record chain =
  ch_left :: label_view
  ch_right :: label_view

definition compose_len_sum :: "label_view \<Rightarrow> label_view \<Rightarrow> (u16, 'e) result" where
  "compose_len_sum l r =
     rbind (runwrap (lv_compose_len l)) (\<lambda>a. rbind (runwrap (lv_compose_len r)) (\<lambda>b.
       if unat a + unat b < 2 ^ 16 then Ok (a + b) else Panic))"

definition chain_new :: "label_view \<Rightarrow> label_view \<Rightarrow> (chain, long_chain_error) result" where
  "chain_new left right =
     rbind (compose_len_sum left right) (\<lambda>len.
       if unat len > NAME_MAX_LEN then Err LongChainError
       else Ok \<lparr>ch_left = left, ch_right = right\<rparr>)"

text \<open>The chain of two names behind the trait: iterating goes through the first name and then the second one.\<close>

definition chain_view :: "chain \<Rightarrow> label_view" where
  "chain_view c =
     \<lparr>lv_labels = lv_labels (ch_left c) @ lv_labels (ch_right c),
      lv_back = lv_back (ch_right c) @ lv_back (ch_left c),
      lv_compose_len = compose_len_sum (ch_left c) (ch_right c),
      lv_flat = None\<rparr>"

definition chain_root :: "label_view \<Rightarrow> (chain, 'e) result" where
  "chain_root self = runwrap (chain_new self (name_view name_root))"

definition chain_flatten ::
    "'b builder_ops \<Rightarrow> (octets, append_error) result \<Rightarrow> chain \<Rightarrow> (octets, append_error) result" where
  "chain_flatten B flat_right c =
     (if lv_labels (ch_left c) = [] then flat_right
      else rbind (runwrap (lv_compose_len (chain_view c))) (\<lambda>_.
        case name_compose B (chain_view c) (bo_empty B) of (r, b) \<Rightarrow> rmap (\<lambda>_. bo_as_ref B b) r))"

text \<open>Displaying: the flag says whether no label has been written yet.\<close>

fun chain_display_loop :: "bool \<Rightarrow> label list \<Rightarrow> uchar list" where
  "chain_display_loop first [] = []"
| "chain_display_loop first (label # labels) =
     (if label_is_root label then (if first then [46] else []) @ chain_display_loop first labels
      else (if \<not> first then [46] else []) @ label_display label @ chain_display_loop False labels)"

definition chain_display :: "chain \<Rightarrow> uchar list" where
  "chain_display c = chain_display_loop True (lv_labels (chain_view c))"

fun chain_display_with_dot_loop :: "bool \<Rightarrow> label list \<Rightarrow> uchar list" where
  "chain_display_with_dot_loop first [] = []"
| "chain_display_with_dot_loop first (label # labels) =
     (if label_is_root label then [46] @ chain_display_with_dot_loop first labels
      else (if \<not> first then [46] else []) @ label_display label @ chain_display_with_dot_loop False labels)"

definition chain_display_with_dot :: "chain \<Rightarrow> uchar list" where
  "chain_display_with_dot c = chain_display_with_dot_loop True (lv_labels (chain_view c))"

text \<open>The chain of an uncertain name, which uses the second name only if the first one is relative.\<close>

record uncertain_chain =
  uc_left :: uncertain_name
  uc_right :: label_view

definition chain_new_uncertain :: "uncertain_name \<Rightarrow> label_view \<Rightarrow> (uncertain_chain, long_chain_error) result" where
  "chain_new_uncertain left right =
     (case left of
        Relative name \<Rightarrow>
          rbind (compose_len_sum (name_view name) right) (\<lambda>len.
            if unat len > NAME_MAX_LEN then Err LongChainError
            else Ok \<lparr>uc_left = left, uc_right = right\<rparr>)
      | Absolute _ \<Rightarrow> Ok \<lparr>uc_left = left, uc_right = right\<rparr>)"

definition uncertain_chain_view :: "uncertain_chain \<Rightarrow> label_view" where
  "uncertain_chain_view c =
     (case uc_left c of
        Absolute name \<Rightarrow> (name_view name)\<lparr>lv_flat := None\<rparr>
      | Relative name \<Rightarrow> chain_view \<lparr>ch_left = name_view name, ch_right = uc_right c\<rparr>)"

section \<open>Well-formed chains\<close>

definition chain_ok :: "chain \<Rightarrow> bool" where
  "chain_ok c \<longleftrightarrow> view_ok (ch_left c) \<and> view_ok (ch_right c) \<and>
     length (wire (lv_labels (ch_left c) @ lv_labels (ch_right c))) \<le> NAME_MAX_LEN"

lemma compose_len_sum_ok:
  assumes "view_ok l" "view_ok r"
  shows "compose_len_sum l r = Ok (of_nat (length (wire (lv_labels l @ lv_labels r))))"
    "unat (of_nat (length (wire (lv_labels l @ lv_labels r))) :: u16) = length (wire (lv_labels l @ lv_labels r))"
proof -
  have len: "length (wire (lv_labels l)) \<le> 255" "length (wire (lv_labels r)) \<le> 255"
    using assms by (simp_all add: view_ok_def NAME_MAX_LEN_def)
  then show "compose_len_sum l r = Ok (of_nat (length (wire (lv_labels l @ lv_labels r))))"
    "unat (of_nat (length (wire (lv_labels l @ lv_labels r))) :: u16) = length (wire (lv_labels l @ lv_labels r))"
    using assms by (simp_all add: compose_len_sum_def view_okD(3) unat_of_nat unat_word_ariths)
qed

interpretation chain_iter: to_label_iter chain_view chain_ok "\<lambda>c. lv_labels (ch_left c) @ lv_labels (ch_right c)"
proof unfold_locales
  fix c
  assume "chain_ok c"
  then have c: "view_ok (ch_left c)" "view_ok (ch_right c)"
    "length (wire (lv_labels (ch_left c) @ lv_labels (ch_right c))) \<le> NAME_MAX_LEN" by (simp_all add: chain_ok_def)
  then show "view_ok (chain_view c)"
    using compose_len_sum_ok(1) [OF c(1,2)] by (simp add: view_ok_def chain_view_def)
qed (simp add: chain_view_def)

lemma chain_new_cases:
  assumes "view_ok l" "view_ok r"
  shows "chain_new l r = (if length (wire (lv_labels l @ lv_labels r)) \<le> NAME_MAX_LEN
    then Ok \<lparr>ch_left = l, ch_right = r\<rparr> else Err LongChainError)"
  unfolding chain_new_def compose_len_sum_ok(1) [OF assms] rbind.simps compose_len_sum_ok(2) [OF assms] by auto

lemma view_ok_root [simp]: "view_ok (name_view name_root)" "lv_labels (name_view name_root) = [[]]"
proof -
  have "name_root = wire [[]]" "list_all valid_label [[]]" by (simp_all add: name_root_def valid_label_def)
  then show "view_ok (name_view name_root)" "lv_labels (name_view name_root) = [[]]"
    using view_ok_name_view [of "[[]]"] name_labels_wire [of "[[]]"]
    by (simp_all only: name_view_def label_view.select_convs) (simp_all add: NAME_MAX_LEN_def name_root_def)
qed

lemma uncertain_error_ne: "uncertain_error_from_split e \<noteq> UncTrailingData" "uncertain_error_from_split e \<noteq> UncLong"
  by (cases e; simp)+

text \<open>Deciding between absolute and relative is checking for an absolute name.\<close>

fun uncertain_of_name_error :: "name_error \<Rightarrow> (bool, uncertain_error) result" where
  "uncertain_of_name_error (NameBadLabel t) = Err (UncBadLabel t)"
| "uncertain_of_name_error NameCompressed = Err UncCompressed"
| "uncertain_of_name_error NameLong = Err UncLong"
| "uncertain_of_name_error NameRelative = Ok False"
| "uncertain_of_name_error NameTrailingData = Err UncTrailingData"
| "uncertain_of_name_error NameShortInput = Err UncShortInput"

lemma is_slice_absolute_check:
  "is_slice_absolute octs =
     (case name_check_slice octs of Ok _ \<Rightarrow> Ok True | Err e \<Rightarrow> uncertain_of_name_error e | Panic \<Rightarrow> Panic)"
proof -
  have "uncertain_of_name_error (name_error_from_split e) = Err (uncertain_error_from_split e)" for e
    by (cases e) simp_all
  then have "is_slice_absolute_loop octs =
     (case name_check_loop octs of Ok _ \<Rightarrow> Ok True | Err e \<Rightarrow> uncertain_of_name_error e | Panic \<Rightarrow> Panic)"
    by (induction octs rule: is_slice_absolute_loop.induct)
      (subst is_slice_absolute_loop.simps, subst name_check_loop.simps,
        auto split: result.splits)
  then show ?thesis by (simp add: is_slice_absolute_def name_check_slice_def)
qed

definition uncertain_ok :: "uncertain_name \<Rightarrow> bool" where
  "uncertain_ok u = (case u of Absolute n \<Rightarrow> name_ok n | Relative n \<Rightarrow> relative_name_ok n)"

section \<open>The presentation format of uncertain names\<close>

lemma uncertain_from_symbols:
  assumes "symbols chars = (map label_symbol l @ labels_symbols ms @ rest, None)"
    and "rel_labels (l # ms)" "length (wire (l # ms)) \<le> 254"
  shows "rest = [] \<Longrightarrow> uncertain_from_chars vec_builder chars = Ok (Relative (wire (l # ms)))"
    and "rest = [Char 46] \<Longrightarrow> uncertain_from_chars vec_builder chars = Ok (Absolute (wire (l # ms) @ [0]))"
proof -
  let ?nb = "vec_nb (butlast (l # ms)) (last (l # ms))"
  have last: "last (l # ms) \<noteq> []" using rel_labels_last [OF assms(2)] by simp
  have run: "nb_append_chars vec_builder chars (nb_new vec_builder) = sfor (nb_push_symbol vec_builder) rest ?nb"
    using vec_push_all [OF assms(2,3)]
    by (auto simp: nb_append_chars_def assms(1) nb_append_symbols_def nb_new_vec sfor_append
        append_assoc [symmetric] sbind_def split: prod.splits result.splits simp del: append_assoc)
  show "uncertain_from_chars vec_builder chars = Ok (Relative (wire (l # ms)))" if "rest = []"
  proof -
    have "nb_finish vec_builder ?nb = (Ok (wire (l # ms)) :: (octets, from_str_error) result)"
      using last by (intro vec_finish) simp_all
    moreover have "nb_in_label ?nb" using last by (simp add: nb_in_label_def vec_nb_def)
    ultimately show ?thesis by (simp add: uncertain_from_chars_def run that sreturn_def)
  qed
  show "uncertain_from_chars vec_builder chars = Ok (Absolute (wire (l # ms) @ [0]))" if "rest = [Char 46]"
  proof -
    have "nb_push_symbol vec_builder (Char 46) ?nb = (Ok (), vec_nb (l # ms) [])"
      using vec_push_dot [OF last, of "butlast (l # ms)"] by (simp only: append_butlast_last_id list.distinct not_False_eq_True)
    then show ?thesis
      by (simp add: uncertain_from_chars_def run that sreturn_def nb_in_label_def nb_into_name_def vec_end_label
          nb_append_octets_def) (simp add: vec_nb_def)
  qed
qed

lemma symbols_labels_rest:
  "symbols (concat (map (\<lambda>l. 46 # label_display l) ls) @ rest) =
     (labels_symbols ls @ fst (symbols rest), snd (symbols rest))"
  by (induction ls) (simp_all add: labels_symbols_def symbols_label_display)

lemma display_absolute:
  assumes "name_ok n" "n \<noteq> [0]"
  obtains l ms where "rel_labels (l # ms)" "n = wire (l # ms) @ [0]" "length (wire (l # ms)) \<le> 254"
    "name_display n = Ok (label_display l @ concat (map (\<lambda>l. 46 # label_display l) ms))"
proof -
  from assms(1) obtain ls where ls: "rel_labels ls" "n = wire ls @ [0]" "length n \<le> NAME_MAX_LEN"
    by (auto simp: name_ok_iff)
  with assms(2) obtain l ms where Cons: "ls = l # ms" by (cases ls) auto
  have "list_all valid_label (ls @ [[]])" using rel_labels_valid [OF ls(1)] by (simp add: valid_label_def)
  then have "name_labels n = l # ms @ [[]]"
    using ls(2) Cons name_labels_wire [of "ls @ [[]]"] by simp
  moreover have "concat (map (\<lambda>l. if l = [] then [] else 46 # label_display l) ms) =
      concat (map (\<lambda>l. 46 # label_display l) ms)"
    using ls(1) Cons by (intro arg_cong [where f = concat] map_cong) (auto simp: rel_labels_def list_all_iff)
  ultimately have "name_display n = Ok (label_display l @ concat (map (\<lambda>l. 46 # label_display l) ms))"
    using ls(2) Cons by (simp add: name_display_def name_is_root_def label_is_root_def)
  with ls Cons show thesis by (intro that [of l ms]) (simp_all add: NAME_MAX_LEN_def)
qed

lemma uncertain_roundtrip:
  assumes "uncertain_ok u" "u \<noteq> Absolute [0]" "uncertain_display u = Ok chars"
  shows "uncertain_from_chars vec_builder chars = Ok u"
proof (cases u)
  case (Absolute n)
  with assms have n: "name_ok n" "n \<noteq> [0]" by (simp_all add: uncertain_ok_def)
  from display_absolute [OF this] obtain l ms where ls: "rel_labels (l # ms)" "n = wire (l # ms) @ [0]"
    "length (wire (l # ms)) \<le> 254"
    and d: "name_display n = (Ok (label_display l @ concat (map (\<lambda>l. 46 # label_display l) ms)) :: (uchar list, 'a) result)"
    by metis
  have "symbols chars = (map label_symbol l @ labels_symbols ms @ [Char 46], None)"
    using assms(3) Absolute d by (auto simp: symbols_label_display symbols_labels_rest)
  from uncertain_from_symbols(2) [OF this ls(1,3) refl] show ?thesis unfolding Absolute ls(2) .
next
  case (Relative n)
  with assms(1) obtain ls where ls: "rel_labels ls" "n = wire ls" "length (wire ls) \<le> 254" "name_labels n = ls"
    by (auto simp: uncertain_ok_def elim: relative_name_okE)
  show ?thesis
  proof (cases ls)
    case Nil
    with assms(3) Relative ls(2,4) show ?thesis
      by (simp add: relative_display_def uncertain_from_chars_def nb_append_chars_def nb_append_symbols_def
          sreturn_def sbind_def nb_new_vec vec_nb_def nb_finish_def nb_end_label_def)
  next
    case (Cons l ms)
    have "symbols chars = (map label_symbol l @ labels_symbols ms @ [], None)"
      using assms(3) Relative ls(4) Cons
      by (auto simp: relative_display_def symbols_label_display symbols_labels_display)
    from uncertain_from_symbols(1) [OF this _ _ refl] ls(1,3) show ?thesis unfolding Relative ls(2) Cons by blast
  qed
qed

lemma length_wire_replicate: "length (wire (replicate n l)) = n * Suc (length l)"
  by (induction n) simp_all

section \<open>Properties\<close>

text \<open>
  C30.  Chaining two well-formed names succeeds exactly when the result has at most 255 octets.  The chain
  then is a well-formed name itself: its labels are those of the first and the second name, from either end,
  and flattening it gives its wire form.
\<close>

theorem chain_correct:
  assumes "view_ok l" "view_ok r" "rel_labels (lv_labels l)"
    and "flat_right = Ok (wire (lv_labels r))"
  shows "chain_new l r = (if length (wire (lv_labels l @ lv_labels r)) \<le> 255
      then Ok \<lparr>ch_left = l, ch_right = r\<rparr> else Err LongChainError) \<and>
    (chain_new l r = Ok c \<longrightarrow> view_ok (chain_view c) \<and> lv_labels (chain_view c) = lv_labels l @ lv_labels r \<and>
      abs_labels (lv_labels (chain_view c)) = abs_labels (lv_labels r) \<and>
      rel_labels (lv_labels (chain_view c)) = rel_labels (lv_labels r) \<and>
      chain_flatten vec_builder flat_right c = Ok (wire (lv_labels l @ lv_labels r)))"
proof (intro conjI impI)
  show "chain_new l r = (if length (wire (lv_labels l @ lv_labels r)) \<le> 255
      then Ok \<lparr>ch_left = l, ch_right = r\<rparr> else Err LongChainError)"
    using chain_new_cases [OF assms(1,2)] by (simp only: NAME_MAX_LEN_def)
  assume "chain_new l r = Ok c"
  then have c: "c = \<lparr>ch_left = l, ch_right = r\<rparr>" "chain_ok c"
    using chain_new_cases [OF assms(1,2)] assms(1,2) by (auto simp: chain_ok_def split: if_splits)
  show v: "view_ok (chain_view c)" and ls: "lv_labels (chain_view c) = lv_labels l @ lv_labels r"
    using chain_iter.view_ok [OF c(2)] chain_iter.view_labels [OF c(2)] c(1) by simp_all
  show "abs_labels (lv_labels (chain_view c)) = abs_labels (lv_labels r)"
    "rel_labels (lv_labels (chain_view c)) = rel_labels (lv_labels r)"
    using assms(3) by (simp_all add: ls abs_labels_append)
  show "chain_flatten vec_builder flat_right c = Ok (wire (lv_labels l @ lv_labels r))"
  proof (cases "lv_labels l = []")
    case True
    then show ?thesis using assms(4) c(1) by (simp add: chain_flatten_def)
  next
    case False
    have "always_appends (compose_all (label_compose vec_builder) (lv_labels (chain_view c)))
        (concat (map wire_label (lv_labels (chain_view c))))"
      by (rule always_appends_all) (rule always_appends_label)
    with False c(1) v show ?thesis
      by (simp add: chain_flatten_def view_okD(3) name_compose_def always_appends_def ls wire_def vec_builder_def)
        (simp add: chain_view_def name_compose_def always_appends_def)
  qed
qed

theorem chain_correct_witness:
  "chain_new (name_view [1, 97]) (name_view [1, 98, 0]) =
     Ok \<lparr>ch_left = name_view [1, 97], ch_right = name_view [1, 98, 0]\<rparr> \<and>
   view_ok (chain_view \<lparr>ch_left = name_view [1, 97], ch_right = name_view [1, 98, 0]\<rparr>)"
proof -
  have w: "[1, 97] = wire [[97]]" "[1, 98, 0] = wire [[98], []]" by (simp_all add: wire_label_def)
  have "view_ok (name_view [1, 97])" "view_ok (name_view [1, 98, 0])" "lv_labels (name_view [1, 97]) = [[97]]"
    "lv_labels (name_view [1, 98, 0]) = [[98], []]"
    unfolding w name_view_def label_view.select_convs
    by (simp_all add: view_ok_def octets_compose_len_def valid_label_def LABEL_MAX_LEN_def NAME_MAX_LEN_def del: wire_simps)
      (simp_all add: wire_label_def)
  with chain_correct [of "name_view [1, 97]" "name_view [1, 98, 0]" "Ok [1, 98, 0]"
      "\<lparr>ch_left = name_view [1, 97], ch_right = name_view [1, 98, 0]\<rparr>"]
  show ?thesis by (simp add: valid_label_def LABEL_MAX_LEN_def wire_label_def)
qed

text \<open>
  \<open>chain_root\<close> on a well-formed relative name panics exactly when the name has 255 octets, which a
  chain of relative names may have.
\<close>

theorem chain_root_panics:
  assumes "view_ok l"
  shows "(chain_root l :: (chain, unit) result) = Panic \<longleftrightarrow> length (wire (lv_labels l)) = 255"
proof -
  have "length (wire (lv_labels l)) \<le> 255" using view_okD(4) [OF assms] by (simp add: NAME_MAX_LEN_def)
  then show ?thesis
    using chain_new_cases [OF assms view_ok_root(1)] by (auto simp: chain_root_def NAME_MAX_LEN_def)
qed

theorem chain_root_panics_witness:
  "(chain_root (name_view (wire (replicate 126 [97] @ [[98, 98]]))) :: (chain, unit) result) = Panic"
proof -
  let ?ls = "replicate 126 [97] @ [[98, 98]] :: label list"
  have "list_all valid_label ?ls" by (simp add: list_all_iff valid_label_def LABEL_MAX_LEN_def del: replicate.simps)
  moreover have len: "length (wire ?ls) = 255" by (simp add: length_wire_replicate)
  ultimately have "view_ok (name_view (wire ?ls))" "lv_labels (name_view (wire ?ls)) = ?ls"
    using view_ok_name_view [of ?ls] name_labels_wire [of ?ls] by (simp_all only: NAME_MAX_LEN_def name_view_def label_view.select_convs)
  then show ?thesis using chain_root_panics [of "name_view (wire ?ls)"] len by (simp only:)
qed

text \<open>
  \<open>UncertainName::from_octets\<close> never panics and tells absolute from relative names.  It takes exactly the
  well-formed absolute names for absolute; for relative it takes the non-empty sequences of labels of up to
  255 octets, one more than a relative name may have, but not the empty name.
\<close>

theorem uncertain_from_octets_correct:
  "uncertain_from_octets octs \<noteq> Panic \<and>
   (uncertain_from_octets octs = Ok (Absolute n) \<longleftrightarrow> n = octs \<and> name_ok octs) \<and>
   (uncertain_from_octets octs = Ok (Relative n) \<longleftrightarrow>
      n = octs \<and> octs \<noteq> [] \<and> length octs \<le> 255 \<and> (\<exists>ls. rel_labels ls \<and> octs = wire ls))"
proof -
  have abs: "is_slice_absolute octs = Ok True \<longleftrightarrow> name_ok octs"
  proof -
    have "uncertain_of_name_error e \<noteq> Ok True" for e by (cases e) simp_all
    then show ?thesis using name_check_slice_Ok [of octs] by (auto simp: is_slice_absolute_check split: result.splits)
  qed
  have "uncertain_of_name_error e = Ok False \<longleftrightarrow> e = NameRelative" for e by (cases e) simp_all
  then have "is_slice_absolute octs = Ok False \<longleftrightarrow> length octs \<le> 255 \<and> name_check_loop octs = Err NameRelative"
    by (cases "name_check_loop octs") (simp_all add: is_slice_absolute_check name_check_slice_def NAME_MAX_LEN_def)
  moreover have "wire ls = [] \<longleftrightarrow> ls = []" for ls by (cases ls) (simp_all add: wire_label_def)
  ultimately have rel: "is_slice_absolute octs = Ok False \<longleftrightarrow>
      octs \<noteq> [] \<and> length octs \<le> 255 \<and> (\<exists>ls. rel_labels ls \<and> octs = wire ls)"
    unfolding name_check_loop_Relative by metis
  have "uncertain_of_name_error e \<noteq> Panic" for e by (cases e) simp_all
  then have "is_slice_absolute octs \<noteq> Panic"
    using name_check_loop_no_Panic [of octs]
    by (auto simp: is_slice_absolute_check name_check_slice_def split: result.splits)
  with abs rel show ?thesis
    by (cases "is_slice_absolute octs") (auto simp: uncertain_from_octets_def split: if_splits)
qed

text \<open>
  C31.  The displayed form of a well-formed uncertain name reads back as the same name, with the exception of
  the root name: it is displayed as two dots, which are rejected.
\<close>

theorem uncertain_presentation_roundtrip:
  assumes "uncertain_ok u"
  shows "rbind (uncertain_display u) (uncertain_from_chars vec_builder) =
    (if u = Absolute name_root then Err (Presentation PresEmptyLabel) else Ok u)"
proof (cases "u = Absolute name_root")
  case True
  have "uncertain_display (Absolute name_root) = (Ok [46, 46] :: (uchar list, from_str_error) result)"
    by (simp add: name_display_def name_is_root_def name_root_def)
  moreover have "uncertain_from_chars vec_builder [46, 46] = Err (Presentation PresEmptyLabel)"
    by (simp add: uncertain_from_chars_def nb_append_chars_def nb_append_symbols_def nb_new_vec vec_nb_def
        nb_push_symbol_def nb_in_label_def sbind_def)
  ultimately show ?thesis using True by simp
next
  case False
  obtain chars where "uncertain_display u = (Ok chars :: (uchar list, from_str_error) result)"
  proof (cases u)
    case (Absolute n)
    with assms False have "name_ok n" "n \<noteq> [0]" by (simp_all add: uncertain_ok_def name_root_def)
    from display_absolute [OF this] obtain cs where "name_display n = (Ok cs :: (uchar list, from_str_error) result)" by metis
    with Absolute show thesis using that by simp
  qed (use that in simp)
  with uncertain_roundtrip [OF assms _ this] False show ?thesis by (simp add: name_root_def)
qed

theorem uncertain_presentation_roundtrip_witness:
  "rbind (uncertain_display (Absolute [1, 97, 0])) (uncertain_from_chars vec_builder) = Ok (Absolute [1, 97, 0])"
proof -
  have "uncertain_ok (Absolute [1, 97, 0])"
    by (auto simp: uncertain_ok_def name_ok_iff wire_label_def NAME_MAX_LEN_def valid_label_def LABEL_MAX_LEN_def
        intro!: exI [of _ "[[97]]"])
  from uncertain_presentation_roundtrip [OF this] show ?thesis by (simp add: name_root_def)
qed

end
