(* ===== verification/ParsedName.thy ===== *)
theory ParsedName
  imports Name
begin

text \<open>
  \<^verbatim>\<open>src/base/name/parsed.rs\<close>: names read from a message, which may be compressed.  The name is kept
  as the octets of the message, the position of its first label and its uncompressed length, which
  never exceeds 255 and is a natural number here.
\<close>

section \<open>Label types\<close>

datatype label_type = Normal nat | Compressed nat

datatype parsed_name_error = ParsedBadLabel label_type_error | ParsedLongName | ParsedExcessiveCompression

fun form_error_from_parsed :: "parsed_name_error \<Rightarrow> form_error" where
  "form_error_from_parsed (ParsedBadLabel _) = ''invalid label type''"
| "form_error_from_parsed ParsedLongName = ''long domain name''"
| "form_error_from_parsed ParsedExcessiveCompression = ''too many compression pointers''"

definition parse_error_from_parsed :: "parsed_name_error \<Rightarrow> parse_error" where
  "parse_error_from_parsed e = Form (form_error_from_parsed e)"

definition label_type_parse :: "parser_ops \<Rightarrow> parser \<Rightarrow> label_type parse_result" where
  "label_type_parse P p =
     rbind (rmap_err parse_error_from_short (ps_parse_u8 P p)) (\<lambda>(ltype, p).
       if ltype \<le> 0x3F then Ok (Normal (unat ltype), p)
       else if 0xC0 \<le> ltype then
         rbind (rmap_err parse_error_from_short (ps_parse_u8 P p)) (\<lambda>(res, p).
           Ok (Compressed (unat res OR push_bit 8 (unat ltype AND 0x3F)), p))
       else Err (Form ''invalid label type''))"

definition label_type_peek :: "parser_ops \<Rightarrow> parser \<Rightarrow> (label_type, parse_error) result" where
  "label_type_peek P p =
     rbind (rmap_err parse_error_from_short (ps_peek P p 1)) (\<lambda>octs.
       let ltype = octs ! 0 in
       if ltype \<le> 0x3F then Ok (Normal (unat ltype))
       else if 0xC0 \<le> ltype then
         rbind (rmap_err parse_error_from_short (ps_peek P p 2)) (\<lambda>octs.
           Ok (Compressed (unat (octs ! 1) OR push_bit 8 (unat ltype AND 0x3F))))
       else Err (Form ''invalid label type''))"

section \<open>Parsed names\<close>

record parsed_name =
  pn_octets :: octets
  pn_pos :: nat
  pn_name_len :: nat
  pn_compressed :: bool

definition pn_is_root :: "parsed_name \<Rightarrow> bool" where
  "pn_is_root pn \<longleftrightarrow> pn_name_len pn = 1"

definition pn_parser :: "parser_ops \<Rightarrow> parsed_name \<Rightarrow> (parser, 'e) result" where
  "pn_parser P pn = runwrap (ps_advance P (ps_from_ref P (pn_octets pn)) (pn_pos pn))"

text \<open>
  \<open>parse_ref\<close>.  Its two phases read labels in the same way; the first one ends at the first
  compression pointer, and from then on the reading goes on in a copy of the parser.  The second phase
  may run around in the message, so the loops have fuel, and running out of it is a panic: it is shown
  below that there is none.
\<close>

fun parsed_phase_two ::
    "parser_ops \<Rightarrow> nat \<Rightarrow> parser \<Rightarrow> nat \<Rightarrow> nat \<Rightarrow> bool \<Rightarrow> nat \<Rightarrow> (parsed_name, parse_error) result"
and parsed_phase_two_labels ::
    "parser_ops \<Rightarrow> nat \<Rightarrow> parser \<Rightarrow> nat \<Rightarrow> nat \<Rightarrow> bool \<Rightarrow> (parsed_name, parse_error) result" where
  "parsed_phase_two P 0 p name_len pos compressed ptr = Panic"
| "parsed_phase_two P (Suc fuel) p name_len pos compressed ptr =
     (if p_pos p < 2 then Panic
      else if ptr \<ge> p_pos p - 2 then Err (parse_error_from_parsed ParsedExcessiveCompression)
      else (let pos = (if name_len = 0 then ptr else pos);
                compressed = (if name_len = 0 then False else compressed)
            in rbind (rmap_err parse_error_from_short (ps_seek P p ptr)) (\<lambda>p.
                 parsed_phase_two_labels P fuel p name_len pos compressed)))"
| "parsed_phase_two_labels P 0 p name_len pos compressed = Panic"
| "parsed_phase_two_labels P (Suc fuel) p name_len pos compressed =
     rbind (label_type_parse P p) (\<lambda>(lt, p).
       case lt of
         Normal label_len \<Rightarrow>
           if label_len = 0 then
             Ok \<lparr>pn_octets = p_octets p, pn_pos = pos, pn_name_len = name_len + 1, pn_compressed = compressed\<rparr>
           else rbind (rmap_err parse_error_from_short (ps_advance P p label_len)) (\<lambda>p.
             let name_len = name_len + label_len + 1 in
             if name_len \<ge> 255 then Err (parse_error_from_parsed ParsedLongName)
             else parsed_phase_two_labels P fuel p name_len pos compressed)
       | Compressed new_ptr \<Rightarrow> parsed_phase_two P fuel p name_len pos True new_ptr)"

fun parsed_phase_one ::
    "parser_ops \<Rightarrow> nat \<Rightarrow> parser \<Rightarrow> nat \<Rightarrow> nat \<Rightarrow> parsed_name parse_result" where
  "parsed_phase_one P 0 p name_len pos = Panic"
| "parsed_phase_one P (Suc fuel) p name_len pos =
     rbind (label_type_parse P p) (\<lambda>(lt, p).
       case lt of
         Normal label_len \<Rightarrow>
           if label_len = 0 then
             Ok (\<lparr>pn_octets = p_octets p, pn_pos = pos, pn_name_len = name_len + 1, pn_compressed = False\<rparr>, p)
           else rbind (rmap_err parse_error_from_short (ps_advance P p label_len)) (\<lambda>p.
             let name_len = name_len + label_len + 1 in
             if name_len \<ge> 255 then Err (parse_error_from_parsed ParsedLongName)
             else parsed_phase_one P fuel p name_len pos)
       | Compressed ptr \<Rightarrow>
           rmap (\<lambda>pn. (pn, p)) (parsed_phase_two P (2 * 256 * Suc (p_len p)) p name_len pos True ptr))"

definition parsed_name_parse :: "parser_ops \<Rightarrow> parser \<Rightarrow> parsed_name parse_result" where
  "parsed_name_parse P p = parsed_phase_one P 256 p 0 (p_pos p)"

text \<open>\<open>skip\<close> only reads the labels up to the first pointer.\<close>

fun parsed_skip_loop :: "parser_ops \<Rightarrow> nat \<Rightarrow> parser \<Rightarrow> nat \<Rightarrow> (parser, parse_error) result" where
  "parsed_skip_loop P 0 p len = Panic"
| "parsed_skip_loop P (Suc fuel) p len =
     rbind (label_type_parse P p) (\<lambda>(lt, p).
       case lt of
         Normal label_len \<Rightarrow>
           if label_len = 0 then
             (if len + 1 > 255 then Err (parse_error_from_parsed ParsedLongName) else Ok p)
           else rbind (rmap_err parse_error_from_short (ps_advance P p label_len)) (\<lambda>p.
             if len + label_len + 1 > 255 then Err (parse_error_from_parsed ParsedLongName)
             else parsed_skip_loop P fuel p (len + label_len + 1))
       | Compressed _ \<Rightarrow> Ok p)"

definition parsed_name_skip :: "parser_ops \<Rightarrow> parser \<Rightarrow> (parser, parse_error) result" where
  "parsed_name_skip P p = parsed_skip_loop P 256 p 0"

definition parsed_from_name :: "octets \<Rightarrow> (parsed_name, 'e) result" where
  "parsed_from_name n =
     rbind (octets_compose_len n) (\<lambda>len.
       Ok \<lparr>pn_octets = n, pn_pos = 0, pn_name_len = unat len, pn_compressed = False\<rparr>)"

section \<open>The iterator over the labels\<close>

record parsed_iter =
  pi_slice :: octets
  pi_pos :: nat
  pi_len :: nat

definition pn_iter :: "parsed_name \<Rightarrow> parsed_iter" where
  "pn_iter pn = \<lparr>pi_slice = pn_octets pn, pi_pos = pn_pos pn, pi_len = pn_name_len pn\<rparr>"

text \<open>
  The loop of \<open>get_label\<close> follows pointers without looking where they lead, so that it is a partial
  function.  It gives the start and the end of the next label.
\<close>

partial_function (option) get_label_loop :: "octets \<Rightarrow> nat \<Rightarrow> (nat \<times> nat, unit) result option" where
  "get_label_loop octs pos =
     (if length octs \<le> pos then Some Panic
      else (let ltype = octs ! pos in
            if ltype \<le> 0x3F then Some (Ok (pos + 1, pos + 1 + unat ltype))
            else if 0xC0 \<le> ltype then
              (if length octs \<le> pos + 1 then Some Panic
               else get_label_loop octs (unat (octs ! (pos + 1)) OR push_bit 8 (unat ltype AND 0x3F)))
            else Some Panic))"

definition parsed_get_label :: "parsed_iter \<Rightarrow> (label \<times> parsed_iter, unit) result option" where
  "parsed_get_label it =
     map_option (\<lambda>r. rbind r (\<lambda>(pos, end').
       if length (pi_slice it) < end' then Panic
       else (let res = drop pos (take end' (pi_slice it)) in
             rbind (label_compose_len res) (\<lambda>clen.
               if pi_len it < unat clen then Panic
               else Ok (res, it\<lparr>pi_pos := end', pi_len := pi_len it - unat clen\<rparr>)))))
       (get_label_loop (pi_slice it) (pi_pos it))"

definition parsed_iter_next :: "parsed_iter \<Rightarrow> (label option \<times> parsed_iter, unit) result option" where
  "parsed_iter_next it =
     (if pi_len it = 0 then Some (Ok (None, it))
      else map_option (rmap (\<lambda>(l, it). (Some l, it))) (parsed_get_label it))"

lemma get_label_loop_bounds:
  assumes "get_label_loop octs pos = Some (Ok (s, e))"
  shows "s \<le> e \<and> e \<le> s + 63"
proof -
  have "case r of Ok (s, e) \<Rightarrow> s \<le> e \<and> e \<le> s + 63 | _ \<Rightarrow> True" if "get_label_loop octs pos = Some r" for r
  proof (rule get_label_loop.raw_induct [OF _ that])
    fix f :: "octets \<Rightarrow> nat \<Rightarrow> (nat \<times> nat, unit) result option" and octs :: octets and pos r
    assume IH: "\<And>octs pos r. f octs pos = Some r \<Longrightarrow> case r of Ok (s, e) \<Rightarrow> s \<le> e \<and> e \<le> s + 63 | _ \<Rightarrow> True"
    assume "(if length octs \<le> pos then Some Panic
      else (let ltype = octs ! pos in
            if ltype \<le> 0x3F then Some (Ok (pos + 1, pos + 1 + unat ltype))
            else if 0xC0 \<le> ltype then
              (if length octs \<le> pos + 1 then Some Panic
               else f octs (unat (octs ! (pos + 1)) OR push_bit 8 (unat ltype AND 0x3F)))
            else Some Panic)) = Some r"
    then show "case r of Ok (s, e) \<Rightarrow> s \<le> e \<and> e \<le> s + 63 | _ \<Rightarrow> True"
      using IH by (auto simp: Let_def word_le_nat_alt split: if_splits)
  qed
  from this [OF assms] show ?thesis by simp
qed

lemma label_compose_len_small: "length l \<le> 63 \<Longrightarrow> label_compose_len l = Ok clen \<Longrightarrow> unat clen = Suc (length l)"
  by (auto simp: label_compose_len_def unat_word_ariths unat_of_nat split: if_splits)

lemma parsed_get_label_Ok:
  assumes "parsed_get_label it = Some (Ok (l, it'))"
  shows "valid_label l \<and> pi_slice it' = pi_slice it \<and> pi_len it = pi_len it' + Suc (length l)"
proof -
  from assms obtain pos end' clen where gl: "get_label_loop (pi_slice it) (pi_pos it) = Some (Ok (pos, end'))"
    and l: "l = drop pos (take end' (pi_slice it))"
    and clen: "label_compose_len l = (Ok clen :: (u16, unit) result)" "unat clen \<le> pi_len it"
    and it': "it' = it\<lparr>pi_pos := end', pi_len := pi_len it - unat clen\<rparr>"
    by (auto simp: parsed_get_label_def rbind_Ok_iff Let_def not_less split: if_splits)
  have len: "length l \<le> 63" using get_label_loop_bounds [OF gl] l by auto
  from label_compose_len_small [OF len clen(1)] clen(2) it' len show ?thesis
    by (simp add: valid_label_def LABEL_MAX_LEN_def)
qed

lemma parsed_get_label_less: "parsed_get_label it = Some (Ok (l, it')) \<Longrightarrow> pi_len it' < pi_len it"
  by (auto dest: parsed_get_label_Ok)

function parsed_back_loop :: "parsed_iter \<Rightarrow> (label, unit) result option" where
  "parsed_back_loop tmp =
     (case parsed_get_label tmp of
        Some (Ok (label, tmp)) \<Rightarrow> if pi_len tmp = 0 then Some (Ok label) else parsed_back_loop tmp
      | Some (Err e) \<Rightarrow> Some (Err e)
      | Some Panic \<Rightarrow> Some Panic
      | None \<Rightarrow> None)"
  by pat_completeness auto
termination
  by (relation "measure pi_len") (auto dest: parsed_get_label_less)

declare parsed_back_loop.simps [simp del]

definition parsed_iter_next_back :: "parsed_iter \<Rightarrow> (label option \<times> parsed_iter, unit) result option" where
  "parsed_iter_next_back it =
     (if pi_len it = 0 then Some (Ok (None, it))
      else map_option (\<lambda>r. rbind r (\<lambda>label. rbind (label_compose_len label) (\<lambda>clen.
        if pi_len it < unat clen then Panic
        else Ok (Some label, it\<lparr>pi_len := pi_len it - unat clen\<rparr>)))) (parsed_back_loop it))"

text \<open>Running the iterator from either end until it returns \<open>None\<close>.\<close>

lemma parsed_iter_next_less: "parsed_iter_next it = Some (Ok (Some l, it')) \<Longrightarrow> pi_len it' < pi_len it"
  by (auto simp: parsed_iter_next_def rmap_Ok_iff dest: parsed_get_label_less split: if_splits)

function parsed_labels :: "parsed_iter \<Rightarrow> (label list, unit) result option" where
  "parsed_labels it =
     (case parsed_iter_next it of
        Some (Ok (Some l, it)) \<Rightarrow> map_option (rmap ((#) l)) (parsed_labels it)
      | Some (Ok (None, _)) \<Rightarrow> Some (Ok [])
      | Some (Err e) \<Rightarrow> Some (Err e)
      | Some Panic \<Rightarrow> Some Panic
      | None \<Rightarrow> None)"
  by pat_completeness auto
termination
  by (relation "measure pi_len") (auto dest: parsed_iter_next_less)

declare parsed_labels.simps [simp del]

lemma parsed_back_loop_Ok:
  "parsed_back_loop it = Some (Ok l) \<longleftrightarrow>
     (\<exists>l' it'. parsed_get_label it = Some (Ok (l', it')) \<and>
       (pi_len it' = 0 \<and> l = l' \<or> pi_len it' \<noteq> 0 \<and> parsed_back_loop it' = Some (Ok l)))"
proof (cases "parsed_get_label it")
  case None
  then show ?thesis by (simp add: parsed_back_loop.simps [of it])
next
  case (Some r)
  then show ?thesis by (cases r) (auto simp: parsed_back_loop.simps [of it] split: if_splits)
qed

lemma parsed_back_loop_valid: "parsed_back_loop it = Some (Ok l) \<Longrightarrow> valid_label l"
proof (induction it rule: measure_induct_rule [of pi_len])
  case (less it)
  then obtain l' it' where gl: "parsed_get_label it = Some (Ok (l', it'))"
    and step: "l = l' \<or> parsed_back_loop it' = Some (Ok l)"
    unfolding parsed_back_loop_Ok [of it] by blast
  from step show ?case
    using gl less.IH [OF parsed_get_label_less [OF gl]] by (auto dest: parsed_get_label_Ok)
qed

lemma parsed_iter_next_back_less:
  assumes "parsed_iter_next_back it = Some (Ok (Some l, it'))"
  shows "pi_len it' < pi_len it"
proof -
  from assms obtain clen where bl: "parsed_back_loop it = Some (Ok l)"
    and clen: "label_compose_len l = (Ok clen :: (u16, unit) result)" "unat clen \<le> pi_len it"
    and it': "it' = it\<lparr>pi_len := pi_len it - unat clen\<rparr>" "pi_len it \<noteq> 0"
    by (auto simp: parsed_iter_next_back_def rbind_Ok_iff not_less split: if_splits)
  have "length l \<le> 63" using parsed_back_loop_valid [OF bl] by (simp add: valid_label_def LABEL_MAX_LEN_def)
  from label_compose_len_small [OF this clen(1)] it' show ?thesis by simp
qed

function parsed_labels_back :: "parsed_iter \<Rightarrow> (label list, unit) result option" where
  "parsed_labels_back it =
     (case parsed_iter_next_back it of
        Some (Ok (Some l, it)) \<Rightarrow> map_option (rmap ((#) l)) (parsed_labels_back it)
      | Some (Ok (None, _)) \<Rightarrow> Some (Ok [])
      | Some (Err e) \<Rightarrow> Some (Err e)
      | Some Panic \<Rightarrow> Some Panic
      | None \<Rightarrow> None)"
  by pat_completeness auto
termination
  by (relation "measure pi_len") (auto dest: parsed_iter_next_back_less)

declare parsed_labels_back.simps [simp del]

section \<open>The traits and the other operations\<close>

definition pn_flat :: "parsed_name \<Rightarrow> (octets option, 'e) result" where
  "pn_flat pn =
     (if pn_compressed pn then Ok None
      else rmap Some (octets_range (pn_octets pn) (Included (pn_pos pn)) (Excluded (pn_pos pn + pn_name_len pn))))"

text \<open>The view of a name on which an operation would panic or not return has no labels.\<close>

definition labels_or_none :: "(label list, unit) result option \<Rightarrow> label list" where
  "labels_or_none r = (case r of Some (Ok ls) \<Rightarrow> ls | _ \<Rightarrow> [])"

definition pn_view :: "parsed_name \<Rightarrow> label_view" where
  "pn_view pn =
     \<lparr>lv_labels = labels_or_none (parsed_labels (pn_iter pn)),
      lv_back = labels_or_none (parsed_labels_back (pn_iter pn)),
      lv_compose_len = Ok (of_nat (pn_name_len pn)),
      lv_flat = (case pn_flat pn of Ok f \<Rightarrow> f | Err (_ :: unit) \<Rightarrow> None | Panic \<Rightarrow> None)\<rparr>"

text \<open>
  The loop shared by \<open>split_first\<close> and \<open>parent\<close>: to the first label behind pointers.  It gives the
  parser there and the length of the label with its length octet.
\<close>

partial_function (option) pn_first_label :: "parser_ops \<Rightarrow> parser \<Rightarrow> (parser \<times> nat, unit) result option" where
  "pn_first_label P p =
     (case label_type_peek P p of
        Ok (Normal label_len) \<Rightarrow> if label_len = 0 then Some Panic else Some (Ok (p, label_len + 1))
      | Ok (Compressed pos) \<Rightarrow>
          (case ps_seek P p pos of Ok p \<Rightarrow> pn_first_label P p | _ \<Rightarrow> Some Panic)
      | _ \<Rightarrow> Some Panic)"

definition pn_split_first :: "parser_ops \<Rightarrow> parsed_name \<Rightarrow> (octets option \<times> parsed_name, unit) result option" where
  "pn_split_first P pn =
     (if pn_name_len pn = 1 then Some (Ok (None, pn))
      else (case pn_parser P pn of
              Ok p \<Rightarrow>
                map_option (\<lambda>r. rbind r (\<lambda>(p, len).
                  if pn_name_len pn < len then Panic
                  else rmap (\<lambda>octs. (Some octs, pn\<lparr>pn_pos := p_pos p + len, pn_name_len := pn_name_len pn - len\<rparr>))
                    (octets_range (pn_octets pn) (Included (p_pos p)) (Excluded (p_pos p + len)))))
                  (pn_first_label P p)
            | Err e \<Rightarrow> Some (Err e)
            | Panic \<Rightarrow> Some Panic))"

definition pn_parent :: "parser_ops \<Rightarrow> parsed_name \<Rightarrow> (bool \<times> parsed_name, unit) result option" where
  "pn_parent P pn =
     (if pn_name_len pn = 1 then Some (Ok (False, pn))
      else (case pn_parser P pn of
              Ok p \<Rightarrow>
                map_option (\<lambda>r. rbind r (\<lambda>(p, len).
                  if pn_name_len pn < len then Panic
                  else Ok (True, pn\<lparr>pn_pos := p_pos p + len, pn_name_len := pn_name_len pn - len\<rparr>)))
                  (pn_first_label P p)
            | Err e \<Rightarrow> Some (Err e)
            | Panic \<Rightarrow> Some Panic))"

text \<open>The iterator over the suffixes: its state is the next one.\<close>

definition parsed_suffix_next ::
    "parser_ops \<Rightarrow> parsed_name option \<Rightarrow> (parsed_name option \<times> parsed_name option, unit) result option" where
  "parsed_suffix_next P name =
     (case name of
        None \<Rightarrow> Some (Ok (None, None))
      | Some res \<Rightarrow>
          map_option (rmap (\<lambda>(b, name). (Some res, if b then Some name else None))) (pn_parent P res))"

definition pn_display :: "parsed_name \<Rightarrow> (uchar list, unit) result option" where
  "pn_display pn =
     map_option (\<lambda>r. rbind r (\<lambda>ls.
       case ls of
         [] \<Rightarrow> Panic
       | first # labels \<Rightarrow>
           Ok (label_display first @
               concat (map (\<lambda>l. if label_is_root l then [] else 46 # label_display l) labels))))
       (parsed_labels (pn_iter pn))"

definition pn_flatten :: "'b builder_ops \<Rightarrow> parsed_name \<Rightarrow> (octets, append_error) result" where
  "pn_flatten B pn =
     (case (case lv_flat (pn_view pn) of
              Some octs \<Rightarrow> bo_append B (bo_empty B) octs
            | None \<Rightarrow> compose_all (label_compose B) (lv_labels (pn_view pn)) (bo_empty B)) of
        (r, b) \<Rightarrow> rmap (\<lambda>_. bo_as_ref B b) r)"

section \<open>Names in a message\<close>

lemma pointer_nat: "unat (c :: octet) OR push_bit 8 (unat (h :: octet) AND 0x3F) = unat c + unat h mod 64 * 256"
proof -
  have a: "unat h AND 0x3F = unat h mod 64"
    using take_bit_eq_mask [of 6 "unat h"] by (simp add: take_bit_eq_mod mask_eq_exp_minus_1)
  have small: "\<not> bit (unat c) n" if "8 \<le> n" for n
    using that bit_imp_le_length [of c n] by (auto simp: bit_unsigned_iff)
  have "unat c OR push_bit 8 (unat h mod 64) = unat c + push_bit 8 (unat h mod 64)"
    by (rule disjunctive_add [symmetric]) (use small in \<open>auto simp: bit_push_bit_iff not_le\<close>)
  then show ?thesis by (simp add: a push_bit_eq_mult)
qed

definition pointer_target :: "octets \<Rightarrow> nat \<Rightarrow> nat" where
  "pointer_target octs pos = unat (octs ! (pos + 1)) + unat (octs ! pos) mod 64 * 256"

text \<open>
  The labels of the name at a position of a message: labels up to the root label, where a pointer
  stands for the name at the earlier position it gives.
\<close>

inductive name_at :: "octets \<Rightarrow> nat \<Rightarrow> label list \<Rightarrow> bool" for octs where
  root: "pos < length octs \<Longrightarrow> octs ! pos = 0 \<Longrightarrow> name_at octs pos [[]]"
| label: "pos < length octs \<Longrightarrow> 0 < unat (octs ! pos) \<Longrightarrow> unat (octs ! pos) \<le> 63 \<Longrightarrow>
    pos + 1 + unat (octs ! pos) \<le> length octs \<Longrightarrow>
    l = take (unat (octs ! pos)) (drop (pos + 1) octs) \<Longrightarrow>
    name_at octs (pos + 1 + unat (octs ! pos)) ls \<Longrightarrow> name_at octs pos (l # ls)"
| pointer: "pos + 1 < length octs \<Longrightarrow> 192 \<le> unat (octs ! pos) \<Longrightarrow> pointer_target octs pos < pos \<Longrightarrow>
    name_at octs (pointer_target octs pos) ls \<Longrightarrow> name_at octs pos ls"

lemma name_at_abs: "name_at octs pos ls \<Longrightarrow> abs_labels ls"
proof (induction rule: name_at.induct)
  case (label pos l ls)
  then have "length l = unat (octs ! pos)" by simp
  with label show ?case by (auto simp: abs_labels_Cons valid_label_def LABEL_MAX_LEN_def)
qed (simp_all add: abs_labels_Cons)

lemma name_at_not_Nil: "name_at octs pos ls \<Longrightarrow> ls \<noteq> []"
  using name_at_abs by fastforce

lemma name_at_mono: "name_at octs pos ls \<Longrightarrow> name_at (octs @ xs) pos ls"
proof (induction rule: name_at.induct)
  case (root pos)
  then show ?case by - (rule name_at.root, simp_all add: nth_append)
next
  case (label pos l ls)
  have at: "(octs @ xs) ! pos = octs ! pos" using label.hyps(1) by (simp add: nth_append)
  have l: "l = take (unat (octs ! pos)) (drop (pos + 1) (octs @ xs))"
    using label.hyps(4) by (simp add: label.hyps(5))
  show ?case
    by (rule name_at.label [of pos "octs @ xs", unfolded at]) (use label.hyps(1-4) label.IH l in simp_all)
next
  case (pointer pos ls)
  then have "pointer_target (octs @ xs) pos = pointer_target octs pos"
    by (simp add: pointer_target_def nth_append)
  then show ?case
    by - (rule name_at.pointer, use pointer in \<open>simp_all add: nth_append\<close>)
qed

lemma name_at_take: "name_at (take n octs) pos ls \<Longrightarrow> name_at octs pos ls"
  using name_at_mono [of "take n octs" pos ls "drop n octs"] by simp

text \<open>An uncompressed name is a name at its position.\<close>

lemma name_at_wire:
  "rel_labels ls \<Longrightarrow> name_at (pre @ wire ls @ 0 # post) (length pre) (ls @ [[]])"
proof (induction ls arbitrary: pre)
  case Nil
  then show ?case by (simp add: name_at.root)
next
  case (Cons l ls)
  have n: "unat (of_nat (length l) :: octet) = length l"
    using Cons.prems by (simp add: valid_label_def LABEL_MAX_LEN_def unat_of_nat_label)
  have "name_at ((pre @ wire_label l) @ wire ls @ 0 # post) (length (pre @ wire_label l)) (ls @ [[]])"
    using Cons.prems by (intro Cons.IH) simp
  with Cons.prems n show ?case
    using name_at.label [of "length pre" "pre @ wire (l # ls) @ 0 # post" l "ls @ [[]]"]
    by (simp add: wire_label_def nth_append valid_label_def LABEL_MAX_LEN_def)
qed

section \<open>Iterating\<close>

lemma label_compose_len_valid:
  assumes "valid_label l"
  shows "label_compose_len l = Ok (of_nat (length l) + 1)"
    and "unat (of_nat (length l) + 1 :: u16) = Suc (length l)"
  using assms by (simp_all add: label_compose_len_def valid_label_def LABEL_MAX_LEN_def unat_word_ariths unat_of_nat)

lemma get_label_loop_at:
  "name_at octs pos ls \<Longrightarrow> \<exists>s e. get_label_loop octs pos = Some (Ok (s, e)) \<and> e \<le> length octs \<and>
     drop s (take e octs) = hd ls \<and> (tl ls \<noteq> [] \<longrightarrow> name_at octs e (tl ls))"
proof (induction rule: name_at.induct)
  case (root pos)
  then show ?case by (intro exI [of _ "pos + 1"]) (simp add: get_label_loop.simps)
next
  case (label pos l ls)
  then show ?case
    by (intro exI [of _ "pos + 1"] exI [of _ "pos + 1 + unat (octs ! pos)"])
      (simp add: get_label_loop.simps [of octs pos] word_le_nat_alt drop_take)
next
  case (pointer pos ls)
  then have "get_label_loop octs pos = get_label_loop octs (pointer_target octs pos)"
    by (subst get_label_loop.simps)
      (simp add: word_le_nat_alt pointer_nat pointer_target_def Let_def del: push_bit_and)
  with pointer.IH show ?case by simp
qed

definition iter_at :: "parsed_iter \<Rightarrow> label list \<Rightarrow> bool" where
  "iter_at it ls \<longleftrightarrow> pi_len it = length (wire ls) \<and> list_all valid_label ls \<and>
     (ls \<noteq> [] \<longrightarrow> (\<exists>ms. name_at (pi_slice it) (pi_pos it) (ls @ ms)))"

lemma parsed_get_label_at:
  assumes "iter_at it (l # ls)"
  obtains it' where "parsed_get_label it = Some (Ok (l, it'))" "iter_at it' ls"
proof -
  from assms obtain ms where at: "name_at (pi_slice it) (pi_pos it) (l # ls @ ms)"
    and len: "pi_len it = Suc (length l) + length (wire ls)" and v: "valid_label l" "list_all valid_label ls"
    by (auto simp: iter_at_def)
  from get_label_loop_at [OF at] obtain s e where gl: "get_label_loop (pi_slice it) (pi_pos it) = Some (Ok (s, e))"
    and e: "e \<le> length (pi_slice it)" "drop s (take e (pi_slice it)) = l"
    and rest: "ls @ ms \<noteq> [] \<Longrightarrow> name_at (pi_slice it) e (ls @ ms)" by auto
  note clen = label_compose_len_valid [OF v(1)]
  have "parsed_get_label it = Some (Ok (l, it\<lparr>pi_pos := e, pi_len := length (wire ls)\<rparr>))"
    using gl e len by (simp add: parsed_get_label_def Let_def clen)
  moreover have "iter_at (it\<lparr>pi_pos := e, pi_len := length (wire ls)\<rparr>) ls"
    using v rest by (auto simp: iter_at_def)
  ultimately show thesis by (rule that)
qed

lemma parsed_labels_at: "iter_at it ls \<Longrightarrow> parsed_labels it = Some (Ok ls)"
proof (induction ls arbitrary: it)
  case Nil
  then show ?case by (simp add: parsed_labels.simps parsed_iter_next_def iter_at_def)
next
  case (Cons l ls)
  obtain it' where "parsed_get_label it = Some (Ok (l, it'))" "iter_at it' ls"
    by (rule parsed_get_label_at [OF Cons.prems])
  moreover have "pi_len it \<noteq> 0" using Cons.prems by (simp add: iter_at_def)
  ultimately show ?case
    using Cons.IH by (simp add: parsed_labels.simps [of it] parsed_iter_next_def)
qed

lemma parsed_back_loop_at: "iter_at it ls \<Longrightarrow> ls \<noteq> [] \<Longrightarrow> parsed_back_loop it = Some (Ok (last ls))"
proof (induction ls arbitrary: it)
  case (Cons l ls)
  obtain it' where it': "parsed_get_label it = Some (Ok (l, it'))" "iter_at it' ls"
    by (rule parsed_get_label_at [OF Cons.prems(1)])
  then have "pi_len it' = 0 \<longleftrightarrow> ls = []" by (cases ls) (auto simp: iter_at_def)
  with it' Cons.IH show ?case by (simp add: parsed_back_loop.simps [of it])
qed simp

lemma parsed_labels_back_at: "iter_at it ls \<Longrightarrow> parsed_labels_back it = Some (Ok (rev ls))"
proof (induction ls arbitrary: it rule: rev_induct)
  case Nil
  then show ?case by (simp add: parsed_labels_back.simps parsed_iter_next_back_def iter_at_def)
next
  case (snoc l ls)
  have len: "pi_len it = length (wire ls) + Suc (length l)" and v: "valid_label l" "list_all valid_label ls"
    using snoc.prems by (simp_all add: iter_at_def)
  note clen = label_compose_len_valid [OF v(1)]
  have "parsed_back_loop it = Some (Ok l)" using parsed_back_loop_at [OF snoc.prems] by simp
  then have next': "parsed_iter_next_back it = Some (Ok (Some l, it\<lparr>pi_len := length (wire ls)\<rparr>))"
    using len by (simp add: parsed_iter_next_back_def clen)
  have "iter_at (it\<lparr>pi_len := length (wire ls)\<rparr>) ls"
    using snoc.prems v by (auto simp: iter_at_def)
  from snoc.IH [OF this] next' show ?case by (simp add: parsed_labels_back.simps [of it])
qed

lemma name_at_at_root:
  assumes "pos < length octs" "octs ! pos = 0"
  shows "name_at octs pos ls \<longleftrightarrow> ls = [[]]"
  using assms by (subst name_at.simps) auto

lemma name_at_at_label:
  assumes "pos < length octs" "0 < unat (octs ! pos)" "unat (octs ! pos) \<le> 63"
  shows "name_at octs pos ls \<longleftrightarrow> pos + 1 + unat (octs ! pos) \<le> length octs \<and>
    (\<exists>ms. ls = take (unat (octs ! pos)) (drop (pos + 1) octs) # ms \<and> name_at octs (pos + 1 + unat (octs ! pos)) ms)"
  using assms by (subst name_at.simps) auto

lemma name_at_at_pointer:
  assumes "pos < length octs" "192 \<le> unat (octs ! pos)"
  shows "name_at octs pos ls \<longleftrightarrow> pos + 1 < length octs \<and> pointer_target octs pos < pos \<and>
    name_at octs (pointer_target octs pos) ls"
  using assms by (subst name_at.simps) auto

lemma name_at_at_end: "length octs \<le> pos \<Longrightarrow> \<not> name_at octs pos ls"
  by (subst name_at.simps) auto

lemma name_at_at_bad: "63 < unat (octs ! pos) \<Longrightarrow> unat (octs ! pos) < 192 \<Longrightarrow> \<not> name_at octs pos ls"
  by (subst name_at.simps) auto

lemma name_at_length: "name_at octs pos ls \<Longrightarrow> 1 \<le> length (wire ls)"
  using name_at_not_Nil by (cases ls) auto

section \<open>Parsing\<close>

text \<open>The octets that a parser may look at.\<close>

definition p_data :: "parser \<Rightarrow> octets" where
  "p_data p = take (p_len p) (p_octets p)"

lemma p_data_simps [simp]:
  "p_data (p_forward p k) = p_data p" "p_data (p\<lparr>p_pos := k\<rparr>) = p_data p"
  by (simp_all add: p_data_def p_forward_def)

lemma p_data_length [simp]: "parser_wf p \<Longrightarrow> length (p_data p) = p_len p"
  by (simp add: p_data_def parser_wf_def)

definition pn_is :: "parsed_name \<Rightarrow> label list \<Rightarrow> bool" where
  "pn_is pn ls \<longleftrightarrow> name_at (pn_octets pn) (pn_pos pn) ls \<and> pn_name_len pn = length (wire ls) \<and>
     length (wire ls) \<le> 255 \<and>
     (\<not> pn_compressed pn \<longrightarrow> pn_pos pn + length (wire ls) \<le> length (pn_octets pn) \<and>
        take (length (wire ls)) (drop (pn_pos pn) (pn_octets pn)) = wire ls)"

text \<open>The number of octets that a name takes at its position: up to the root label or the first pointer.\<close>

inductive name_span :: "octets \<Rightarrow> nat \<Rightarrow> nat \<Rightarrow> bool" for octs where
  span_root: "pos < length octs \<Longrightarrow> octs ! pos = 0 \<Longrightarrow> name_span octs pos 1"
| span_label: "0 < unat (octs ! pos) \<Longrightarrow> unat (octs ! pos) \<le> 63 \<Longrightarrow>
    name_span octs (pos + 1 + unat (octs ! pos)) k \<Longrightarrow> name_span octs pos (1 + unat (octs ! pos) + k)"
| span_pointer: "pos + 1 < length octs \<Longrightarrow> 192 \<le> unat (octs ! pos) \<Longrightarrow> name_span octs pos 2"

text \<open>What the loops keep: the labels read so far.\<close>

definition reading :: "parser \<Rightarrow> nat \<Rightarrow> nat \<Rightarrow> bool \<Rightarrow> label list \<Rightarrow> bool" where
  "reading p n pos c ps \<longleftrightarrow> parser_wf p \<and> rel_labels ps \<and> n = length (wire ps) \<and> n < 255 \<and>
     (\<forall>ls. name_at (p_data p) (p_pos p) ls \<longrightarrow> name_at (p_data p) pos (ps @ ls)) \<and>
     (\<not> c \<longrightarrow> p_pos p = pos + n \<and> take n (drop pos (p_data p)) = wire ps)"

lemma reading_root:
  assumes "reading p n pos c ps" "p_pos p < p_len p" "p_data p ! p_pos p = 0"
  shows "pn_is \<lparr>pn_octets = p_octets p, pn_pos = pos, pn_name_len = n + 1, pn_compressed = c\<rparr> (ps @ [[]])"
proof -
  have wf: "parser_wf p" using assms(1) by (simp add: reading_def)
  have "name_at (p_data p) (p_pos p) [[]]" using assms(2,3) wf by (simp add: name_at.root)
  then have at: "name_at (p_octets p) pos (ps @ [[]])"
    using assms(1) by (auto simp: reading_def p_data_def intro: name_at_take)
  have "p_pos p < length (p_octets p)" "p_octets p ! p_pos p = 0"
    using assms(2,3) wf by (simp_all add: p_data_def parser_wf_def)
  moreover have "take n (drop pos (p_octets p)) = wire ps" if "\<not> c"
  proof -
    have "pos + n = p_pos p" "take n (drop pos (p_data p)) = wire ps" using assms(1) that by (auto simp: reading_def)
    then show ?thesis using assms(2) by (simp add: p_data_def drop_take)
  qed
  ultimately show ?thesis
    using assms(1) at by (auto simp: pn_is_def reading_def wire_label_def take_Suc_conv_app_nth)
qed

lemma reading_label:
  assumes r: "reading p n pos c ps" and q: "p_pos p < p_len p"
    and len: "len = unat (p_data p ! p_pos p)" "0 < len" "len \<le> 63"
    and short: "p_pos p + 1 + len \<le> p_len p" "n + len + 1 < 255"
    and l: "l = take len (drop (p_pos p + 1) (p_data p))"
  shows "reading (p_forward p (Suc len)) (n + len + 1) pos c (ps @ [l])"
proof -
  have wf: "parser_wf p" using r by (simp add: reading_def)
  have ll: "length l = len" using short(1) wf l by simp
  have v: "valid_label l" "l \<noteq> []" using ll len by (auto simp: valid_label_def LABEL_MAX_LEN_def)
  have lw: "wire_label l = take (Suc len) (drop (p_pos p) (p_data p))"
    using q wf by (simp add: wire_label_def ll Cons_nth_drop_Suc [symmetric, of "p_pos p"]) (simp add: l len)
  have "name_at (p_data p) (p_pos p) (l # ls)" if "name_at (p_data p) (p_pos p + 1 + len) ls" for ls
    unfolding len(1) by (rule name_at.label) (use that len q wf short l in simp_all)
  moreover have "take (n + Suc len) (drop pos (p_data p)) = wire (ps @ [l])" if "\<not> c"
  proof -
    have "p_pos p = pos + n" "take n (drop pos (p_data p)) = wire ps" using r that by (auto simp: reading_def)
    then show ?thesis using take_add [of n "Suc len" "drop pos (p_data p)"] by (simp add: lw add.commute)
  qed
  ultimately show ?thesis
    using r v ll short wf by (auto simp: reading_def parser_wf_def p_forward_def)
qed

lemma reading_pointer:
  assumes "reading p n pos c ps" "p_pos p < p_len p" "192 \<le> unat (p_data p ! p_pos p)" "p_pos p + 1 < p_len p"
    "pointer_target (p_data p) (p_pos p) = ptr" "ptr < p_pos p"
  shows "reading (p\<lparr>p_pos := ptr\<rparr>) n (if n = 0 then ptr else pos) (n \<noteq> 0) ps"
proof -
  have wf: "parser_wf p" using assms(1) by (simp add: reading_def)
  have "name_at (p_data p) (p_pos p) ls" if "name_at (p_data p) ptr ls" for ls
    by (rule name_at.pointer) (use that assms wf in simp_all)
  then show ?thesis
    using assms(1,2,6) by (cases ps) (auto simp: reading_def parser_wf_def)
qed

definition at_spec :: "octets \<Rightarrow> nat \<Rightarrow> nat \<Rightarrow> (label list \<Rightarrow> 'a \<Rightarrow> bool) \<Rightarrow> ('a, parse_error) result \<Rightarrow> bool" where
  "at_spec octs pos n Q r \<longleftrightarrow>
     (case r of
        Ok a \<Rightarrow> \<exists>ls. name_at octs pos ls \<and> n + length (wire ls) \<le> 255 \<and> Q ls a
      | Err _ \<Rightarrow> \<forall>ls. name_at octs pos ls \<longrightarrow> 255 < n + length (wire ls)
      | Panic \<Rightarrow> False)"

lemma at_spec_rmap:
  "at_spec octs pos n Q r \<Longrightarrow> (\<And>ls a. Q ls a \<Longrightarrow> Q' ls (f a)) \<Longrightarrow> at_spec octs pos n Q' (rmap f r)"
  by (cases r) (auto simp: at_spec_def)

text \<open>The cases of a loop that reads the next label.\<close>

lemma at_spec_step:
  fixes octs :: octets and pos :: nat
  defines "len \<equiv> unat (octs ! pos)"
  assumes "n < 255"
    and root: "pos < length octs \<Longrightarrow> len = 0 \<Longrightarrow> \<exists>a. r = Ok a \<and> Q [[]] a"
    and label: "\<lbrakk>pos < length octs; 0 < len; len \<le> 63; pos + 1 + len \<le> length octs; n + len + 1 < 255\<rbrakk> \<Longrightarrow>
      at_spec octs (pos + 1 + len) (n + len + 1) (\<lambda>ls. Q (take len (drop (pos + 1) octs) # ls)) r"
    and pointer: "\<lbrakk>pos + 1 < length octs; 192 \<le> len; pointer_target octs pos < pos\<rbrakk> \<Longrightarrow>
      at_spec octs (pointer_target octs pos) n Q r"
    and error: "\<lbrakk>pos < length octs \<Longrightarrow> len \<noteq> 0;
       pos < length octs \<Longrightarrow> len \<le> 63 \<Longrightarrow> pos + 1 + len \<le> length octs \<Longrightarrow> 255 \<le> n + len + 1;
       pos + 1 < length octs \<Longrightarrow> 192 \<le> len \<Longrightarrow> pos \<le> pointer_target octs pos\<rbrakk> \<Longrightarrow> \<exists>e. r = Err e"
  shows "at_spec octs pos n Q r"
proof -
  consider (root) "pos < length octs" "len = 0"
    | (label) "pos < length octs" "0 < len" "len \<le> 63" "pos + 1 + len \<le> length octs" "n + len + 1 < 255"
    | (pointer) "pos + 1 < length octs" "192 \<le> len" "pointer_target octs pos < pos"
    | (error) "pos < length octs \<Longrightarrow> len \<noteq> 0"
      "pos < length octs \<Longrightarrow> len \<le> 63 \<Longrightarrow> pos + 1 + len \<le> length octs \<Longrightarrow> 255 \<le> n + len + 1"
      "pos + 1 < length octs \<Longrightarrow> 192 \<le> len \<Longrightarrow> pos \<le> pointer_target octs pos" by linarith
  then show ?thesis
  proof cases
    case root
    with assms(2,3) show ?thesis by (auto simp: at_spec_def name_at_at_root len_def unat_eq_0)
  next
    case label
    then show ?thesis
      using assms(4) name_at_at_label [of pos octs]
      by (fastforce simp: at_spec_def len_def split: result.splits)
  next
    case pointer
    then show ?thesis
      using assms(5) name_at_at_pointer [of pos octs]
      by (fastforce simp: at_spec_def len_def split: result.splits)
  next
    case error
    have "255 < n + length (wire ls)" if "name_at octs pos ls" for ls
      using that
    proof (cases rule: name_at.cases)
      case (label l ls')
      with error(2) name_at_length [OF label(7)] show ?thesis by (simp add: len_def)
    qed (use error in \<open>simp_all add: len_def\<close>)
    with error assms(6) show ?thesis by (fastforce simp: at_spec_def)
  qed
qed

context octseq_parser
begin

lemma label_type_parse_at:
  assumes "parser_wf p"
  shows "label_type_parse P p =
    (if p_len p \<le> p_pos p then Err (parse_error_from_short ShortInput)
     else if unat (p_data p ! p_pos p) \<le> 63 then Ok (Normal (unat (p_data p ! p_pos p)), p_forward p 1)
     else if 192 \<le> unat (p_data p ! p_pos p) then
       (if p_len p \<le> p_pos p + 1 then Err (parse_error_from_short ShortInput)
        else Ok (Compressed (pointer_target (p_data p) (p_pos p)), p_forward p 2))
     else Err (Form ''invalid label type''))"
proof -
  have rest: "p_rest p = drop (p_pos p) (p_data p)" by (simp add: p_rest_def p_data_def)
  have "p_rest p ! i = p_data p ! (p_pos p + i)" for i using assms by (simp add: rest parser_wf_def)
  then have hd: "i < p_remaining p \<Longrightarrow> hd (drop i (p_rest p)) = p_data p ! (p_pos p + i)" for i
    using length_p_rest [OF assms] by (simp add: hd_drop_conv_nth)
  show ?thesis
    using hd [of 0] hd [of 1]
    by (auto simp: label_type_parse_def ps_laws word_le_nat_alt p_remaining_def pointer_nat pointer_target_def
        simp del: push_bit_and split: if_splits)
qed

lemma rank_less: "a < b \<Longrightarrow> x < m \<Longrightarrow> a * m + x < b * (m :: nat)"
  by (metis Suc_leI add.commute add_less_cancel_right less_le_trans mult_Suc mult_le_mono1)

lemma fuel_less: "a < b \<Longrightarrow> 2 * (b + x) < Suc f \<Longrightarrow> 2 * a < (f :: nat)"
  by auto

lemma phase_two_labels_spec:
  assumes "reading p n pos c ps" "2 * ((255 - n) * Suc (p_len p) + p_pos p) < fuel"
  shows "at_spec (p_data p) (p_pos p) n (\<lambda>ls pn. pn_is pn (ps @ ls)) (parsed_phase_two_labels P fuel p n pos c)"
  using assms
proof (induction fuel arbitrary: p n pos c ps rule: less_induct)
  case (less fuel)
  let ?q = "p_pos p" and ?len = "unat (p_data p ! p_pos p)" and ?ptr = "pointer_target (p_data p) (p_pos p)"
  let ?l = "take ?len (drop (?q + 1) (p_data p))"
  have wf: "parser_wf p" and n: "n < 255" using less.prems(1) by (simp_all add: reading_def)
  note [simp] = label_type_parse_at [OF wf] p_data_length [OF wf]
  have "1 * Suc (p_len p) \<le> (255 - n) * Suc (p_len p)" using n(1) by (intro mult_le_mono1) simp
  then obtain f f' where f: "fuel = Suc f" "f = Suc f'" using less.prems(2)
    by (cases fuel; cases "fuel - 1") auto
  show ?case
  proof (rule at_spec_step [OF n])
    assume a: "?q < length (p_data p)" "?len = 0"
    then have "p_data p ! ?q = 0" by (simp add: unat_eq_0)
    with a reading_root [OF less.prems(1)]
    show "\<exists>pn. parsed_phase_two_labels P fuel p n pos c = Ok pn \<and> pn_is pn (ps @ [[]])" by (simp add: f)
  next
    assume a: "?q < length (p_data p)" "0 < ?len" "?len \<le> 63" "?q + 1 + ?len \<le> length (p_data p)" "n + ?len + 1 < 255"
    have r: "reading (p_forward p (Suc ?len)) (n + ?len + 1) pos c (ps @ [?l])"
      by (rule reading_label [OF less.prems(1)]) (use a in simp_all)
    have "(255 - (n + ?len + 1)) * Suc (p_len p) + (?q + Suc ?len) < (255 - n) * Suc (p_len p)"
      by (rule rank_less) (use a in simp_all)
    then have "2 * ((255 - (n + ?len + 1)) * Suc (p_len p) + (?q + Suc ?len)) < f"
      by (rule fuel_less) (use less.prems(2) f(1) in simp)
    moreover have "\<not> p_remaining (p_forward p 1) < ?len" using a by (simp add: p_remaining_def)
    ultimately show "at_spec (p_data p) (?q + 1 + ?len) (n + ?len + 1) (\<lambda>ls pn. pn_is pn (ps @ ?l # ls))
        (parsed_phase_two_labels P fuel p n pos c)"
      using less.IH [OF _ r, of f] a by (simp add: f(1) ps_advance)
  next
    assume a: "?q + 1 < length (p_data p)" "192 \<le> ?len" "?ptr < ?q"
    then have r: "reading (p\<lparr>p_pos := ?ptr\<rparr>) n (if n = 0 then ?ptr else pos) (n \<noteq> 0) ps"
      using reading_pointer [OF less.prems(1)] by simp
    show "at_spec (p_data p) ?ptr n (\<lambda>ls pn. pn_is pn (ps @ ls)) (parsed_phase_two_labels P fuel p n pos c)"
      using less.IH [OF _ r, of f'] less.prems(2) a by (cases "n = 0") (simp_all add: f ps_seek p_forward_def)
  qed (auto simp: f ps_advance p_remaining_def not_le)
qed

lemmas phase_two_fuel = parsed_phase_two.simps(2) [of P "511 + 512 * m" for m, simplified]

lemma phase_one_spec:
  assumes "reading p n pos False ps" "255 - n < fuel"
  shows "at_spec (p_data p) (p_pos p) n
    (\<lambda>ls (pn, p'). pn_is pn (ps @ ls) \<and> (\<exists>k. name_span (p_data p) (p_pos p) k \<and> p' = p_forward p k))
    (parsed_phase_one P fuel p n pos)"
  using assms
proof (induction fuel arbitrary: p n ps)
  case (Suc fuel)
  let ?q = "p_pos p" and ?len = "unat (p_data p ! p_pos p)" and ?ptr = "pointer_target (p_data p) (p_pos p)"
  let ?l = "take ?len (drop (?q + 1) (p_data p))"
  have wf: "parser_wf p" and n: "n < 255" using Suc.prems(1) by (simp_all add: reading_def)
  note [simp] = label_type_parse_at [OF wf] p_data_length [OF wf]
  show ?case
  proof (rule at_spec_step [OF n])
    assume a: "?q < length (p_data p)" "?len = 0"
    then have z: "p_data p ! ?q = 0" by (simp add: unat_eq_0)
    from a reading_root [OF Suc.prems(1) _ z] name_span.span_root [OF a(1) z]
    show "\<exists>r. parsed_phase_one P (Suc fuel) p n pos = Ok r \<and>
        (case r of (pn, p') \<Rightarrow> pn_is pn (ps @ [[]]) \<and> (\<exists>k. name_span (p_data p) ?q k \<and> p' = p_forward p k))"
      by auto
  next
    assume a: "?q < length (p_data p)" "0 < ?len" "?len \<le> 63" "?q + 1 + ?len \<le> length (p_data p)" "n + ?len + 1 < 255"
    have r: "reading (p_forward p (Suc ?len)) (n + ?len + 1) pos False (ps @ [?l])"
      by (rule reading_label [OF Suc.prems(1)]) (use a in simp_all)
    from a(5) Suc.prems(2) have "255 - (n + ?len + 1) < fuel" by linarith
    from Suc.IH [OF r this] name_span.span_label [OF a(2,3)] a
    show "at_spec (p_data p) (?q + 1 + ?len) (n + ?len + 1)
        (\<lambda>ls (pn, p'). pn_is pn (ps @ ?l # ls) \<and> (\<exists>k. name_span (p_data p) ?q k \<and> p' = p_forward p k))
        (parsed_phase_one P (Suc fuel) p n pos)"
      by (fastforce simp: ps_advance p_remaining_def at_spec_def split: result.splits)
  next
    assume a: "?q + 1 < length (p_data p)" "192 \<le> ?len" "?ptr < ?q"
    then have r: "reading (p\<lparr>p_pos := ?ptr\<rparr>) n (if n = 0 then ?ptr else pos) (n \<noteq> 0) ps"
      using reading_pointer [OF Suc.prems(1)] by simp
    have "(255 - n) * Suc (p_len p) \<le> 255 * Suc (p_len p)" by (intro mult_le_mono1) simp
    then have "2 * ((255 - n) * Suc (p_len p) + ?ptr) < 511 + 512 * p_len p" using a by simp
    with phase_two_labels_spec [OF r]
    have spec: "at_spec (p_data p) ?ptr n (\<lambda>ls pn. pn_is pn (ps @ ls))
        (parsed_phase_two_labels P (511 + 512 * p_len p) (p\<lparr>p_pos := ?ptr\<rparr>) n (if n = 0 then ?ptr else pos) (n \<noteq> 0))"
      by simp
    have eq: "parsed_phase_one P (Suc fuel) p n pos = rmap (\<lambda>pn. (pn, p_forward p 2))
        (parsed_phase_two_labels P (511 + 512 * p_len p) (p\<lparr>p_pos := ?ptr\<rparr>) n (if n = 0 then ?ptr else pos) (n \<noteq> 0))"
      using a by (cases "n = 0") (simp_all add: phase_two_fuel ps_seek p_forward_def)
    show "at_spec (p_data p) ?ptr n
        (\<lambda>ls (pn, p'). pn_is pn (ps @ ls) \<and> (\<exists>k. name_span (p_data p) ?q k \<and> p' = p_forward p k))
        (parsed_phase_one P (Suc fuel) p n pos)"
      unfolding eq by (rule at_spec_rmap [OF spec]) (use name_span.span_pointer [OF a(1,2)] in auto)
  qed (auto simp: ps_advance p_remaining_def not_le phase_two_fuel)
qed simp

lemma parsed_name_parse_spec:
  assumes "parser_wf p"
  shows "at_spec (p_data p) (p_pos p) 0
    (\<lambda>ls (pn, p'). pn_is pn ls \<and> (\<exists>k. name_span (p_data p) (p_pos p) k \<and> p' = p_forward p k))
    (parsed_name_parse P p)"
proof -
  have "reading p 0 (p_pos p) False []" using assms by (simp add: reading_def)
  from phase_one_spec [OF this, of 256] show ?thesis by (simp add: parsed_name_parse_def)
qed

text \<open>\<open>skip\<close> moves over every name that \<open>parse\<close> accepts.\<close>

lemma phase_one_skip:
  "parsed_phase_one P fuel p n pos = Ok (pn, p') \<Longrightarrow> n < 255 \<Longrightarrow> parsed_skip_loop P fuel p n = Ok p'"
proof (induction fuel arbitrary: p n)
  case (Suc fuel)
  from Suc.prems(1) obtain lt q where lt: "label_type_parse P p = Ok (lt, q)"
    by (auto simp: rbind_Ok_iff)
  show ?case
  proof (cases lt)
    case (Normal len)
    with lt Suc show ?thesis by (auto simp: rbind_Ok_iff Let_def split: if_splits)
  next
    case (Compressed ptr)
    with lt Suc.prems show ?thesis by (auto simp: rmap_Ok_iff)
  qed
qed simp

lemma skip_loop_no_Panic: "parser_wf p \<Longrightarrow> 255 - n < fuel \<Longrightarrow> n \<le> 255 \<Longrightarrow> parsed_skip_loop P fuel p n \<noteq> Panic"
proof (induction fuel arbitrary: p n)
  case (Suc fuel)
  have "parsed_skip_loop P fuel (p_forward p (Suc len)) (Suc (n + len)) \<noteq> Panic"
    if "0 < len" "len \<le> p_remaining (p_forward p 1)" "Suc (n + len) \<le> 255" "p_pos p < p_len p" for len
    by (rule Suc.IH) (use that Suc.prems in \<open>auto simp: p_remaining_def parser_wf_def p_forward_def\<close>)
  then show ?case
    using Suc.prems(1) by (auto simp: label_type_parse_at ps_advance not_le not_less)
qed simp

end

section \<open>Well-formed parsed names\<close>

lemma pn_iter_at: "pn_is pn ls \<Longrightarrow> iter_at (pn_iter pn) ls"
  using name_at_abs [of "pn_octets pn" "pn_pos pn" ls] abs_labels_valid
  by (auto simp: pn_is_def iter_at_def pn_iter_def intro!: exI [of _ "[]"])

lemma pn_view_is:
  assumes "pn_is pn ls"
  shows "pn_view pn = \<lparr>lv_labels = ls, lv_back = rev ls, lv_compose_len = Ok (of_nat (length (wire ls))),
    lv_flat = (if pn_compressed pn then None else Some (wire ls))\<rparr>"
  using assms parsed_labels_at [OF pn_iter_at] parsed_labels_back_at [OF pn_iter_at]
  by (auto simp: pn_view_def labels_or_none_def pn_is_def pn_flat_def octets_range_def drop_take)

lemma pn_is_view_ok:
  assumes "pn_is pn ls"
  shows "view_ok (pn_view pn)" "abs_labels (lv_labels (pn_view pn))"
proof -
  have "abs_labels ls" "length (wire ls) \<le> 255" using assms name_at_abs by (auto simp: pn_is_def)
  then show "view_ok (pn_view pn)" "abs_labels (lv_labels (pn_view pn))"
    by (simp_all add: pn_view_is [OF assms] view_ok_def NAME_MAX_LEN_def abs_labels_valid)
qed

definition parsed_name_ok :: "parsed_name \<Rightarrow> bool" where
  "parsed_name_ok pn \<longleftrightarrow> (\<exists>ls. pn_is pn ls)"

definition pn_labels :: "parsed_name \<Rightarrow> label list" where
  "pn_labels pn = labels_or_none (parsed_labels (pn_iter pn))"

lemma pn_labels_is: "pn_is pn ls \<Longrightarrow> pn_labels pn = ls"
  by (simp add: pn_labels_def labels_or_none_def parsed_labels_at [OF pn_iter_at])

interpretation parsed_name_iter: to_label_iter pn_view parsed_name_ok pn_labels
proof unfold_locales
  fix pn
  assume "parsed_name_ok pn"
  then obtain ls where "pn_is pn ls" by (auto simp: parsed_name_ok_def)
  then show "view_ok (pn_view pn)" "lv_labels (pn_view pn) = pn_labels pn"
    by (simp_all only: pn_is_view_ok, simp add: pn_view_is pn_labels_is)
qed


context octseq_parser
begin

lemma label_type_peek_at:
  assumes "parser_wf p" "p_pos p < p_len p"
  shows "label_type_peek P p =
    (if unat (p_data p ! p_pos p) \<le> 63 then Ok (Normal (unat (p_data p ! p_pos p)))
     else if 192 \<le> unat (p_data p ! p_pos p) then
       (if p_len p \<le> p_pos p + 1 then Err (parse_error_from_short ShortInput)
        else Ok (Compressed (pointer_target (p_data p) (p_pos p))))
     else Err (Form ''invalid label type''))"
proof -
  have "p_rest p = drop (p_pos p) (p_data p)" by (simp add: p_rest_def p_data_def)
  then have "p_rest p ! i = p_data p ! (p_pos p + i)" for i using assms by (simp add: parser_wf_def)
  from this [of 0] this [of 1] show ?thesis
    using assms
    by (auto simp: label_type_peek_def ps_laws word_le_nat_alt p_remaining_def pointer_nat pointer_target_def
        Let_def simp del: push_bit_and split: if_splits)
qed

lemma pn_first_label_at:
  assumes "name_at octs pos ls" "ls \<noteq> [[]]"
  shows "\<exists>q. pn_first_label P \<lparr>p_octets = octs, p_pos = pos, p_len = length octs\<rparr> =
      Some (Ok (\<lparr>p_octets = octs, p_pos = q, p_len = length octs\<rparr>, Suc (length (hd ls)))) \<and>
    q + Suc (length (hd ls)) \<le> length octs \<and> take (Suc (length (hd ls))) (drop q octs) = wire_label (hd ls) \<and>
    name_at octs (q + Suc (length (hd ls))) (tl ls) \<and> (unat (octs ! pos) \<le> 63 \<longrightarrow> q = pos)"
  using assms
proof (induction rule: name_at.induct)
  case (label pos l ls)
  then have len: "length l = unat (octs ! pos)" by simp
  have "take (Suc (length l)) (drop pos octs) = wire_label l"
    using label.hyps len by (simp add: wire_label_def Cons_nth_drop_Suc [symmetric, of pos])
  with label.hyps len show ?case
    by (intro exI [of _ pos])
      (simp add: pn_first_label.simps label_type_peek_at parser_wf_def p_data_def del: label.hyps(5))
next
  case (pointer pos ls)
  let ?p = "\<lparr>p_octets = octs, p_pos = pos, p_len = length octs\<rparr>"
  have "label_type_peek P ?p = Ok (Compressed (pointer_target octs pos))"
    using pointer.hyps by (simp add: label_type_peek_at parser_wf_def p_data_def)
  then have "pn_first_label P ?p = pn_first_label P (?p\<lparr>p_pos := pointer_target octs pos\<rparr>)"
    using pointer.hyps by (simp add: pn_first_label.simps [of P ?p] ps_seek)
  with pointer show ?case by auto
qed simp

lemma pn_parent_is:
  assumes "pn_is pn (l # ls)" "ls \<noteq> []"
  obtains pn' where "pn_parent P pn = Some (Ok (True, pn'))" "pn_is pn' ls"
    "pn_split_first P pn = Some (Ok (Some (wire_label l), pn'))"
proof -
  let ?p = "\<lparr>p_octets = pn_octets pn, p_pos = pn_pos pn, p_len = length (pn_octets pn)\<rparr>"
  from assms(1) have at: "name_at (pn_octets pn) (pn_pos pn) (l # ls)"
    and len: "pn_name_len pn = Suc (length l + length (wire ls))" "length (wire ls) + length l < 255" by (auto simp: pn_is_def)
  from pn_first_label_at [OF at] assms(2) obtain q where
    q: "pn_first_label P ?p = Some (Ok (?p\<lparr>p_pos := q\<rparr>, Suc (length l)))" "q + Suc (length l) \<le> length (pn_octets pn)"
      "take (Suc (length l)) (drop q (pn_octets pn)) = wire_label l"
      "name_at (pn_octets pn) (q + Suc (length l)) ls" "unat (pn_octets pn ! pn_pos pn) \<le> 63 \<Longrightarrow> q = pn_pos pn" by auto
  have "pn_pos pn < length (pn_octets pn)" using at by (cases rule: name_at.cases) auto
  then have p: "pn_parser P pn = (Ok ?p :: (parser, unit) result)"
    by (simp add: pn_parser_def ps_laws p_remaining_def p_forward_def)
  have pos: "pn_name_len pn \<noteq> 1" using len assms(2) by simp
  let ?pn = "pn\<lparr>pn_pos := q + Suc (length l), pn_name_len := length (wire ls)\<rparr>"
  show thesis
  proof
    show "pn_parent P pn = Some (Ok (True, ?pn))" using p pos q len by (simp add: pn_parent_def)
    show "pn_split_first P pn = Some (Ok (Some (wire_label l), ?pn))"
      using p pos q len by (simp add: pn_split_first_def octets_range_def drop_take)
    show "pn_is ?pn ls"
    proof (cases "pn_compressed pn")
      case False
      with assms(1) have flat: "pn_pos pn + Suc (length l + length (wire ls)) \<le> length (pn_octets pn)"
        "take (Suc (length l) + length (wire ls)) (drop (pn_pos pn) (pn_octets pn)) = wire_label l @ wire ls"
        by (simp_all add: pn_is_def)
      from flat(2) have w: "take (length (wire ls)) (drop (Suc (length l) + pn_pos pn) (pn_octets pn)) = wire ls"
        "take (Suc (length l)) (drop (pn_pos pn) (pn_octets pn)) = wire_label l"
        unfolding take_add using flat(1) by (simp_all add: append_eq_append_conv)
      then have "pn_octets pn ! pn_pos pn = of_nat (length l)"
        using flat(1) by (simp add: wire_label_def Cons_nth_drop_Suc [symmetric, of "pn_pos pn"])
      then have "q = pn_pos pn"
        using q(5) name_at_abs [OF at] by (auto simp: abs_labels_Cons valid_label_def LABEL_MAX_LEN_def unat_of_nat_label)
      with q(4) len flat w show ?thesis by (simp add: pn_is_def add.commute)
    qed (use q(4) len in \<open>simp add: pn_is_def\<close>)
  qed
qed

end

context octseq_parser
begin

lemma phase_one_wire:
  assumes "parser_wf p" "rel_labels ls" "p_rest p = wire ls @ 0 # post" "n + length (wire ls) < 255" "length ls < fuel"
  shows "parsed_phase_one P fuel p n pos =
    Ok (\<lparr>pn_octets = p_octets p, pn_pos = pos, pn_name_len = n + length (wire ls) + 1, pn_compressed = False\<rparr>,
      p_forward p (length (wire ls) + 1))"
  using assms
proof (induction ls arbitrary: p n fuel)
  case Nil
  then have "label_type_parse P p = Ok (Normal 0, p_forward p 1)"
    using length_p_rest [OF Nil.prems(1)] by (simp add: label_type_parse_def ps_laws)
  with Nil.prems(5) show ?case by (cases fuel) simp_all
next
  case (Cons l ls)
  obtain f where f: "fuel = Suc f" "length ls < f" using Cons.prems(5) by (cases fuel) auto
  have l: "length l \<le> 63" "l \<noteq> []" using Cons.prems(2) by (simp_all add: valid_label_def LABEL_MAX_LEN_def)
  have rem: "Suc (length l) \<le> p_remaining p"
    using length_p_rest [OF Cons.prems(1)] Cons.prems(3) by simp
  have "label_type_parse P p = Ok (Normal (length l), p_forward p 1)"
    using rem l Cons.prems(3)
    by (simp add: label_type_parse_def ps_laws wire_label_def word_le_nat_alt unat_of_nat_label)
  then have "parsed_phase_one P fuel p n pos = parsed_phase_one P f (p_forward p (Suc (length l))) (n + length l + 1) pos"
    using l rem Cons.prems(4) by (auto simp: f ps_laws)
  also have "\<dots> = Ok (\<lparr>pn_octets = p_octets p, pn_pos = pos,
      pn_name_len = n + length l + 1 + length (wire ls) + 1, pn_compressed = False\<rparr>,
      p_forward p (Suc (length l) + (length (wire ls) + 1)))"
    by (subst Cons.IH) (use Cons.prems rem f in \<open>simp_all add: wire_label_def\<close>)
  finally show ?case by (simp add: add_ac)
qed

end

text \<open>The name \<open>b.a.\<close> whose last labels are a pointer.\<close>

definition example_pn :: parsed_name where
  "example_pn = \<lparr>pn_octets = [1, 97, 0, 1, 98, 192, 0], pn_pos = 3, pn_name_len = 5, pn_compressed = True\<rparr>"

lemma example_pn_is: "pn_is example_pn [[98], [97], []]"
proof -
  let ?o = "[1, 97, 0, 1, 98, 192, 0] :: octets"
  have "name_at ?o 2 [[]]" by (rule name_at.root) simp_all
  then have "name_at ?o 0 [[97], []]" using name_at.label [of 0 ?o "[97]" "[[]]"] by (simp add: numeral_eq_Suc)
  then have "name_at ?o 5 [[97], []]"
    using name_at.pointer [of 5 ?o "[[97], []]"] by (simp add: pointer_target_def)
  then have "name_at ?o 3 [[98], [97], []]" using name_at.label [of 3 ?o "[98]" "[[97], []]"] by simp
  then show ?thesis by (simp add: pn_is_def example_pn_def)
qed

section \<open>Properties\<close>

text \<open>
  C1.  \<open>ParsedName::parse\<close>, for every parser that satisfies the \<open>octseq\<close> contract, on arbitrary input:
  it terminates and does not panic, pointer loops included.  It succeeds exactly when there is a name of at most
  255 octets at the position of the parser, whose pointers all point backwards.  What it returns is a
  well-formed parsed name with the labels of that name, and the parser is moved to behind the root
  label or the first pointer.
\<close>

theorem parsed_name_parse_correct:
  assumes "octseq_parser P" "parser_wf p"
  shows "case parsed_name_parse P p of
      Ok (pn, p') \<Rightarrow> \<exists>ls k. name_at (p_data p) (p_pos p) ls \<and> pn_is pn ls \<and>
        name_span (p_data p) (p_pos p) k \<and> p' = p_forward p k
    | Err _ \<Rightarrow> \<nexists>ls. name_at (p_data p) (p_pos p) ls \<and> length (wire ls) \<le> 255
    | Panic \<Rightarrow> False"
  using octseq_parser.parsed_name_parse_spec [OF assms]
  by (force simp: at_spec_def split: result.splits prod.splits)

theorem parsed_name_parse_correct_witness:
  "case parsed_name_parse slice_parser \<lparr>p_octets = pn_octets example_pn, p_pos = 3, p_len = 7\<rparr> of
      Ok (pn, p') \<Rightarrow> \<exists>ls k.
        name_at (p_data \<lparr>p_octets = pn_octets example_pn, p_pos = 3, p_len = 7\<rparr>)
          (p_pos \<lparr>p_octets = pn_octets example_pn, p_pos = 3, p_len = 7\<rparr>) ls \<and> pn_is pn ls \<and>
        name_span (p_data \<lparr>p_octets = pn_octets example_pn, p_pos = 3, p_len = 7\<rparr>)
          (p_pos \<lparr>p_octets = pn_octets example_pn, p_pos = 3, p_len = 7\<rparr>) k \<and>
        p' = p_forward \<lparr>p_octets = pn_octets example_pn, p_pos = 3, p_len = 7\<rparr> k
    | Err _ \<Rightarrow> \<nexists>ls. name_at (p_data \<lparr>p_octets = pn_octets example_pn, p_pos = 3, p_len = 7\<rparr>)
        (p_pos \<lparr>p_octets = pn_octets example_pn, p_pos = 3, p_len = 7\<rparr>) ls \<and> length (wire ls) \<le> 255
    | Panic \<Rightarrow> False"
  by (rule parsed_name_parse_correct [OF slice_parser.octseq_parser_axioms])
    (simp add: parser_wf_def example_pn_def)

text \<open>
  C20.  Iterating over a well-formed parsed name from either end returns, without a panic, and gives its
  labels in order and in reverse; the name offers the view of a name that comparing and composing rely on.
\<close>

theorem parsed_name_iter_double_ended:
  assumes "pn_is pn ls"
  shows "parsed_labels (pn_iter pn) = Some (Ok ls) \<and> parsed_labels_back (pn_iter pn) = Some (Ok (rev ls)) \<and>
    view_ok (pn_view pn) \<and> abs_labels ls"
  using parsed_labels_at [OF pn_iter_at] parsed_labels_back_at [OF pn_iter_at] pn_is_view_ok [OF assms] assms
  by (simp add: pn_view_is)

theorem parsed_name_iter_double_ended_witness:
  "parsed_labels (pn_iter example_pn) = Some (Ok [[98], [97], []]) \<and>
   parsed_labels_back (pn_iter example_pn) = Some (Ok (rev [[98], [97], []])) \<and>
   view_ok (pn_view example_pn) \<and> abs_labels [[98], [97], []]"
  by (rule parsed_name_iter_double_ended [OF example_pn_is])

text \<open>
  C25.  \<open>parent\<close> and \<open>split_first\<close> of a well-formed parsed name return, without a panic.  They leave the root name as it is;
  every other name becomes the well-formed name without its first label, which \<open>split_first\<close> returns.
\<close>

theorem parsed_name_parent_correct:
  assumes "octseq_parser P" "pn_is pn (l # ls)"
  shows "if ls = []
    then pn_parent P pn = Some (Ok (False, pn)) \<and> pn_split_first P pn = Some (Ok (None, pn))
    else \<exists>pn'. pn_is pn' ls \<and> pn_parent P pn = Some (Ok (True, pn')) \<and>
      pn_split_first P pn = Some (Ok (Some (wire_label l), pn'))"
proof (cases "ls = []")
  case True
  then have "l = []" using assms(2) name_at_abs by (fastforce simp: pn_is_def abs_labels_Cons)
  with True assms(2) show ?thesis by (simp add: pn_is_def pn_parent_def pn_split_first_def)
next
  case False
  with octseq_parser.pn_parent_is [OF assms False] show ?thesis by auto
qed

theorem parsed_name_parent_correct_witness:
  "\<exists>pn'. pn_is pn' [[97], []] \<and> pn_parent slice_parser example_pn = Some (Ok (True, pn')) \<and>
     pn_split_first slice_parser example_pn = Some (Ok (Some (wire_label [98]), pn'))"
  using parsed_name_parent_correct [OF slice_parser.octseq_parser_axioms example_pn_is] by simp

text \<open>
  C26.  \<open>ParsedName::skip\<close> does not panic, and it moves over every name that \<open>ParsedName::parse\<close> accepts, to the same position.
\<close>

theorem parsed_name_skip_correct:
  assumes "octseq_parser P" "parser_wf p"
  shows "parsed_name_skip P p \<noteq> Panic \<and>
    (parsed_name_parse P p = Ok (pn, p') \<longrightarrow> parsed_name_skip P p = Ok p')"
  using octseq_parser.skip_loop_no_Panic [OF assms(1,2), of 0 256] octseq_parser.phase_one_skip [OF assms(1)]
  by (auto simp: parsed_name_skip_def parsed_name_parse_def)

theorem parsed_name_skip_correct_witness:
  "parsed_name_skip slice_parser \<lparr>p_octets = pn_octets example_pn, p_pos = 3, p_len = 7\<rparr> =
     Ok \<lparr>p_octets = pn_octets example_pn, p_pos = 7, p_len = 7\<rparr>"
proof -
  have "parsed_name_parse slice_parser \<lparr>p_octets = pn_octets example_pn, p_pos = 3, p_len = 7\<rparr> =
      Ok (example_pn, \<lparr>p_octets = pn_octets example_pn, p_pos = 7, p_len = 7\<rparr>)"
    by code_simp
  moreover have "parser_wf \<lparr>p_octets = pn_octets example_pn, p_pos = 3, p_len = 7\<rparr>"
    by (simp add: parser_wf_def example_pn_def)
  ultimately show ?thesis using parsed_name_skip_correct [OF slice_parser.octseq_parser_axioms] by blast
qed

text \<open>
  On a name without pointers \<open>ParsedName::parse\<close> agrees with \<open>Name::parse\<close>: it accepts it too,
  moves as far, and its flat octets are the same name.
\<close>

theorem parsed_name_parse_uncompressed:
  assumes "octseq_parser P" "parser_wf p" "name_parse P p = Ok (n, p')"
  shows "\<exists>pn. parsed_name_parse P p = Ok (pn, p') \<and> pn_flat pn = (Ok (Some n) :: (octets option, unit) result)"
proof -
  from octseq_parser.name_parse_iff [OF assms(1,2)] assms(3)
  have n: "name_ok n" "take (length n) (p_rest p) = n" "p' = p_forward p (length n)" by blast+
  then obtain ls where ls: "rel_labels ls" "n = wire ls @ [0]" "length (wire ls) < 255"
    by (auto elim!: name_okE simp: abs_labels_iff NAME_MAX_LEN_def wire_label_def)
  have rest: "p_rest p = wire ls @ 0 # drop (length n) (p_rest p)"
    using append_take_drop_id [of "length n" "p_rest p"] unfolding n(2) by (simp add: ls(2))
  have "length ls \<le> length (wire ls)" by (induction ls) simp_all
  then have "parsed_name_parse P p = Ok (\<lparr>pn_octets = p_octets p, pn_pos = p_pos p,
      pn_name_len = length n, pn_compressed = False\<rparr>, p')"
    using octseq_parser.phase_one_wire [OF assms(1,2) ls(1) rest, of 0 256 "p_pos p"] ls n(3)
    by (simp add: parsed_name_parse_def)
  moreover have "length n \<le> p_remaining p" using n(2) length_p_rest [OF assms(2)] by (metis length_take min.cobounded1)
  then have "p_pos p + length n \<le> length (p_octets p)" "take (length n) (drop (p_pos p) (p_octets p)) = n"
    using n(2) assms(2) by (auto simp: p_remaining_def parser_wf_def p_rest_def drop_take)
  ultimately show ?thesis by (simp add: pn_flat_def octets_range_def drop_take)
qed

theorem parsed_name_parse_uncompressed_witness:
  "\<exists>pn. parsed_name_parse slice_parser \<lparr>p_octets = [9, 1, 97, 0, 7], p_pos = 1, p_len = 5\<rparr> =
      Ok (pn, \<lparr>p_octets = [9, 1, 97, 0, 7], p_pos = 4, p_len = 5\<rparr>) \<and>
    pn_flat pn = (Ok (Some [1, 97, 0]) :: (octets option, unit) result)"
proof (rule parsed_name_parse_uncompressed [OF slice_parser.octseq_parser_axioms])
  show "name_parse slice_parser \<lparr>p_octets = [9, 1, 97, 0, 7], p_pos = 1, p_len = 5\<rparr> =
      Ok ([1, 97, 0], \<lparr>p_octets = [9, 1, 97, 0, 7], p_pos = 4, p_len = 5\<rparr>)"
    by code_simp
qed (simp add: parser_wf_def)

end
