(* ===== verification/Composer.thy ===== *)
theory Composer
  imports ParsedName
begin

text \<open>
  The trait \<open>Composer\<close> of \<^verbatim>\<open>src/base/wire.rs\<close>, a builder that may compress the names appended to
  it, and \<open>StreamTarget\<close> of \<^verbatim>\<open>src/base/message_builder.rs\<close>, which keeps the length of the message in
  front of it.
\<close>

section \<open>Composers\<close>

record 'b composer_ops =
  co_builder :: "'b builder_ops"
  co_append_name :: "label_view \<Rightarrow> 'b target_step"
  co_can_compress :: bool

abbreviation co_ref :: "'b composer_ops \<Rightarrow> 'b \<Rightarrow> octets" where
  "co_ref C \<equiv> bo_as_ref (co_builder C)"

text \<open>The provided methods of the trait: names are not compressed.\<close>

definition plain_composer :: "'b builder_ops \<Rightarrow> 'b composer_ops" where
  "plain_composer B = \<lparr>co_builder = B, co_append_name = name_compose B, co_can_compress = False\<rparr>"

section \<open>Stream targets\<close>

definition stream_update_shim :: "'b builder_ops \<Rightarrow> 'b target_step" where
  "stream_update_shim B t =
     (if length (bo_as_ref B t) < 2 then (Panic, t)
      else (let len = length (bo_as_ref B t) - 2 in
            if len < 2 ^ 16
            then (Ok (), bo_as_mut B t (to_be_bytes (of_nat len :: u16) @ drop 2 (bo_as_ref B t)))
            else (Err AppendError, t)))"

definition stream_new :: "'b builder_ops \<Rightarrow> 'b target_step" where
  "stream_new B t = compose_be B (0 :: u16) (bo_truncate B t 0)"

definition stream_as_stream_slice :: "'b builder_ops \<Rightarrow> 'b \<Rightarrow> octets" where
  "stream_as_stream_slice B t = bo_as_ref B t"

definition stream_as_dgram_slice :: "'b builder_ops \<Rightarrow> 'b \<Rightarrow> (octets, 'e) result" where
  "stream_as_dgram_slice B t = (if length (bo_as_ref B t) < 2 then Panic else Ok (drop 2 (bo_as_ref B t)))"

definition stream_append_slice :: "'b builder_ops \<Rightarrow> octets \<Rightarrow> 'b target_step" where
  "stream_append_slice B xs = then_compose (\<lambda>t. bo_append B t xs) (stream_update_shim B)"

definition stream_truncate :: "'b builder_ops \<Rightarrow> nat \<Rightarrow> ('b, unit, 'e) step" where
  "stream_truncate B len t =
     (case stream_update_shim B (bo_truncate B t (len + 2)) of
        (Ok u, t) \<Rightarrow> (Ok (), t)
      | (_, t) \<Rightarrow> (Panic, t))"

text \<open>
  A stream target as a builder: its content is what follows the length.  Truncating is the state that \<open>stream_truncate\<close>
  leads to.
\<close>

definition stream_builder :: "'b builder_ops \<Rightarrow> 'b builder_ops" where
  "stream_builder B = \<lparr>
     bo_empty = snd (stream_new B (bo_empty B)),
     bo_append = (\<lambda>t xs. stream_append_slice B xs t),
     bo_as_ref = (\<lambda>t. drop 2 (bo_as_ref B t)),
     bo_as_mut = (\<lambda>t xs. bo_as_mut B t (take 2 (bo_as_ref B t) @ xs)),
     bo_truncate = (\<lambda>t n. snd (stream_truncate B n t :: (unit, unit) result \<times> 'b))\<rparr>"

definition stream_append_compressed_name :: "'b composer_ops \<Rightarrow> label_view \<Rightarrow> 'b target_step" where
  "stream_append_compressed_name C name =
     then_compose (co_append_name C name) (stream_update_shim (co_builder C))"

definition stream_composer :: "'b composer_ops \<Rightarrow> 'b composer_ops" where
  "stream_composer C = \<lparr>co_builder = stream_builder (co_builder C),
     co_append_name = stream_append_compressed_name C, co_can_compress = False\<rparr>"

section \<open>Builders with an invariant\<close>

text \<open>
  The contract of a target whose states satisfy an invariant.  Every builder is one, for the trivial
  invariant; a stream target is one for states that have their length in front.
\<close>

locale append_on =
  fixes B :: "'b builder_ops" and J :: "'b \<Rightarrow> bool"
  assumes on_append: "J t \<Longrightarrow> bo_append B t xs = (r, t') \<Longrightarrow>
      J t' \<and> r \<noteq> Panic \<and> (\<exists>ys. bo_as_ref B t' = bo_as_ref B t @ ys) \<and>
      (\<forall>u. r = Ok u \<longrightarrow> bo_as_ref B t' = bo_as_ref B t @ xs)"

locale target_on = append_on B J for B :: "'b builder_ops" and J +
  assumes on_as_mut: "J t \<Longrightarrow> length xs = length (bo_as_ref B t) \<Longrightarrow>
      J (bo_as_mut B t xs) \<and> bo_as_ref B (bo_as_mut B t xs) = xs"
    and on_truncate: "J t \<Longrightarrow> n \<le> length (bo_as_ref B t) \<Longrightarrow>
      J (bo_truncate B t n) \<and> bo_as_ref B (bo_truncate B t n) = take n (bo_as_ref B t)"

sublocale octets_target \<subseteq> on: target_on B "\<lambda>_. True"
proof unfold_locales
  fix t xs r t'
  assume "bo_append B t xs = (r, t')"
  then show "True \<and> r \<noteq> Panic \<and> (\<exists>ys. bo_as_ref B t' = bo_as_ref B t @ ys) \<and>
      (\<forall>u. r = Ok u \<longrightarrow> bo_as_ref B t' = bo_as_ref B t @ xs)"
    using append_cases [of t xs] by fastforce
qed (simp_all add: as_mut truncate)

text \<open>The effect of a step on such a target.\<close>

definition appends_on :: "'b builder_ops \<Rightarrow> ('b \<Rightarrow> bool) \<Rightarrow> 'b target_step \<Rightarrow> octets \<Rightarrow> bool" where
  "appends_on B J f bs \<longleftrightarrow> (\<forall>t r t'. J t \<longrightarrow> f t = (r, t') \<longrightarrow>
     J t' \<and> r \<noteq> Panic \<and> (\<exists>ys. bo_as_ref B t' = bo_as_ref B t @ ys) \<and>
     (\<forall>u. r = Ok u \<longrightarrow> bo_as_ref B t' = bo_as_ref B t @ bs))"

lemma appends_onD:
  assumes "appends_on B J f bs" "J t" "f t = (r, t')"
  shows "J t'" "r \<noteq> Panic" "\<exists>ys. bo_as_ref B t' = bo_as_ref B t @ ys"
    "r = Ok u \<Longrightarrow> bo_as_ref B t' = bo_as_ref B t @ bs"
  using assms unfolding appends_on_def by blast+

lemma appends_on_then:
  assumes f: "appends_on B J f bs" and g: "appends_on B J g cs"
  shows "appends_on B J (then_compose f g) (bs @ cs)"
  unfolding appends_on_def
proof (intro allI impI)
  fix t r t'
  assume t: "J t" and eq: "then_compose f g t = (r, t')"
  obtain r1 t1 where f1: "f t = (r1, t1)" by fastforce
  note d = appends_onD [OF f t f1]
  show "J t' \<and> r \<noteq> Panic \<and> (\<exists>ys. bo_as_ref B t' = bo_as_ref B t @ ys) \<and>
     (\<forall>u. r = Ok u \<longrightarrow> bo_as_ref B t' = bo_as_ref B t @ bs @ cs)"
  proof (cases r1)
    case (Ok u)
    with eq f1 have "g t1 = (r, t')" by (simp add: then_compose_def)
    from appends_onD [OF g d(1) this] d(4) [OF Ok] show ?thesis by auto
  next
    case (Err e)
    with eq f1 d show ?thesis by (auto simp: then_compose_def)
  qed (use d in simp)
qed

lemma appends_on_all:
  assumes "\<And>x. x \<in> set xs \<Longrightarrow> appends_on B J (f x) (e x)"
  shows "appends_on B J (compose_all f xs) (concat (map e xs))"
  using assms
proof (induction xs)
  case Nil
  then show ?case by (auto simp: appends_on_def)
next
  case (Cons x xs)
  have "compose_all f (x # xs) = then_compose (f x) (compose_all f xs)"
    by (rule ext) (simp add: then_compose_def)
  then show ?case using Cons by (simp add: appends_on_then)
qed

context append_on
begin

lemma appends_on_append: "appends_on B J (\<lambda>t. bo_append B t xs) xs"
  unfolding appends_on_def using on_append by blast

lemma appends_on_be: "appends_on B J (compose_be B v) (to_be_bytes v)"
  using appends_on_append by (simp add: compose_be_def [abs_def])

lemma appends_on_label: "appends_on B J (label_compose B l) (wire_label l)"
  using appends_on_then [OF appends_on_append [of "[of_nat (length l)]"] appends_on_append [of l]]
  by (simp add: label_compose_def [abs_def] wire_label_def)

lemma appends_on_labels: "appends_on B J (compose_all (label_compose B) ls) (wire ls)"
  unfolding wire_def by (rule appends_on_all) (rule appends_on_label)

lemma appends_on_name:
  assumes "view_ok v"
  shows "appends_on B J (name_compose B v) (wire (lv_labels v))"
proof (cases "lv_flat v")
  case None
  then have "name_compose B v = compose_all (label_compose B) (lv_labels v)" by (auto simp: name_compose_def)
  then show ?thesis using appends_on_labels by simp
next
  case (Some octs)
  then have "name_compose B v = (\<lambda>t. bo_append B t octs)" by (auto simp: name_compose_def)
  then show ?thesis using appends_on_append view_okD(5) [OF assms Some] by simp
qed

end

section \<open>Stream targets keep the length\<close>

definition stream_on :: "'b builder_ops \<Rightarrow> ('b \<Rightarrow> bool) \<Rightarrow> 'b \<Rightarrow> bool" where
  "stream_on B J t \<longleftrightarrow> J t \<and> 2 \<le> length (bo_as_ref B t)"

definition shim_ok :: "'b builder_ops \<Rightarrow> 'b \<Rightarrow> bool" where
  "shim_ok B t \<longleftrightarrow> length (bo_as_ref B t) - 2 < 2 ^ 16 \<and>
     take 2 (bo_as_ref B t) = to_be_bytes (of_nat (length (bo_as_ref B t) - 2) :: u16)"

context target_on
begin

lemma update_shim:
  assumes "stream_on B J t" "stream_update_shim B t = (r, t')"
  shows "stream_on B J t' \<and> r \<noteq> Panic \<and> drop 2 (bo_as_ref B t') = drop 2 (bo_as_ref B t) \<and>
    length (bo_as_ref B t') = length (bo_as_ref B t) \<and>
    (length (bo_as_ref B t) - 2 < 2 ^ 16 \<longrightarrow> r = Ok ()) \<and> (\<forall>u. r = Ok u \<longrightarrow> shim_ok B t')"
proof (cases "length (bo_as_ref B t) - 2 < 2 ^ 16")
  case True
  let ?xs = "to_be_bytes (of_nat (length (bo_as_ref B t) - 2) :: u16) @ drop 2 (bo_as_ref B t)"
  have len: "length ?xs = length (bo_as_ref B t)" "J t" using assms(1) by (auto simp: stream_on_def)
  from True assms have "r = Ok ()" "t' = bo_as_mut B t ?xs"
    by (auto simp: stream_update_shim_def Let_def stream_on_def)
  with on_as_mut [OF len(2,1)] True assms(1) len show ?thesis
    by (auto simp: stream_on_def shim_ok_def)
qed (use assms in \<open>auto simp: stream_update_shim_def Let_def stream_on_def\<close>)

lemma stream_step:
  assumes f: "appends_on B J f bs"
  shows "appends_on (stream_builder B) (stream_on B J) (then_compose f (stream_update_shim B)) bs"
    and "stream_on B J t \<Longrightarrow> then_compose f (stream_update_shim B) t = (Ok u, t') \<Longrightarrow> shim_ok B t'"
proof -
  have "stream_on B J t' \<and> r \<noteq> Panic \<and> (\<exists>ys. drop 2 (bo_as_ref B t') = drop 2 (bo_as_ref B t) @ ys) \<and>
     (\<forall>u. r = Ok u \<longrightarrow> drop 2 (bo_as_ref B t') = drop 2 (bo_as_ref B t) @ bs \<and> shim_ok B t')"
    if t: "stream_on B J t" and eq: "then_compose f (stream_update_shim B) t = (r, t')" for t r t'
  proof -
    obtain r1 t1 where f1: "f t = (r1, t1)" by fastforce
    have J: "J t" and two: "2 \<le> length (bo_as_ref B t)" using t by (simp_all add: stream_on_def)
    note d = appends_onD [OF f J f1]
    have on1: "stream_on B J t1" and dr: "\<exists>ys. drop 2 (bo_as_ref B t1) = drop 2 (bo_as_ref B t) @ ys"
      using d(1,3) two by (auto simp: stream_on_def)
    show ?thesis
    proof (cases r1)
      case (Ok u)
      with eq f1 have "stream_update_shim B t1 = (r, t')" by (simp add: then_compose_def)
      from update_shim [OF on1 this] d(4) [OF Ok] two show ?thesis by auto
    next
      case (Err e)
      with eq f1 on1 dr show ?thesis by (auto simp: then_compose_def)
    qed (use d in simp)
  qed
  then show "appends_on (stream_builder B) (stream_on B J) (then_compose f (stream_update_shim B)) bs"
    and "stream_on B J t \<Longrightarrow> then_compose f (stream_update_shim B) t = (Ok u, t') \<Longrightarrow> shim_ok B t'"
    by (simp_all add: appends_on_def stream_builder_def)
qed

lemma stream_truncate_on:
  assumes "stream_on B J t" "n + 2 \<le> length (bo_as_ref B t)"
    and "(stream_truncate B n t :: (unit, 'e) result \<times> 'b) = (r, t')"
  shows "stream_on B J t' \<and> drop 2 (bo_as_ref B t') = take n (drop 2 (bo_as_ref B t)) \<and>
    (n < 2 ^ 16 \<longrightarrow> r = Ok () \<and> shim_ok B t')"
proof -
  have tr: "J (bo_truncate B t (n + 2))" "bo_as_ref B (bo_truncate B t (n + 2)) = take (n + 2) (bo_as_ref B t)"
    using on_truncate [of t "n + 2"] assms(1,2) by (simp_all add: stream_on_def)
  then have on: "stream_on B J (bo_truncate B t (n + 2))" using assms(2) by (simp add: stream_on_def)
  obtain r1 t1 where u: "stream_update_shim B (bo_truncate B t (n + 2)) = (r1, t1)" by fastforce
  from update_shim [OF on u] tr assms(2) have "stream_on B J t1" "drop 2 (bo_as_ref B t1) = take n (drop 2 (bo_as_ref B t))"
    "n < 2 ^ 16 \<longrightarrow> r1 = Ok () \<and> shim_ok B t1" "r1 \<noteq> Panic" by (auto simp: drop_take)
  with assms(3) u show ?thesis by (cases r1) (auto simp: stream_truncate_def)
qed

lemma stream_target_on: "target_on (stream_builder B) (stream_on B J)"
proof unfold_locales
  fix t xs r t'
  assume "stream_on B J t" "bo_append (stream_builder B) t xs = (r, t')"
  then show "stream_on B J t' \<and> r \<noteq> Panic \<and>
      (\<exists>ys. bo_as_ref (stream_builder B) t' = bo_as_ref (stream_builder B) t @ ys) \<and>
      (\<forall>u. r = Ok u \<longrightarrow> bo_as_ref (stream_builder B) t' = bo_as_ref (stream_builder B) t @ xs)"
    using stream_step(1) [OF appends_on_append] unfolding appends_on_def
    by (simp add: stream_builder_def stream_append_slice_def)
next
  fix t and xs :: octets
  assume t: "stream_on B J t" "length xs = length (bo_as_ref (stream_builder B) t)"
  then have "J t" "length (take 2 (bo_as_ref B t) @ xs) = length (bo_as_ref B t)"
    by (auto simp: stream_on_def stream_builder_def)
  from on_as_mut [OF this] t show "stream_on B J (bo_as_mut (stream_builder B) t xs) \<and>
      bo_as_ref (stream_builder B) (bo_as_mut (stream_builder B) t xs) = xs"
    by (simp add: stream_on_def stream_builder_def)
next
  fix t n
  assume t: "stream_on B J t" "n \<le> length (bo_as_ref (stream_builder B) t)"
  then have "n + 2 \<le> length (bo_as_ref B t)" by (auto simp: stream_on_def stream_builder_def)
  moreover obtain r t' where "(stream_truncate B n t :: (unit, unit) result \<times> 'b) = (r, t')" by fastforce
  ultimately have "stream_on B J t'" "drop 2 (bo_as_ref B t') = take n (drop 2 (bo_as_ref B t))"
    using stream_truncate_on [where 'e = unit, OF t(1)] by blast+
  with \<open>(stream_truncate B n t :: (unit, unit) result \<times> 'b) = (r, t')\<close> show "stream_on B J (bo_truncate (stream_builder B) t n) \<and>
      bo_as_ref (stream_builder B) (bo_truncate (stream_builder B) t n) = take n (bo_as_ref (stream_builder B) t)"
    by (simp add: stream_builder_def)
qed

end

section \<open>The contract of a composer\<close>

text \<open>
  Some octets of a message are filled in later: the header and the lengths in front of record data.  Two messages agree up to
  such a set of positions; a name is in a message if it is there in every message that agrees with it.
\<close>

definition agree :: "nat set \<Rightarrow> octets \<Rightarrow> octets \<Rightarrow> bool" where
  "agree H m m' \<longleftrightarrow> length m' = length m \<and> (\<forall>i<length m. i \<notin> H \<longrightarrow> m' ! i = m ! i)"

definition named :: "nat set \<Rightarrow> octets \<Rightarrow> nat \<Rightarrow> label list \<Rightarrow> bool" where
  "named H m p ls \<longleftrightarrow> (\<forall>m'. agree H m m' \<longrightarrow> name_at m' p ls)"

lemma agree_refl [simp]: "agree H m m"
  by (simp add: agree_def)

lemma agree_trans: "agree H m m' \<Longrightarrow> agree H m' m'' \<Longrightarrow> agree H m m''"
  by (simp add: agree_def)

lemma agree_take: "agree H m m' \<Longrightarrow> agree H (take n m) (take n m')"
  by (simp add: agree_def)

lemma agree_prefix: "agree H' (m @ ys) m' \<Longrightarrow> H' \<inter> {..<length m} \<subseteq> H \<Longrightarrow> agree H m (take (length m) m')"
  unfolding agree_def
proof (elim conjE, intro conjI allI impI)
  fix i assume H': "H' \<inter> {..<length m} \<subseteq> H" and eq: "\<forall>i<length (m @ ys). i \<notin> H' \<longrightarrow> m' ! i = (m @ ys) ! i"
    and i: "i < length m" "i \<notin> H"
  from H' i have "i \<notin> H'" by blast
  with eq i(1) show "take (length m) m' ! i = m ! i" by (simp add: nth_append)
qed simp

lemma agree_slice:
  assumes "agree H m m'" "H \<inter> {p..<p + n} = {}"
  shows "take n (drop p m') = take n (drop p m)"
proof (rule nth_equalityI)
  fix i assume "i < length (take n (drop p m'))"
  then have "i < n" "p + i < length m" using assms(1) by (auto simp: agree_def)
  moreover from this have "p + i \<notin> H" using assms(2) by auto
  ultimately show "take n (drop p m') ! i = take n (drop p m) ! i" using assms(1) by (simp add: agree_def)
qed (use assms(1) in \<open>simp add: agree_def\<close>)

lemma named_name_at: "named H m p ls \<Longrightarrow> name_at m p ls"
  by (simp add: named_def)

lemma named_bound: "named H m p ls \<Longrightarrow> p < length m"
  by (drule named_name_at, erule name_at.cases) simp_all

lemma named_agree: "named H m p ls \<Longrightarrow> agree H m m' \<Longrightarrow> named H m' p ls"
  unfolding named_def by (blast intro: agree_trans)

lemma named_anti: "named H m p ls \<Longrightarrow> H' \<subseteq> H \<Longrightarrow> named H' m p ls"
  unfolding named_def agree_def by blast

lemma named_free:
  assumes "named H m p ls" "H' \<inter> {..<length m} \<subseteq> H"
  shows "named H' (m @ ys) p ls"
  unfolding named_def
proof (intro allI impI)
  fix m' assume m': "agree H' (m @ ys) m'"
  have "name_at (take (length m) m' @ drop (length m) m') p ls"
    using agree_prefix [OF m' assms(2)] assms(1) by (intro name_at_mono) (simp add: named_def)
  then show "name_at m' p ls" by simp
qed

lemma named_mono: "named H m p ls \<Longrightarrow> named H (m @ ys) p ls"
  by (erule named_free) simp

lemma named_take: "named H (take n m) p ls \<Longrightarrow> named H m p ls"
  using named_mono [of H "take n m" p ls "drop n m"] by simp

lemma name_at_label_wire:
  assumes "name_at m (p + Suc (length l)) ls" "valid_label l" "l \<noteq> []"
    and "take (Suc (length l)) (drop p m) = wire_label l"
  shows "name_at m p (l # ls)"
proof -
  have len: "p + Suc (length l) < length m" using assms(1) by cases simp_all
  have "m ! p = of_nat (length l)"
    using arg_cong [OF assms(4), of hd] len by (simp add: wire_label_def hd_drop_conv_nth)
  moreover have "take (length l) (drop (p + 1) m) = l"
    using arg_cong [OF assms(4), of tl] len by (simp add: wire_label_def tl_take tl_drop drop_Suc)
  moreover have "unat (of_nat (length l) :: octet) = length l" "0 < length l" "length l \<le> 63"
    using assms(2,3) by (simp_all add: valid_label_def LABEL_MAX_LEN_def unat_of_nat_label)
  moreover have "p < length m" "p + 1 + length l \<le> length m" using len by simp_all
  ultimately show ?thesis using assms(1) by - (rule name_at.label, simp_all only:, simp_all)
qed

lemma named_label:
  assumes "named H m (p + Suc (length l)) ls" "valid_label l" "l \<noteq> []" "H \<inter> {p..<p + Suc (length l)} = {}"
    and "take (Suc (length l)) (drop p m) = wire_label l"
  shows "named H m p (l # ls)"
  unfolding named_def
  by (intro allI impI name_at_label_wire)
    (use assms agree_slice [OF _ assms(4)] in \<open>simp_all add: named_def\<close>)

lemma named_labels:
  assumes "named H m (p + length (wire js)) ls" "rel_labels js" "H \<inter> {p..<p + length (wire js)} = {}"
    and "take (length (wire js)) (drop p m) = wire js"
  shows "named H m p (js @ ls)"
  using assms
proof (induction js arbitrary: p)
  case (Cons j js)
  have w: "take (Suc (length j)) (drop p m) = wire_label j"
    "take (length (wire js)) (drop (p + Suc (length j)) m) = wire js"
  proof -
    have "take (Suc (length j) + length (wire js)) (drop p m) = wire_label j @ wire js"
      using Cons.prems(4) by simp
    then have "take (Suc (length j)) (drop p m) @ take (length (wire js)) (drop (p + Suc (length j)) m) =
        wire_label j @ wire js" unfolding take_add by (simp add: add.commute)
    moreover have "p + Suc (length j) + length (wire js) < length m"
      using named_bound [OF Cons.prems(1)] by (simp add: add_ac)
    ultimately show "take (Suc (length j)) (drop p m) = wire_label j"
      "take (length (wire js)) (drop (p + Suc (length j)) m) = wire js"
      by (simp_all add: append_eq_append_conv)
  qed
  have H: "H \<inter> {p..<p + Suc (length j)} = {}" "H \<inter> {p + Suc (length j)..<p + Suc (length j) + length (wire js)} = {}"
    using Cons.prems(3) by auto
  have "named H m (p + Suc (length j)) (js @ ls)"
    using Cons.prems w(2) H(2) by (intro Cons.IH) (simp_all add: add_ac)
  then show ?case using named_label [OF _ _ _ H(1) w(1)] Cons.prems by simp
qed simp

lemma named_root:
  assumes "H \<subseteq> {..<length m}"
  shows "named H (m @ 0 # ys) (length m) [[]]"
  unfolding named_def
proof (intro allI impI name_at.root)
  fix m' assume "agree H (m @ 0 # ys) m'"
  moreover have "length m \<notin> H" using assms by auto
  ultimately show "length m < length m'" "m' ! length m = 0" by (simp_all add: agree_def)
qed

lemma named_wire:
  assumes "abs_labels ls" "H \<subseteq> {..<length m}"
  shows "named H (m @ wire ls) (length m) ls"
proof -
  from assms(1) obtain js where js: "ls = js @ [[]]" "rel_labels js" by (auto simp: abs_labels_iff)
  have "H \<subseteq> {..<length (m @ wire js)}" "H \<inter> {length m..<length m + length (wire js)} = {}" using assms(2) by auto
  moreover from this(1) have "named H ((m @ wire js) @ 0 # []) (length (m @ wire js)) [[]]" by (rule named_root)
  ultimately show ?thesis
    using named_labels [of H "m @ wire ls" "length m" js "[[]]"] js by (simp add: wire_label_def)
qed

lemma name_at_pointer_octets:
  assumes "name_at m p ls" "p < 0x4000" "p < q" "q + 2 \<le> length m"
    and "take 2 (drop q m) = to_be_bytes ((of_nat p :: u16) OR 0xC000)"
  shows "name_at m q ls"
proof -
  have "unat (of_nat p :: u16) mod 0x4000 = p" using assms(2) by (simp add: unat_of_nat)
  note oct = to_be_bytes_u16 [of "(of_nat p :: u16) OR 0xC000", unfolded unat_or_pointer_tag this pointer_split [OF assms(2)]]
  have "m ! q = of_nat (p div 256 + 192)" "m ! (q + 1) = of_nat (p mod 256)"
    using arg_cong [OF assms(5) [unfolded oct], of "\<lambda>xs. xs ! 0"] arg_cong [OF assms(5) [unfolded oct], of "\<lambda>xs. xs ! 1"] assms(4)
    by simp_all
  moreover have "unat (of_nat (p div 256 + 192) :: octet) = p div 256 + 192"
    using pointer_split(3) [OF assms(2)] by (simp only: unat_of_nat) simp
  moreover have "pointer_target m q = p"
  proof -
    have "(p div 256 + 192) mod 64 = p div 256"
      using mod_mult_self1 [of "p div 256" 3 64] pointer_split(3) [OF assms(2)] by simp
    then show ?thesis unfolding pointer_target_def calculation by (simp add: unat_of_nat)
  qed
  moreover have "q + 1 < length m" using assms(4) by simp
  ultimately show ?thesis
    using assms(1,3) by - (rule name_at.pointer, simp_all only: le_add2)
qed

lemma named_pointer:
  assumes "named H m p ls" "H \<subseteq> {..<length m}" "p < 0x4000"
  shows "named H (m @ to_be_bytes ((of_nat p :: u16) OR 0xC000)) (length m) ls"
  unfolding named_def
proof (intro allI impI)
  let ?ptr = "to_be_bytes ((of_nat p :: u16) OR 0xC000)"
  fix m' assume m': "agree H (m @ ?ptr) m'"
  have len: "length ?ptr = 2" by (simp add: to_be_bytes_u16)
  have "H \<inter> {length m..<length m + 2} = {}" using assms(2) by auto
  from agree_slice [OF m' this] have "take 2 (drop (length m) m') = ?ptr" using len by simp
  moreover have "name_at m' p ls" using named_mono [OF assms(1)] m' by (simp add: named_def)
  moreover have "length m + 2 \<le> length m'" using m' len by (simp add: agree_def)
  ultimately show "name_at m' (length m) ls"
    using named_bound [OF assms(1)] assms(3) by - (rule name_at_pointer_octets [where p = p], assumption+)
qed

text \<open>
  The octets of a name where it is appended: labels up to the root label or a pointer.  Wherever they stand, a reader knows where
  they end.
\<close>

definition name_octets :: "octets \<Rightarrow> bool" where
  "name_octets ys \<longleftrightarrow> (\<exists>js. rel_labels js \<and> (ys = wire js @ [0] \<or> (\<exists>a b. ys = wire js @ [a, b] \<and> 192 \<le> unat a)))"

lemma name_octets_wire: "abs_labels ls \<Longrightarrow> name_octets (wire ls)"
  by (auto simp: name_octets_def abs_labels_iff)

lemma name_octets_label: "valid_label l \<Longrightarrow> l \<noteq> [] \<Longrightarrow> name_octets ys \<Longrightarrow> name_octets (wire_label l @ ys)"
  unfolding name_octets_def by (elim exE, rule exI [of _ "l # _"]) auto

lemma name_octets_labels: "rel_labels js \<Longrightarrow> name_octets ys \<Longrightarrow> name_octets (wire js @ ys)"
  by (induction js) (simp_all add: name_octets_label)

lemma name_octets_pointer: "name_octets (to_be_bytes ((pos :: u16) OR 0xC000))"
proof -
  let ?y = "unat pos mod 0x4000"
  note y = pointer_split [of ?y]
  have "unat (of_nat (?y div 256 + 192) :: octet) = ?y div 256 + 192" using y(3) by (simp only: unat_of_nat) simp
  then show ?thesis
    unfolding name_octets_def to_be_bytes_u16 unat_or_pointer_tag y(1,2) [OF mod_less_divisor [OF zero_less_numeral]]
    by (intro exI [of _ "[]"]) simp
qed

lemma name_span_octets: "name_octets ys \<Longrightarrow> name_span (pre @ ys @ post) (length pre) (length ys)"
proof -
  assume "name_octets ys"
  then obtain js rest where ys: "rel_labels js" "ys = wire js @ rest" "rest = [0] \<or> (\<exists>a b. rest = [a, b] \<and> 192 \<le> unat a)"
    by (auto simp: name_octets_def)
  from ys(1) have "name_span (pre @ (wire js @ rest) @ post) (length pre) (length (wire js) + length rest)"
  proof (induction js arbitrary: pre)
    case Nil
    have "name_span (pre @ 0 # post) (length pre) 1" by (rule name_span.span_root) simp_all
    moreover have "name_span (pre @ a # b # post) (length pre) 2" if "192 \<le> unat a" for a b
      using that by (intro name_span.span_pointer) simp_all
    ultimately show ?case using ys(3) by (auto simp: numeral_2_eq_2)
  next
    case (Cons j js)
    have "name_span ((pre @ wire_label j) @ (wire js @ rest) @ post) (length (pre @ wire_label j)) (length (wire js) + length rest)"
      using Cons.prems by (intro Cons.IH) simp
    moreover have "unat (of_nat (length j) :: octet) = length j"
      using Cons.prems by (simp add: valid_label_def LABEL_MAX_LEN_def unat_of_nat_label)
    ultimately show ?case
      using Cons.prems name_span.span_label [of "pre @ (wire (j # js) @ rest) @ post" "length pre" "length (wire js) + length rest"]
      by (simp add: wire_label_def nth_append valid_label_def LABEL_MAX_LEN_def add_ac)
  qed
  with ys(2) show ?thesis by simp
qed

text \<open>
  What the users of a composer rely on.  A state is good if nothing failed in it; it may be cut back to certain lengths, for
  a good one its own among them, which makes it good again.  A name that is appended to a good state is then found at the
  place where it was appended, up to the case of its letters, whatever the positions to be filled in will hold.  Names may only be
  appended below a limit on the length.
\<close>

locale composer =
  fixes C :: "'b composer_ops" and good :: "nat set \<Rightarrow> 'b \<Rightarrow> bool" and cut :: "nat set \<Rightarrow> 'b \<Rightarrow> nat \<Rightarrow> bool" and lim :: nat
  assumes good_cut: "good H t \<Longrightarrow> cut H t (length (co_ref C t))"
    and good_anti: "good H t \<Longrightarrow> H' \<inter> {..<length (co_ref C t)} \<subseteq> H \<Longrightarrow> good H' t"
    and cut_anti: "cut H t n \<Longrightarrow> n \<le> length (co_ref C t) \<Longrightarrow> H' \<inter> {..<n} \<subseteq> H \<Longrightarrow> cut H' t n"
    and cut_append: "cut H t n \<Longrightarrow> n \<le> length (co_ref C t) \<Longrightarrow> bo_append (co_builder C) t xs = (r, t') \<Longrightarrow>
      r \<noteq> Panic \<and> (\<exists>ys. co_ref C t' = co_ref C t @ ys) \<and> (\<forall>u. r = Ok u \<longrightarrow> co_ref C t' = co_ref C t @ xs) \<and>
      cut H t' n \<and> (\<forall>u K. r = Ok u \<and> good H t \<and> K \<subseteq> {length (co_ref C t)..} \<longrightarrow> good (H \<union> K) t')"
    and cut_as_mut: "cut H t n \<Longrightarrow> n \<le> length (co_ref C t) \<Longrightarrow> agree H (co_ref C t) xs \<Longrightarrow>
      cut H (bo_as_mut (co_builder C) t xs) n \<and> co_ref C (bo_as_mut (co_builder C) t xs) = xs \<and>
      (good H t \<longrightarrow> good H (bo_as_mut (co_builder C) t xs))"
    and cut_truncate: "cut H t n \<Longrightarrow> n \<le> length (co_ref C t) \<Longrightarrow>
      co_ref C (bo_truncate (co_builder C) t n) = take n (co_ref C t) \<and> good H (bo_truncate (co_builder C) t n) \<and>
      (\<forall>m\<le>n. cut H t m \<longrightarrow> cut H (bo_truncate (co_builder C) t n) m)"
    and cut_name: "good H t \<Longrightarrow> view_ok v \<Longrightarrow> abs_labels (lv_labels v) \<Longrightarrow>
      H \<subseteq> {..<length (co_ref C t)} \<Longrightarrow> length (co_ref C t) + length (wire (lv_labels v)) \<le> lim \<Longrightarrow>
      co_append_name C v t = (r, t') \<Longrightarrow>
      r \<noteq> Panic \<and> (\<forall>n\<le>length (co_ref C t). cut H t n \<longrightarrow> cut H t' n) \<and>
      (\<exists>ys. co_ref C t' = co_ref C t @ ys \<and>
        (\<forall>u. r = Ok u \<longrightarrow> length ys \<le> length (wire (lv_labels v)) \<and> name_octets ys \<and> good H t' \<and>
          (\<exists>ls. named H (co_ref C t') (length (co_ref C t)) ls \<and> canonical_labels ls = canonical_labels (lv_labels v))))"

text \<open>Without compression every length may be cut back to and there is no limit.\<close>

lemma composer_uncompressed:
  assumes "target_on (co_builder C) J"
    and name: "\<And>v. view_ok v \<Longrightarrow> appends_on (co_builder C) J (co_append_name C v) (wire (lv_labels v))"
  shows "composer C (\<lambda>_. J) (\<lambda>_ t _. J t) lim"
proof (intro composer.intro)
  note on = assms(1) [unfolded target_on_def append_on_def target_on_axioms_def]
  fix t r t' and xs :: octets and n :: nat and H :: "nat set"
  assume J: "J t"
  then show "J t" "J t" "J t" and "bo_append (co_builder C) t xs = (r, t') \<Longrightarrow>
      r \<noteq> Panic \<and> (\<exists>ys. co_ref C t' = co_ref C t @ ys) \<and> (\<forall>u. r = Ok u \<longrightarrow> co_ref C t' = co_ref C t @ xs) \<and>
      J t' \<and> (\<forall>u K. r = Ok u \<and> J t \<and> K \<subseteq> {length (co_ref C t)..} \<longrightarrow> J t')"
    and "n \<le> length (co_ref C t) \<Longrightarrow> co_ref C (bo_truncate (co_builder C) t n) = take n (co_ref C t) \<and>
      J (bo_truncate (co_builder C) t n) \<and> (\<forall>m\<le>n. J t \<longrightarrow> J (bo_truncate (co_builder C) t n))"
    using on by blast+
  assume "agree H (co_ref C t) xs"
  then have "length xs = length (co_ref C t)" by (simp add: agree_def)
  then show "J (bo_as_mut (co_builder C) t xs) \<and> co_ref C (bo_as_mut (co_builder C) t xs) = xs \<and>
      (J t \<longrightarrow> J (bo_as_mut (co_builder C) t xs))" using on J by blast
next
  fix t v r t' H
  assume t: "J t" "view_ok v" "co_append_name C v t = (r, t')"
    and v: "abs_labels (lv_labels v)" "H \<subseteq> {..<length (co_ref C t)}"
  note d = appends_onD [OF name [OF t(2)] t(1,3)]
  from d(3) obtain ys where ys: "co_ref C t' = co_ref C t @ ys" ..
  have "length ys \<le> length (wire (lv_labels v)) \<and> name_octets ys \<and> J t' \<and>
      (\<exists>ls. named H (co_ref C t') (length (co_ref C t)) ls \<and> canonical_labels ls = canonical_labels (lv_labels v))"
    if "r = Ok u" for u
    using d(4) [OF that] d(1) ys named_wire [OF v] name_octets_wire [OF v(1)] by auto
  with d ys show "r \<noteq> Panic \<and> (\<forall>n\<le>length (co_ref C t). J t \<longrightarrow> J t') \<and>
      (\<exists>ys. co_ref C t' = co_ref C t @ ys \<and>
        (\<forall>u. r = Ok u \<longrightarrow> length ys \<le> length (wire (lv_labels v)) \<and> name_octets ys \<and> J t' \<and>
          (\<exists>ls. named H (co_ref C t') (length (co_ref C t)) ls \<and> canonical_labels ls = canonical_labels (lv_labels v))))"
    by blast
qed

context target_on
begin

lemma plain_composer_on: "composer (plain_composer B) (\<lambda>_. J) (\<lambda>_ t _. J t) lim"
  by (rule composer_uncompressed) (simp_all add: plain_composer_def appends_on_name target_on_axioms)

lemma stream_composer_on: "composer (stream_composer (plain_composer B)) (\<lambda>_. stream_on B J) (\<lambda>_ t _. stream_on B J t) lim"
  by (rule composer_uncompressed)
    (simp_all add: stream_composer_def stream_target_on plain_composer_def stream_append_compressed_name_def
      stream_step(1) appends_on_name)

end

interpretation vec_composer: composer "plain_composer vec_builder" "\<lambda>_ _. True" "\<lambda>_ _ _. True" lim for lim
  by (rule vec_builder.on.plain_composer_on)

interpretation array_composer: composer "plain_composer (array_builder cap)" "\<lambda>_ _. True" "\<lambda>_ _ _. True" lim for cap lim
  by (rule array_builder.on.plain_composer_on)

interpretation stream_composer: composer "stream_composer (plain_composer vec_builder)"
    "\<lambda>_. stream_on vec_builder (\<lambda>_. True)" "\<lambda>_ t _. stream_on vec_builder (\<lambda>_. True) t" lim for lim
  by (rule vec_builder.on.stream_composer_on)

section \<open>The life of a stream target\<close>

text \<open>
  The states of a stream target that its operations lead to.  The flag says whether the last one of them that changes
  the length succeeded.
\<close>

inductive stream_reach :: "'b builder_ops \<Rightarrow> bool \<Rightarrow> 'b \<Rightarrow> bool" for B where
  new: "stream_new B t = (Ok u, t') \<Longrightarrow> stream_reach B True t'"
| append: "stream_reach B ok t \<Longrightarrow> stream_append_slice B xs t = (r, t') \<Longrightarrow> stream_reach B (r = Ok ()) t'"
| name: "stream_reach B ok t \<Longrightarrow> view_ok v \<Longrightarrow> stream_append_compressed_name (plain_composer B) v t = (r, t') \<Longrightarrow>
    stream_reach B (r = Ok ()) t'"
| truncate: "stream_reach B ok t \<Longrightarrow> n < 2 ^ 16 \<Longrightarrow> n + 2 \<le> length (bo_as_ref B t) \<Longrightarrow>
    (stream_truncate B n t :: (unit, unit) result \<times> 'b) = (r, t') \<Longrightarrow> stream_reach B True t'"
| as_mut: "stream_reach B ok t \<Longrightarrow> length xs = length (bo_as_ref (stream_builder B) t) \<Longrightarrow>
    stream_reach B ok (bo_as_mut (stream_builder B) t xs)"

lemma shim_ok_content:
  assumes "shim_ok B t" "2 \<le> length (bo_as_ref B t)"
  shows "bo_as_ref B t = to_be_bytes (of_nat (length (drop 2 (bo_as_ref B t))) :: u16) @ drop 2 (bo_as_ref B t)"
  using assms append_take_drop_id [of 2 "bo_as_ref B t"] by (simp add: shim_ok_def)

context octets_target
begin

lemma stream_new_ok:
  assumes "stream_new B t = (Ok u, t')"
  shows "bo_as_ref B t' = to_be_bytes (0 :: u16)"
  using on.appends_on_be [of "0 :: u16"] truncate [of 0 t] assms
  by (auto simp: stream_new_def appends_on_def)

lemma stream_reach_ok: "stream_reach B ok t \<Longrightarrow> stream_on B (\<lambda>_. True) t \<and> (ok \<longrightarrow> shim_ok B t)"
proof (induction rule: stream_reach.induct)
  case (new t u t')
  then show ?case by (simp add: stream_new_ok stream_on_def shim_ok_def)
next
  case (append ok t xs r t')
  then show ?case
    using on.stream_step [OF on.appends_on_append [of xs]] unfolding stream_append_slice_def
    by (auto dest: appends_onD(1))
next
  case (name ok t v r t')
  then show ?case
    using on.stream_step [OF on.appends_on_name [OF name(2)]]
    by (auto simp: stream_append_compressed_name_def plain_composer_def dest: appends_onD(1))
next
  case (truncate ok t n r t')
  then show ?case using on.stream_truncate_on [where 'e = unit, of t n] by blast
next
  case (as_mut ok t xs)
  then have "length (take 2 (bo_as_ref B t) @ xs) = length (bo_as_ref B t)"
    by (auto simp: stream_on_def stream_builder_def)
  from Octseq.octets_target.as_mut [OF octets_target_axioms this] as_mut show ?case
    by (auto simp: stream_on_def stream_builder_def shim_ok_def)
qed

end

text \<open>
  C6.  A stream target is framed: after every operation that succeeded, and after truncating back behind
  a failed one, the stream slice is the datagram slice with its length in two octets in front of it.
\<close>

theorem stream_target_framed:
  assumes "octets_target B" "stream_reach B ok t"
  shows "\<exists>dgram. stream_as_dgram_slice B t = (Ok dgram :: (octets, unit) result) \<and>
    (ok \<longrightarrow> length dgram < 2 ^ 16 \<and>
      stream_as_stream_slice B t = to_be_bytes (of_nat (length dgram) :: u16) @ dgram)"
  using octets_target.stream_reach_ok [OF assms] shim_ok_content [of B t]
  by (auto simp: stream_as_dgram_slice_def stream_as_stream_slice_def stream_on_def shim_ok_def)

lemma stream_reach_example: "stream_reach vec_builder True [0, 3, 7, 8, 9]"
proof -
  have "stream_new vec_builder [] = (Ok (), [0, 0])"
    by (simp add: stream_new_def compose_be_def vec_builder_def to_be_bytes_u16)
  moreover have "stream_append_slice vec_builder [7, 8, 9] [0, 0] = (Ok (), [0, 3, 7, 8, 9])"
    by (simp add: stream_append_slice_def then_compose_def stream_update_shim_def vec_builder_def to_be_bytes_u16)
  ultimately show ?thesis using stream_reach.append [OF stream_reach.new] by fastforce
qed

theorem stream_target_framed_witness:
  "\<exists>dgram. stream_as_dgram_slice vec_builder [0, 3, 7, 8, 9] = (Ok dgram :: (octets, unit) result) \<and>
    length dgram < 2 ^ 16 \<and>
    stream_as_stream_slice vec_builder [0, 3, 7, 8, 9] = to_be_bytes (of_nat (length dgram) :: u16) @ dgram"
  using stream_target_framed [OF vec_builder.octets_target_axioms stream_reach_example] by blast

end
