(* ===== verification/Compress.thy ===== *)
theory Compress
  imports Composer
begin

text \<open>
  The name compressors \<open>StaticCompressor\<close> and \<open>TreeCompressor\<close> of
  \<^verbatim>\<open>src/base/message_builder.rs\<close>.  Each wraps a target and a table of the names that were written.  The contract of the tables is the
  locale \<open>name_table\<close>; it makes the wrapped target a composer for messages of up to 0x4000 octets.
\<close>

section \<open>Compressors\<close>

record ('b, 't) compressor =
  cp_target :: 'b
  cp_table :: 't

text \<open>
  As a builder a compressor is its target; truncating also truncates the table.
\<close>

definition compressor_builder ::
    "'t \<Rightarrow> (nat \<Rightarrow> 't \<Rightarrow> 't) \<Rightarrow> 'b builder_ops \<Rightarrow> ('b, 't) compressor builder_ops" where
  "compressor_builder table0 truncate_table B = \<lparr>
     bo_empty = \<lparr>cp_target = bo_empty B, cp_table = table0\<rparr>,
     bo_append = (\<lambda>s xs. case bo_append B (cp_target s) xs of (r, t) \<Rightarrow> (r, s\<lparr>cp_target := t\<rparr>)),
     bo_as_ref = (\<lambda>s. bo_as_ref B (cp_target s)),
     bo_as_mut = (\<lambda>s xs. s\<lparr>cp_target := bo_as_mut B (cp_target s) xs\<rparr>),
     bo_truncate = (\<lambda>s n. s\<lparr>cp_target := bo_truncate B (cp_target s) n, cp_table := truncate_table n (cp_table s)\<rparr>)\<rparr>"

text \<open>
  The loop of \<open>append_compressed_name\<close>, which the static and the tree compressor share: \<open>get\<close> looks for the rest of
  the name in the table, given the message, and \<open>put\<close> (\<open>insert\<close> there) adds it.
\<close>

fun compress_loop ::
    "(octets \<Rightarrow> 't \<Rightarrow> label list \<Rightarrow> (u16 option, unit) result) \<Rightarrow> (label list \<Rightarrow> nat \<Rightarrow> ('t, bool, unit) step) \<Rightarrow>
     ('b, 't) compressor builder_ops \<Rightarrow> label list \<Rightarrow> ('b, 't) compressor target_step" where
  "compress_loop get put S name s =
     (if name \<noteq> [] \<and> label_is_root (hd name) then label_compose S (hd name) s
      else case get (bo_as_ref S s) (cp_table s) name of
        Ok (Some pos) \<Rightarrow> compose_be S (pos OR 0xC000) s
      | Ok None \<Rightarrow>
          (case put name (length (bo_as_ref S s)) (cp_table s) of
             (Ok inserted, table) \<Rightarrow>
               if \<not> inserted then compose_all (label_compose S) name (s\<lparr>cp_table := table\<rparr>)
               else (case name of
                   [] \<Rightarrow> (Panic, s\<lparr>cp_table := table\<rparr>)
                 | label # name \<Rightarrow>
                     then_compose (label_compose S label) (compress_loop get put S name) (s\<lparr>cp_table := table\<rparr>))
           | (_, table) \<Rightarrow> (Panic, s\<lparr>cp_table := table\<rparr>))
      | _ \<Rightarrow> (Panic, s))"

declare compress_loop.simps [simp del]

section \<open>The static compressor\<close>

record static_table =
  st_entries :: "u16 list"
  st_len :: nat

definition static_table_new :: static_table where
  "static_table_new = \<lparr>st_entries = replicate 24 0, st_len = 0\<rparr>"

text \<open>\<open>Iterator::eq\<close> on a name and the labels in a slice; \<open>None\<close> if the iterator does not return.\<close>

fun labels_eq_slice :: "label list \<Rightarrow> slice_labels_iter \<Rightarrow> bool option" where
  "labels_eq_slice [] it = map_option (\<lambda>(label, _). label = None) (slice_labels_next it)"
| "labels_eq_slice (l # ls) it =
     (case slice_labels_next it of
        None \<Rightarrow> None
      | Some (None, _) \<Rightarrow> Some False
      | Some (Some label, it) \<Rightarrow> if label_eq l label then labels_eq_slice ls it else Some False)"

fun static_find :: "octets \<Rightarrow> label list \<Rightarrow> u16 list \<Rightarrow> (u16 option, unit) result" where
  "static_find message name [] = Ok None"
| "static_find message name (pos # entries) =
     (case labels_eq_slice name (iter_slice message (unat pos)) of
        None \<Rightarrow> Panic
      | Some True \<Rightarrow> Ok (Some pos)
      | Some False \<Rightarrow> static_find message name entries)"

definition static_get :: "octets \<Rightarrow> static_table \<Rightarrow> label list \<Rightarrow> (u16 option, unit) result" where
  "static_get message table name =
     (if st_len table > length (st_entries table) then Panic
      else static_find message name (take (st_len table) (st_entries table)))"

definition static_insert :: "label list \<Rightarrow> nat \<Rightarrow> (static_table, bool, unit) step" where
  "static_insert name pos table =
     (if pos < 0xC000 \<and> st_len table < length (st_entries table)
      then (Ok True, \<lparr>st_entries = (st_entries table)[st_len table := of_nat pos], st_len = st_len table + 1\<rparr>)
      else (Ok False, table))"

definition static_truncate :: "nat \<Rightarrow> static_table \<Rightarrow> static_table" where
  "static_truncate len table =
     (if len < 0xC000
      then table\<lparr>st_len := length (takeWhile (\<lambda>pos. \<not> pos \<ge> (of_nat len :: u16)) (take (st_len table) (st_entries table)))\<rparr>
      else table)"

definition static_compressor :: "'b builder_ops \<Rightarrow> ('b, static_table) compressor composer_ops" where
  "static_compressor B =
     (let S = compressor_builder static_table_new static_truncate B in
      \<lparr>co_builder = S,
       co_append_name = (\<lambda>name. compress_loop static_get static_insert S (lv_labels name)),
       co_can_compress = True\<rparr>)"

section \<open>The tree compressor\<close>

datatype node = Node (parents: "octets \<rightharpoonup> node") (node_value: "u16 option")

definition node_default :: node where
  "node_default = Node Map.empty None"

primrec drop_above :: "u16 \<Rightarrow> node \<Rightarrow> node" where
  "drop_above len (Node ps v) =
     Node (\<lambda>l. map_option (drop_above len) (ps l))
       (case v of Some value \<Rightarrow> if value < len then Some value else None | None \<Rightarrow> None)"

fun tree_find :: "node \<Rightarrow> label list \<Rightarrow> u16 option" where
  "tree_find node [] = None"
| "tree_find node (label # name) =
     (if label_is_root label then node_value node
      else case parents node label of None \<Rightarrow> None | Some node \<Rightarrow> tree_find node name)"

definition tree_get :: "octets \<Rightarrow> node \<Rightarrow> label list \<Rightarrow> (u16 option, unit) result" where
  "tree_get message start name = Ok (tree_find start name)"

text \<open>A label is stored in an array of 64 octets, which fails for a longer one.\<close>

fun tree_put :: "label list \<Rightarrow> u16 \<Rightarrow> node \<Rightarrow> (node, unit) result" where
  "tree_put [] pos node = Ok node"
| "tree_put (label # name) pos node =
     (if label_is_root label then Ok (Node (parents node) (Some pos))
      else if length label > 64 then Panic
      else rmap (\<lambda>child. Node ((parents node)(label \<mapsto> child)) (node_value node))
        (tree_put name pos (case parents node label of None \<Rightarrow> node_default | Some child \<Rightarrow> child)))"

definition tree_insert :: "label list \<Rightarrow> nat \<Rightarrow> (node, bool, unit) step" where
  "tree_insert name pos start =
     (if pos \<ge> 0xC000 then (Ok False, start)
      else case tree_put name (of_nat pos) start of Ok start \<Rightarrow> (Ok True, start) | _ \<Rightarrow> (Panic, start))"

definition tree_truncate :: "nat \<Rightarrow> node \<Rightarrow> node" where
  "tree_truncate len start = (if len < 0xC000 then drop_above (of_nat len) start else start)"

definition tree_compressor :: "'b builder_ops \<Rightarrow> ('b, node) compressor composer_ops" where
  "tree_compressor B =
     (let S = compressor_builder node_default tree_truncate B in
      \<lparr>co_builder = S,
       co_append_name = (\<lambda>name. compress_loop tree_get tree_insert S (lv_labels name)),
       co_can_compress = True\<rparr>)"

section \<open>The contract of a table\<close>

text \<open>
  A table claims that there are names at certain positions; it may also know which ones.  A claim is right for a
  message, or it is pending: its name is being written, the message ends in its first labels and
  the rest is yet to come.
\<close>

type_synonym claim = "nat \<times> label list option"

definition right :: "nat set \<Rightarrow> octets \<Rightarrow> claim \<Rightarrow> bool" where
  "right H m c \<longleftrightarrow> (\<exists>ls. named H m (fst c) ls \<and> (\<forall>ns. snd c = Some ns \<longrightarrow> canonical_labels ls = canonical_labels ns))"

definition pending :: "nat set \<Rightarrow> octets \<Rightarrow> label list \<Rightarrow> claim \<Rightarrow> bool" where
  "pending H m ls c \<longleftrightarrow> fst c \<le> length m \<and> H \<inter> {fst c..<length m} = {} \<and>
     (\<exists>js. js \<noteq> [] \<and> rel_labels js \<and> drop (fst c) m = wire js \<and> (\<forall>ns. snd c = Some ns \<longrightarrow> ns = js @ ls))"

lemma right_mono: "right H m c \<Longrightarrow> right H (m @ ys) c"
  by (auto simp: right_def intro: named_mono)

lemma right_free: "right H m c \<Longrightarrow> H' \<inter> {..<length m} \<subseteq> H \<Longrightarrow> right H' (m @ ys) c"
  unfolding right_def by (blast intro: named_free)

lemma right_pos: "right H m c \<Longrightarrow> fst c < length m"
  by (auto simp: right_def dest: named_bound)

lemma right_agree: "right H m c \<Longrightarrow> agree H m m' \<Longrightarrow> right H m' c"
  unfolding right_def by (blast intro: named_agree)

lemma pending_right:
  assumes "pending H m ls c" "named H (m @ ys) (length m) ls'" "canonical_labels ls' = canonical_labels ls"
  shows "right H (m @ ys) c"
proof -
  from assms(1) obtain js where js: "js \<noteq> []" "rel_labels js" "drop (fst c) m = wire js"
    "H \<inter> {fst c..<length m} = {}" "fst c \<le> length m"
    and ns: "\<And>ns. snd c = Some ns \<Longrightarrow> ns = js @ ls"
    by (auto simp: pending_def)
  have "length m = fst c + length (wire js)" using js(3,5) by (metis add.commute diff_add length_drop)
  then have "named H (m @ ys) (fst c) (js @ ls')"
    using js assms(2) by (intro named_labels) simp_all
  then show ?thesis using ns assms(3) by (auto simp: right_def)
qed

lemma pending_label:
  assumes "pending H m (l # ls) c" "valid_label l" "l \<noteq> []" "H \<subseteq> {..<length m}"
  shows "pending H (m @ wire_label l) ls c"
proof -
  from assms(1) obtain js where js: "js \<noteq> []" "rel_labels js" "drop (fst c) m = wire js"
    "H \<inter> {fst c..<length m} = {}" "fst c \<le> length m"
    and ns: "\<And>ns. snd c = Some ns \<Longrightarrow> ns = js @ l # ls"
    by (auto simp: pending_def)
  from js(4) assms(4) have "H \<inter> {fst c..<length (m @ wire_label l)} = {}" by (force simp: disjoint_iff)
  then show ?thesis using js ns assms(2,3) unfolding pending_def by (intro conjI exI [of _ "js @ [l]"]) auto
qed

lemma pending_new:
  assumes "valid_label l" "l \<noteq> []" "H \<subseteq> {..<length m}" "c \<in> {(length m, None), (length m, Some (l # ls))}"
  shows "pending H (m @ wire_label l) ls c"
  using assms unfolding pending_def by (intro conjI exI [of _ "[l]"]) auto

lemma right_or_pending_step:
  assumes "c \<in> K \<Longrightarrow> right H m c \<or> pending H m (l # ls) c" "valid_label l" "l \<noteq> []" "H \<subseteq> {..<length m}"
    and "c \<in> K \<union> {(length m, None), (length m, Some (l # ls))}"
  shows "right H (m @ wire_label l) c \<or> pending H (m @ wire_label l) ls c"
proof (cases "c \<in> K")
  case True
  with assms(1-4) show ?thesis using right_mono pending_label by blast
next
  case False
  with assms(5) have "c \<in> {(length m, None), (length m, Some (l # ls))}" by blast
  with assms(2-4) show ?thesis using pending_new by blast
qed

lemma below_disjoint: "(H :: nat set) \<subseteq> {..<n} \<Longrightarrow> H \<inter> {n..<k} = {}"
  by force

lemma below_le: "(H :: nat set) \<subseteq> {..<n} \<Longrightarrow> n \<le> k \<Longrightarrow> H \<subseteq> {..<k}"
  by force

locale name_table =
  fixes get :: "octets \<Rightarrow> 't \<Rightarrow> label list \<Rightarrow> (u16 option, unit) result"
    and put :: "label list \<Rightarrow> nat \<Rightarrow> ('t, bool, unit) step"
    and trunc :: "nat \<Rightarrow> 't \<Rightarrow> 't"
    and table0 :: 't
    and tidy :: "'t \<Rightarrow> bool"
    and claims :: "'t \<Rightarrow> claim set"
  assumes new: "tidy table0 \<and> claims table0 = {}"
    and get_claim: "tidy T \<Longrightarrow> abs_labels (l # ls) \<Longrightarrow> l \<noteq> [] \<Longrightarrow> length m \<le> 0x4000 \<Longrightarrow>
      (\<And>c. c \<in> claims T \<Longrightarrow> right H m c \<or> pending H m (l # ls) c) \<Longrightarrow>
      get m T (l # ls) = Ok None \<or>
      (\<exists>pos ls'. get m T (l # ls) = Ok (Some pos) \<and> named H m (unat pos) ls' \<and>
        canonical_labels ls' = canonical_labels (l # ls))"
    and put_claim: "tidy T \<Longrightarrow> abs_labels (l # ls) \<Longrightarrow> l \<noteq> [] \<Longrightarrow>
      \<exists>b T'. put (l # ls) pos T = (Ok b, T') \<and> tidy T' \<and>
        claims T' \<subseteq> claims T \<union> (if b then {(pos, None), (pos, Some (l # ls))} else {})"
    and trunc_claims: "tidy T \<Longrightarrow> tidy (trunc n T) \<and> claims (trunc n T) \<subseteq> {c \<in> claims T. fst c < n}"

section \<open>Compressing\<close>

text \<open>
  The claims of a table in general: they have a position in the message and are right or not for it.
  A compressor is good if all of them are right, and may be cut back to a length if those before it are right for
  what is left.
\<close>

definition compressor_good ::
    "'b builder_ops \<Rightarrow> ('b \<Rightarrow> bool) \<Rightarrow> ('t \<Rightarrow> bool) \<Rightarrow> ('t \<Rightarrow> 'c set) \<Rightarrow> (nat set \<Rightarrow> octets \<Rightarrow> 'c \<Rightarrow> bool) \<Rightarrow>
     nat set \<Rightarrow> ('b, 't) compressor \<Rightarrow> bool" where
  "compressor_good B J tidy claims rt H s \<longleftrightarrow> J (cp_target s) \<and> tidy (cp_table s) \<and>
     (\<forall>c \<in> claims (cp_table s). rt H (bo_as_ref B (cp_target s)) c)"

definition compressor_cut ::
    "'b builder_ops \<Rightarrow> ('b \<Rightarrow> bool) \<Rightarrow> ('t \<Rightarrow> bool) \<Rightarrow> ('t \<Rightarrow> 'c set) \<Rightarrow> ('c \<Rightarrow> nat) \<Rightarrow> (nat set \<Rightarrow> octets \<Rightarrow> 'c \<Rightarrow> bool) \<Rightarrow>
     nat set \<Rightarrow> ('b, 't) compressor \<Rightarrow> nat \<Rightarrow> bool" where
  "compressor_cut B J tidy claims cpos rt H s n \<longleftrightarrow> J (cp_target s) \<and> tidy (cp_table s) \<and>
     (\<forall>c \<in> claims (cp_table s). cpos c < n \<longrightarrow> rt H (take n (bo_as_ref B (cp_target s))) c)"

text \<open>What a step that appends a name leaves: the claims it adds are behind the old end of the message.\<close>

definition compress_post ::
    "'b builder_ops \<Rightarrow> ('b \<Rightarrow> bool) \<Rightarrow> ('t \<Rightarrow> bool) \<Rightarrow> ('t \<Rightarrow> 'c set) \<Rightarrow> ('c \<Rightarrow> nat) \<Rightarrow> (nat set \<Rightarrow> octets \<Rightarrow> 'c \<Rightarrow> bool) \<Rightarrow>
     nat set \<Rightarrow> ('b, 't) compressor \<Rightarrow> label list \<Rightarrow> (unit, append_error) result \<Rightarrow> ('b, 't) compressor \<Rightarrow> bool" where
  "compress_post B J tidy claims cpos rt H s ls r s' \<longleftrightarrow>
     J (cp_target s') \<and> tidy (cp_table s') \<and> r \<noteq> Panic \<and>
     (\<forall>c \<in> claims (cp_table s'). c \<in> claims (cp_table s) \<or> length (bo_as_ref B (cp_target s)) \<le> cpos c) \<and>
     (\<exists>ys. bo_as_ref B (cp_target s') = bo_as_ref B (cp_target s) @ ys \<and>
       (\<forall>u. r = Ok u \<longrightarrow> length ys \<le> length (wire ls) \<and> name_octets ys \<and>
         (\<forall>c \<in> claims (cp_table s'). rt H (bo_as_ref B (cp_target s')) c) \<and>
         (\<exists>ls'. named H (bo_as_ref B (cp_target s')) (length (bo_as_ref B (cp_target s))) ls' \<and>
           canonical_labels ls' = canonical_labels ls)))"

locale compressor_on = target_on B J
  for B :: "'b builder_ops" and J +
  fixes trunc :: "nat \<Rightarrow> 't \<Rightarrow> 't" and table0 :: 't and tidy :: "'t \<Rightarrow> bool"
    and claims :: "'t \<Rightarrow> 'c set" and cpos :: "'c \<Rightarrow> nat" and rt :: "nat set \<Rightarrow> octets \<Rightarrow> 'c \<Rightarrow> bool"
  assumes claims_new: "tidy table0 \<and> claims table0 = {}"
    and claims_trunc: "tidy T \<Longrightarrow> tidy (trunc n T) \<and> claims (trunc n T) \<subseteq> {c \<in> claims T. cpos c < n}"
    and rt_free: "rt H m c \<Longrightarrow> H' \<inter> {..<length m} \<subseteq> H \<Longrightarrow> rt H' (m @ ys) c"
    and rt_pos: "rt H m c \<Longrightarrow> cpos c < length m"
    and rt_agree: "rt H m c \<Longrightarrow> agree H m m' \<Longrightarrow> rt H m' c"
begin

lemma compressor_append_on:
  "append_on (compressor_builder table0 trunc B) (\<lambda>s. J (cp_target s) \<and> cp_table s = T)"
proof
  fix s xs r s'
  assume "J (cp_target s) \<and> cp_table s = T" "bo_append (compressor_builder table0 trunc B) s xs = (r, s')"
  moreover obtain r' t' where "bo_append B (cp_target s) xs = (r', t')" by fastforce
  ultimately show "(J (cp_target s') \<and> cp_table s' = T) \<and> r \<noteq> Panic \<and>
      (\<exists>ys. bo_as_ref (compressor_builder table0 trunc B) s' = bo_as_ref (compressor_builder table0 trunc B) s @ ys) \<and>
      (\<forall>u. r = Ok u \<longrightarrow>
        bo_as_ref (compressor_builder table0 trunc B) s' = bo_as_ref (compressor_builder table0 trunc B) s @ xs)"
    using on_append [of "cp_target s" xs] by (auto simp: compressor_builder_def split: prod.splits)
qed

lemma compressor_ref [simp]: "bo_as_ref (compressor_builder table0 trunc B) s = bo_as_ref B (cp_target s)"
  by (simp add: compressor_builder_def)

lemma compressor_append:
  assumes "bo_append (compressor_builder table0 trunc B) s xs = (r, s')" "J (cp_target s)"
  shows "J (cp_target s') \<and> cp_table s' = cp_table s \<and> r \<noteq> Panic \<and>
    (\<exists>ys. bo_as_ref B (cp_target s') = bo_as_ref B (cp_target s) @ ys) \<and>
    (\<forall>u. r = Ok u \<longrightarrow> bo_as_ref B (cp_target s') = bo_as_ref B (cp_target s) @ xs)"
  using append_on.on_append [OF compressor_append_on _ assms(1), of "cp_table s"] assms(2) by simp

lemma compressor_composer:
  assumes name: "\<And>v H s r s'. view_ok v \<Longrightarrow> abs_labels (lv_labels v) \<Longrightarrow> compressor_good B J tidy claims rt H s \<Longrightarrow>
      H \<subseteq> {..<length (bo_as_ref B (cp_target s))} \<Longrightarrow>
      length (bo_as_ref B (cp_target s)) + length (wire (lv_labels v)) \<le> lim \<Longrightarrow> f v s = (r, s') \<Longrightarrow>
      compress_post B J tidy claims cpos rt H s (lv_labels v) r s'"
  shows "composer \<lparr>co_builder = compressor_builder table0 trunc B, co_append_name = f, co_can_compress = can\<rparr>
    (compressor_good B J tidy claims rt) (compressor_cut B J tidy claims cpos rt) lim"
proof (intro composer.intro, unfold composer_ops.simps compressor_ref)
  fix H and s :: "('b, 't) compressor"
  assume "compressor_good B J tidy claims rt H s"
  then show "compressor_cut B J tidy claims cpos rt H s (length (bo_as_ref B (cp_target s)))"
    by (simp add: compressor_good_def compressor_cut_def)
next
  fix H H' and s :: "('b, 't) compressor"
  assume "compressor_good B J tidy claims rt H s" "H' \<inter> {..<length (bo_as_ref B (cp_target s))} \<subseteq> H"
  then show "compressor_good B J tidy claims rt H' s" using rt_free [where H = H and ys = "[]"] by (auto simp: compressor_good_def)
next
  fix H H' and s :: "('b, 't) compressor" and n
  assume "compressor_cut B J tidy claims cpos rt H s n" "n \<le> length (bo_as_ref B (cp_target s))" "H' \<inter> {..<n} \<subseteq> H"
  then show "compressor_cut B J tidy claims cpos rt H' s n"
    using rt_free [where H = H and m = "take n _" and ys = "[]"] by (auto simp: compressor_cut_def min_absorb1)
next
  fix H s n xs r s'
  assume "compressor_cut B J tidy claims cpos rt H s n" "n \<le> length (bo_as_ref B (cp_target s))"
    "bo_append (compressor_builder table0 trunc B) s xs = (r, s')"
  then show "r \<noteq> Panic \<and> (\<exists>ys. bo_as_ref B (cp_target s') = bo_as_ref B (cp_target s) @ ys) \<and>
      (\<forall>u. r = Ok u \<longrightarrow> bo_as_ref B (cp_target s') = bo_as_ref B (cp_target s) @ xs) \<and>
      compressor_cut B J tidy claims cpos rt H s' n \<and>
      (\<forall>u K. r = Ok u \<and> compressor_good B J tidy claims rt H s \<and> K \<subseteq> {length (bo_as_ref B (cp_target s))..} \<longrightarrow>
        compressor_good B J tidy claims rt (H \<union> K) s')"
    using compressor_append [of s xs r s']
    by (auto simp: compressor_cut_def compressor_good_def intro!: rt_free [where H = H])
next
  fix H and s :: "('b, 't) compressor" and n and xs :: octets
  let ?m = "bo_as_ref B (cp_target s)" and ?s = "bo_as_mut (compressor_builder table0 trunc B) s xs"
  assume cut: "compressor_cut B J tidy claims cpos rt H s n" "n \<le> length ?m" and xs: "agree H ?m xs"
  then have "J (cp_target ?s)" "bo_as_ref B (cp_target ?s) = xs" "cp_table ?s = cp_table s"
    using on_as_mut [of "cp_target s" xs] by (simp_all add: compressor_cut_def compressor_builder_def agree_def)
  then show "compressor_cut B J tidy claims cpos rt H ?s n \<and> bo_as_ref B (cp_target ?s) = xs \<and>
      (compressor_good B J tidy claims rt H s \<longrightarrow> compressor_good B J tidy claims rt H ?s)"
    using cut rt_agree [OF _ xs] rt_agree [OF _ agree_take [OF xs]]
    by (auto simp: compressor_cut_def compressor_good_def)
next
  fix H and s :: "('b, 't) compressor" and n
  let ?m = "bo_as_ref B (cp_target s)" and ?s = "bo_truncate (compressor_builder table0 trunc B) s n"
  assume cut: "compressor_cut B J tidy claims cpos rt H s n" "n \<le> length ?m"
  then have "J (cp_target ?s)" "bo_as_ref B (cp_target ?s) = take n ?m" "cp_table ?s = trunc n (cp_table s)"
    using on_truncate [of "cp_target s" n] by (simp_all add: compressor_cut_def compressor_builder_def)
  then show "bo_as_ref B (cp_target ?s) = take n ?m \<and> compressor_good B J tidy claims rt H ?s \<and>
      (\<forall>k\<le>n. compressor_cut B J tidy claims cpos rt H s k \<longrightarrow> compressor_cut B J tidy claims cpos rt H ?s k)"
    using cut claims_trunc [of "cp_table s" n] by (auto simp: compressor_cut_def compressor_good_def min_absorb1)
next
  fix H and s s' :: "('b, 't) compressor" and v r
  let ?m = "bo_as_ref B (cp_target s)"
  assume good: "compressor_good B J tidy claims rt H s" and "view_ok v" "abs_labels (lv_labels v)" "H \<subseteq> {..<length ?m}"
    "length ?m + length (wire (lv_labels v)) \<le> lim" "f v s = (r, s')"
  then have post: "compress_post B J tidy claims cpos rt H s (lv_labels v) r s'" by (intro name)
  then have "compressor_cut B J tidy claims cpos rt H s k \<longrightarrow> compressor_cut B J tidy claims cpos rt H s' k"
    if "k \<le> length ?m" for k
    using that good rt_pos unfolding compress_post_def compressor_cut_def compressor_good_def by fastforce
  with post show "r \<noteq> Panic \<and>
      (\<forall>n\<le>length ?m. compressor_cut B J tidy claims cpos rt H s n \<longrightarrow> compressor_cut B J tidy claims cpos rt H s' n) \<and>
      (\<exists>ys. bo_as_ref B (cp_target s') = ?m @ ys \<and>
        (\<forall>u. r = Ok u \<longrightarrow> length ys \<le> length (wire (lv_labels v)) \<and> name_octets ys \<and> compressor_good B J tidy claims rt H s' \<and>
          (\<exists>ls. named H (bo_as_ref B (cp_target s')) (length ?m) ls \<and>
            canonical_labels ls = canonical_labels (lv_labels v))))"
    unfolding compress_post_def compressor_good_def by blast
qed

end

locale table_on = target_on B J + name_table get put trunc table0 tidy claims
  for B :: "'b builder_ops" and J and get and put and trunc and table0 :: 't and tidy and claims

sublocale table_on \<subseteq> compressor_on B J trunc table0 tidy claims fst right
  by unfold_locales (fact new trunc_claims right_free right_pos right_agree)+

context table_on
begin

lemma compress_last:
  assumes f: "appends_on (compressor_builder table0 trunc B) (\<lambda>s. J (cp_target s) \<and> cp_table s = cp_table s1) f bs" "f s1 = (r, s')"
    and s: "J (cp_target s1)" "tidy (cp_table s1)" "cp_target s1 = cp_target s" "claims (cp_table s1) \<subseteq> claims (cp_table s)"
    and named: "named H (bo_as_ref B (cp_target s) @ bs) (length (bo_as_ref B (cp_target s))) ls'"
      "canonical_labels ls' = canonical_labels ls" "length bs \<le> length (wire ls)" "name_octets bs"
    and claims: "\<And>c. c \<in> claims (cp_table s) \<Longrightarrow>
      right H (bo_as_ref B (cp_target s)) c \<or> pending H (bo_as_ref B (cp_target s)) ls c"
  shows "compress_post B J tidy claims fst right H s ls r s'"
proof -
  note d = appends_onD [OF f(1) _ f(2)]
  have "right H (bo_as_ref B (cp_target s) @ bs) c" if "c \<in> claims (cp_table s1)" for c
    using claims [of c] that s(4) right_mono pending_right [OF _ named(1,2)] by blast
  then show ?thesis using d s named unfolding compress_post_def by auto
qed

lemma compress_label:
  assumes "compress_post B J tidy claims fst right H s1 ls r s'"
    and s1: "bo_as_ref B (cp_target s1) = bo_as_ref B (cp_target s) @ wire_label l"
    and claims: "claims (cp_table s1) \<subseteq> claims (cp_table s) \<union>
      {(length (bo_as_ref B (cp_target s)), None), (length (bo_as_ref B (cp_target s)), Some (l # ls))}"
    and l: "valid_label l" "l \<noteq> []" "H \<subseteq> {..<length (bo_as_ref B (cp_target s))}"
  shows "compress_post B J tidy claims fst right H s (l # ls) r s'"
proof -
  from assms(1) obtain ys where
    ys: "bo_as_ref B (cp_target s') = bo_as_ref B (cp_target s) @ wire_label l @ ys"
    and ok: "\<And>u. r = Ok u \<Longrightarrow> length ys \<le> length (wire ls) \<and> name_octets ys \<and>
         (\<forall>c \<in> claims (cp_table s'). right H (bo_as_ref B (cp_target s')) c) \<and>
         (\<exists>ls'. named H (bo_as_ref B (cp_target s')) (length (bo_as_ref B (cp_target s1))) ls' \<and>
           canonical_labels ls' = canonical_labels ls)"
    unfolding compress_post_def s1 append_assoc by blast
  have "named H (bo_as_ref B (cp_target s')) (length (bo_as_ref B (cp_target s))) (l # ls')"
    if "named H (bo_as_ref B (cp_target s')) (length (bo_as_ref B (cp_target s1))) ls'" for ls'
    using that l s1 ys by (intro named_label) (simp_all add: below_disjoint)
  moreover have "c \<in> claims (cp_table s) \<or> length (bo_as_ref B (cp_target s)) \<le> fst c"
    if "c \<in> claims (cp_table s')" for c
    using assms(1) that claims unfolding compress_post_def s1 by fastforce
  ultimately show ?thesis
    using assms(1) ok ys name_octets_label [OF l(1,2), of ys] unfolding compress_post_def
    by (intro conjI ballI exI [of _ "wire_label l @ ys"] allI impI) fastforce+
qed

lemma compress_step:
  assumes eq: "then_compose (label_compose (compressor_builder table0 trunc B) l) g (s\<lparr>cp_table := T'\<rparr>) = (r, s')"
    and g: "\<And>s1. J (cp_target s1) \<Longrightarrow> cp_table s1 = T' \<Longrightarrow>
      bo_as_ref B (cp_target s1) = bo_as_ref B (cp_target s) @ wire_label l \<Longrightarrow> g s1 = (r, s') \<Longrightarrow>
      compress_post B J tidy claims fst right H s1 ls r s'"
    and s: "J (cp_target s)" "tidy T'" "H \<subseteq> {..<length (bo_as_ref B (cp_target s))}" "valid_label l" "l \<noteq> []"
    and claims: "claims T' \<subseteq> claims (cp_table s) \<union>
      {(length (bo_as_ref B (cp_target s)), None), (length (bo_as_ref B (cp_target s)), Some (l # ls))}"
  shows "compress_post B J tidy claims fst right H s (l # ls) r s'"
proof -
  obtain r1 s1 where s1: "label_compose (compressor_builder table0 trunc B) l (s\<lparr>cp_table := T'\<rparr>) = (r1, s1)"
    by fastforce
  note d = appends_onD [OF append_on.appends_on_label [OF compressor_append_on [of T']] _ s1, simplified, OF s(1)]
  show ?thesis
  proof (cases r1)
    case (Ok u)
    with eq s1 have "g s1 = (r, s')" by (simp add: then_compose_def)
    with d Ok have "compress_post B J tidy claims fst right H s1 ls r s'" by (intro g) simp_all
    then show ?thesis by (rule compress_label) (use d Ok s claims in simp_all)
  next
    case (Err e)
    with eq s1 have "r = Err e" "s' = s1" by (simp_all add: then_compose_def)
    with d s claims show ?thesis by (auto simp: compress_post_def)
  qed (use d in simp)
qed

lemma compress_loop_correct:
  assumes "abs_labels ls" "J (cp_target s)" "tidy (cp_table s)" "H \<subseteq> {..<length (bo_as_ref B (cp_target s))}"
    and "length (bo_as_ref B (cp_target s)) + length (wire ls) \<le> 0x4000"
    and "\<And>c. c \<in> claims (cp_table s) \<Longrightarrow>
      right H (bo_as_ref B (cp_target s)) c \<or> pending H (bo_as_ref B (cp_target s)) ls c"
    and "compress_loop get put (compressor_builder table0 trunc B) ls s = (r, s')"
  shows "compress_post B J tidy claims fst right H s ls r s'"
  using assms
proof (induction ls arbitrary: s)
  case (Cons l ls)
  let ?S = "compressor_builder table0 trunc B" and ?m = "bo_as_ref B (cp_target s)"
  note on = append_on.appends_on_be [OF compressor_append_on] append_on.appends_on_label [OF compressor_append_on]
    append_on.appends_on_labels [OF compressor_append_on]
  show ?case
  proof (cases "l = []")
    case True
    with Cons.prems(1) have "ls = []" by (auto simp: abs_labels_Cons)
    moreover have "label_compose ?S l s = (r, s')"
      using Cons.prems(7) True by (simp add: compress_loop.simps label_is_root_def)
    ultimately show ?thesis
      using Cons.prems(2,3,4,6) True named_root [of H ?m "[]"] name_octets_wire [OF Cons.prems(1)]
      by (intro compress_last [where s = s and ls' = "[[]]", OF on(2)]) (auto simp: wire_label_def)
  next
    case False
    with Cons.prems(1) have l: "valid_label l" "abs_labels ls" by (auto simp: abs_labels_Cons)
    have "ls \<noteq> []" "l \<noteq> []" using l(2) False by auto
    then have len: "length ?m \<le> 0x4000" "2 \<le> length (wire (l # ls))"
      using Cons.prems(5) by (cases l; simp)+
    consider (none) "get ?m (cp_table s) (l # ls) = Ok None"
      | (some) pos ls' where "get ?m (cp_table s) (l # ls) = Ok (Some pos)" "named H ?m (unat pos) ls'"
        "canonical_labels ls' = canonical_labels (l # ls)"
      using get_claim [OF Cons.prems(3,1) False len(1) Cons.prems(6)] by blast
    then show ?thesis
    proof cases
      case some
      with False have "compose_be ?S (pos OR 0xC000) s = (r, s')"
        using Cons.prems(7) by (simp add: compress_loop.simps [of _ _ _ "l # ls"] label_is_root_def)
      moreover have "unat pos < 0x4000" using named_bound [OF some(2)] len(1) by simp
      ultimately show ?thesis
        using named_pointer [OF some(2) Cons.prems(4)] name_octets_pointer Cons.prems(2,3,6) some(3) len(2)
        by (intro compress_last [where s = s and ls' = ls', OF on(1)]) auto
    next
      case none
      from put_claim [OF Cons.prems(3,1) False, of "length ?m"] obtain b T' where
        put: "put (l # ls) (length ?m) (cp_table s) = (Ok b, T')" "tidy T'"
          "claims T' \<subseteq> claims (cp_table s) \<union> (if b then {(length ?m, None), (length ?m, Some (l # ls))} else {})"
        by blast
      let ?s = "s\<lparr>cp_table := T'\<rparr>"
      show ?thesis
      proof (cases b)
        case False
        with none put(1) \<open>l \<noteq> []\<close> have eq: "compose_all (label_compose ?S) (l # ls) ?s = (r, s')"
          using Cons.prems(7) by (simp add: compress_loop.simps [of _ _ _ "l # ls"] label_is_root_def)
        show ?thesis using Cons.prems(2,6) put(2,3) False named_wire [OF Cons.prems(1,4)] name_octets_wire [OF Cons.prems(1)]
          by (intro compress_last [where s = s and ls' = "l # ls", OF on(3) eq]) auto
      next
        case True
        with none put(1) \<open>l \<noteq> []\<close> have eq: "then_compose (label_compose ?S l) (compress_loop get put ?S ls) ?s = (r, s')"
          using Cons.prems(7) by (simp add: compress_loop.simps [of _ _ _ "l # ls"] label_is_root_def)
        have "right H (?m @ wire_label l) c \<or> pending H (?m @ wire_label l) ls c" if "c \<in> claims T'" for c
          using that True put(3) by (intro right_or_pending_step [OF Cons.prems(6) l(1) \<open>l \<noteq> []\<close> Cons.prems(4)]) auto
        then show ?thesis
          using Cons.prems(2,4,5) l put(2,3) True \<open>l \<noteq> []\<close> below_le [OF Cons.prems(4)]
          by (intro compress_step [OF eq] Cons.IH) simp_all
      qed
    qed
  qed
qed simp

lemma table_composer:
  "composer \<lparr>co_builder = compressor_builder table0 trunc B,
       co_append_name = (\<lambda>name. compress_loop get put (compressor_builder table0 trunc B) (lv_labels name)),
       co_can_compress = can\<rparr>
     (compressor_good B J tidy claims right) (compressor_cut B J tidy claims fst right) 0x4000"
  by (rule compressor_composer) (rule compress_loop_correct; simp add: compressor_good_def)

end

section \<open>The tables\<close>

text \<open>Looking through the positions: the labels found at a position are those of the name there.\<close>

lemma split_from_label_at:
  assumes "pos < length octs" "unat (octs ! pos) \<le> 63" "pos + 1 + unat (octs ! pos) \<le> length octs"
  shows "split_from (drop pos octs) =
    Ok (take (unat (octs ! pos)) (drop (pos + 1) octs), drop (pos + 1 + unat (octs ! pos)) octs)"
proof -
  let ?l = "take (unat (octs ! pos)) (drop (pos + 1) octs)"
  have "drop pos octs = octs ! pos # ?l @ drop (unat (octs ! pos)) (drop (pos + 1) octs)"
    unfolding append_take_drop_id using assms(1) by (simp add: Cons_nth_drop_Suc)
  moreover have "length ?l = unat (octs ! pos)" using assms(3) by simp
  ultimately show ?thesis using assms(2)
    by (simp add: split_from_Ok_iff wire_label_def valid_label_def LABEL_MAX_LEN_def add.commute)
qed

lemma pointer_target_less: "pointer_target octs pos < 0x4000"
proof -
  have "x + y mod 64 * 256 < 0x4000" if "x < 256" for x y :: nat
    using that pos_mod_bound [of 64 "int y"] mod_less_divisor [of 64 y] by linarith
  then show ?thesis using unsigned_less [of "octs ! (pos + 1)"] by (simp add: pointer_target_def)
qed

lemma slice_labels_loop_at:
  "name_at octs p ls \<Longrightarrow> \<exists>q. slice_labels_loop \<lparr>sli_slice = octs, sli_start = p\<rparr> =
     Some (Some (hd ls), \<lparr>sli_slice = octs, sli_start = q\<rparr>) \<and>
     (if tl ls = [] then q = usize_MAX else name_at octs q (tl ls))"
proof (induction rule: name_at.induct)
  case (root pos)
  then have "drop pos octs = 0 # drop (pos + 1) octs" using Cons_nth_drop_Suc [of pos octs] by simp
  then show ?case by (subst slice_labels_loop.simps) (simp add: label_is_root_def)
next
  case (label pos l ls)
  then have "length l = unat (octs ! pos)" by simp
  moreover from this label(2) have "l \<noteq> []" by auto
  ultimately show ?case using label split_from_label_at [of pos octs] name_at_not_Nil [of octs _ ls]
    by (subst slice_labels_loop.simps) (auto simp: label_is_root_def add_ac)
next
  case (pointer pos ls)
  have "drop pos octs = octs ! pos # octs ! (pos + 1) # drop (pos + 2) octs"
    using pointer(1) by (simp add: Cons_nth_drop_Suc)
  moreover have "pointer_target octs pos < 2 ^ 16" using pointer_target_less [of octs pos] by simp
  ultimately have "slice_labels_loop \<lparr>sli_slice = octs, sli_start = pos\<rparr> =
      slice_labels_loop \<lparr>sli_slice = octs, sli_start = pointer_target octs pos\<rparr>"
    using pointer(2,3) split_from_pointer_octets [of "octs ! pos"]
    by (subst slice_labels_loop.simps) (simp add: pointer_target_def unat_of_nat del: of_nat_add)
  with pointer.IH show ?case by simp
qed

lemma labels_eq_slice_end:
  "length octs \<le> q \<Longrightarrow> labels_eq_slice ns \<lparr>sli_slice = octs, sli_start = q\<rparr> = Some (ns = [])"
  by (cases ns) (simp_all add: slice_labels_next_def)

lemma slice_labels_next_at:
  assumes "name_at octs p ls"
  obtains q where "slice_labels_next (iter_slice octs p) = Some (Some (hd ls), iter_slice octs q)"
    "if tl ls = [] then q = usize_MAX else name_at octs q (tl ls)"
proof -
  have "p < length octs" using assms by cases simp_all
  with slice_labels_loop_at [OF assms] that show ?thesis by (auto simp: slice_labels_next_def iter_slice_def)
qed

lemma labels_eq_slice_at:
  assumes "name_at octs p ls" "length octs \<le> usize_MAX"
  shows "labels_eq_slice ns (iter_slice octs p) = Some (labels_eq ns ls)"
  using assms(1)
proof (induction ns arbitrary: p ls)
  case Nil
  then obtain l ls' where "ls = l # ls'" using name_at_not_Nil [OF Nil] by (cases ls) auto
  with Nil show ?case by (elim slice_labels_next_at) simp
next
  case (Cons n ns)
  then obtain l ls' where ls: "ls = l # ls'" using name_at_not_Nil [OF Cons.prems] by (cases ls) auto
  obtain q where
    q: "slice_labels_next (iter_slice octs p) = Some (Some l, iter_slice octs q)"
      "if ls' = [] then q = usize_MAX else name_at octs q ls'"
    using slice_labels_next_at [OF Cons.prems] unfolding ls list.sel by blast
  then have "labels_eq_slice ns (iter_slice octs q) = Some (labels_eq ns ls')"
    using Cons.IH labels_eq_slice_end [of octs q ns] assms(2)
    by (cases "ls' = []"; cases ns) (simp_all add: iter_slice_def)
  with q(1) ls show ?case by simp
qed

lemma labels_eq_slice_pending:
  assumes "drop p octs = wire js" "rel_labels js" "p \<le> length octs" "abs_labels ls"
  shows "labels_eq_slice ls (iter_slice octs p) = Some False"
  using assms
proof (induction js arbitrary: p ls)
  case Nil
  then obtain l ls' where "ls = l # ls'" by (cases ls) auto
  with Nil show ?case by (simp add: slice_labels_next_def iter_slice_def)
next
  case (Cons j js)
  then obtain l ls' where ls: "ls = l # ls'" by (cases ls) auto
  have "drop p octs \<noteq> []" using Cons.prems(1) by simp
  then have p: "p < length octs" by auto
  have len: "length octs = p + length j + 1 + length (wire js)"
    using arg_cong [OF Cons.prems(1), of length] Cons.prems(3) by simp
  have "drop (p + length j + 1) octs = wire js"
    using arg_cong [OF Cons.prems(1), of "drop (length j + 1)"] by (simp add: add_ac)
  moreover have "slice_labels_next (iter_slice octs p) = Some (Some j, iter_slice octs (p + length j + 1))"
    using p Cons.prems(1,2) by (simp add: slice_labels_next_def iter_slice_def)
      (subst slice_labels_loop.simps, simp add: label_is_root_def)
  moreover have "abs_labels ls'" if "label_eq l j"
    using Cons.prems(2,4) that ls by (auto simp: abs_labels_Cons label_eq_canonical label_make_canonical_def)
  ultimately show ?case using Cons.IH [of "p + length j + 1" ls'] Cons.prems(2) len ls by simp
qed

definition static_tidy :: "static_table \<Rightarrow> bool" where
  "static_tidy T \<longleftrightarrow> length (st_entries T) = 24 \<and> st_len T \<le> 24 \<and>
     (\<forall>p \<in> set (take (st_len T) (st_entries T)). unat p < 0xC000)"

definition static_claims :: "static_table \<Rightarrow> claim set" where
  "static_claims T = (\<lambda>p. (unat p, None)) ` set (take (st_len T) (st_entries T))"

lemma static_find_correct:
  assumes "abs_labels ls" "length m \<le> usize_MAX"
    and "\<And>p. p \<in> set ps \<Longrightarrow> right H m (unat p, None) \<or> pending H m ls (unat p, None)"
  shows "static_find m ls ps = Ok None \<or>
    (\<exists>pos ls'. static_find m ls ps = Ok (Some pos) \<and> named H m (unat pos) ls' \<and>
      canonical_labels ls' = canonical_labels ls)"
  using assms(3)
proof (induction ps)
  case (Cons p ps)
  from Cons.prems [of p] consider (right) ls' where "named H m (unat p) ls'" | (pending) "pending H m ls (unat p, None)"
    by (auto simp: right_def)
  then show ?case
  proof cases
    case right
    then have "labels_eq_slice ls (iter_slice m (unat p)) = Some (labels_eq ls ls')"
      using labels_eq_slice_at [OF named_name_at assms(2)] by simp
    with Cons right show ?thesis by (auto simp: labels_eq_canonical split: bool.splits)
  next
    case pending
    then have "labels_eq_slice ls (iter_slice m (unat p)) = Some False"
      using labels_eq_slice_pending [OF _ _ _ assms(1)] by (auto simp: pending_def)
    with Cons show ?thesis by auto
  qed
qed simp

interpretation static_table: name_table static_get static_insert static_truncate static_table_new static_tidy static_claims
proof
  show "static_tidy static_table_new \<and> static_claims static_table_new = {}"
    by (simp add: static_tidy_def static_claims_def static_table_new_def)
next
  fix T l ls m H
  assume "static_tidy T" "abs_labels (l # ls)" "length (m :: octets) \<le> 0x4000"
    "\<And>c. c \<in> static_claims T \<Longrightarrow> right H m c \<or> pending H m (l # ls) c"
  then show "static_get m T (l # ls) = Ok None \<or>
      (\<exists>pos ls'. static_get m T (l # ls) = Ok (Some pos) \<and> named H m (unat pos) ls' \<and>
        canonical_labels ls' = canonical_labels (l # ls))"
    using static_find_correct [of "l # ls" m "take (st_len T) (st_entries T)" H]
    by (auto simp: static_get_def static_claims_def static_tidy_def usize_MAX_def)
next
  fix T l ls pos
  assume "static_tidy T"
  then show "\<exists>b T'. static_insert (l # ls) pos T = (Ok b, T') \<and> static_tidy T' \<and>
        static_claims T' \<subseteq> static_claims T \<union> (if b then {(pos, None), (pos, Some (l # ls))} else {})"
    by (auto simp: static_insert_def static_tidy_def static_claims_def take_Suc_conv_app_nth unat_of_nat)
next
  fix T n
  assume T: "static_tidy T"
  show "static_tidy (static_truncate n T) \<and>
      static_claims (static_truncate n T) \<subseteq> {c \<in> static_claims T. fst c < n}"
  proof (cases "n < 0xC000")
    case True
    let ?P = "\<lambda>p. \<not> p \<ge> (of_nat n :: u16)"
    define ps where "ps = take (st_len T) (st_entries T)"
    define qs where "qs = takeWhile ?P ps"
    have len: "length qs \<le> st_len T"
      unfolding qs_def ps_def by (rule order_trans [OF length_takeWhile_le]) simp
    have "take (length qs) (st_entries T) = take (length qs) ps" using len by (simp add: ps_def min_absorb1)
    also have "\<dots> = qs" unfolding qs_def by (rule takeWhile_eq_take [symmetric])
    finally have "take (length qs) (st_entries T) = qs" .
    moreover have "unat p < n \<and> p \<in> set ps" if "p \<in> set qs" for p
      using set_takeWhileD [OF that [unfolded qs_def]] True by (simp add: word_le_nat_alt unat_of_nat)
    moreover have "static_truncate n T = T\<lparr>st_len := length qs\<rparr>"
      using True by (simp add: static_truncate_def qs_def ps_def)
    ultimately show ?thesis
      using T len unfolding static_tidy_def static_claims_def ps_def [symmetric] by fastforce
  qed (use T in \<open>auto simp: static_truncate_def static_tidy_def static_claims_def\<close>)
qed

text \<open>A tree knows the names.\<close>

lemma tree_find_default [simp]: "tree_find node_default ls = None"
  by (cases ls) (simp_all add: node_default_def)

lemma tree_put_Ok: "list_all valid_label ls \<Longrightarrow> \<exists>T'. tree_put ls pos T = Ok T'"
proof (induction ls arbitrary: T)
  case (Cons l ls)
  then obtain T' where "tree_put ls pos (case parents T l of None \<Rightarrow> node_default | Some child \<Rightarrow> child) = Ok T'"
    by fastforce
  with Cons.prems show ?case by (auto simp: valid_label_def LABEL_MAX_LEN_def)
qed simp

lemma tree_find_put:
  assumes "tree_put ls pos T = Ok T'" "abs_labels ls" "abs_labels ns"
  shows "tree_find T' ns = (if ns = ls then Some pos else tree_find T ns)"
  using assms
proof (induction ls arbitrary: T T' ns)
  case (Cons l ls)
  from Cons.prems(3) obtain n ns' where ns: "ns = n # ns'" by (cases ns) auto
  let ?T = "case parents T l of None \<Rightarrow> node_default | Some child \<Rightarrow> child"
  show ?case
  proof (cases "l = []")
    case True
    with Cons.prems ns show ?thesis by (auto simp: label_is_root_def abs_labels_Cons)
  next
    case False
    with Cons.prems(1) obtain child where child: "tree_put ls pos ?T = Ok child"
      "T' = Node ((parents T)(l \<mapsto> child)) (node_value T)"
      by (cases "tree_put ls pos ?T") (auto simp: label_is_root_def split: if_splits)
    have "tree_find child ns' = (if ns' = ls then Some pos else tree_find ?T ns')" if "n = l"
      using Cons.prems(2,3) that ns False by (intro Cons.IH [OF child(1)]) (auto simp: abs_labels_Cons)
    then show ?thesis using child(2) ns False by (auto simp: label_is_root_def split: option.splits)
  qed
qed simp

lemma tree_find_drop_above:
  "tree_find (drop_above n T) ls =
     (case tree_find T ls of Some v \<Rightarrow> if v < n then Some v else None | None \<Rightarrow> None)"
proof (induction ls arbitrary: T)
  case (Cons l ls)
  then show ?case by (cases T) (auto split: option.splits)
qed simp

definition tree_claims :: "node \<Rightarrow> claim set" where
  "tree_claims T = {(unat v, Some ls) | v ls. abs_labels ls \<and> tree_find T ls = Some v}"

definition tree_tidy :: "node \<Rightarrow> bool" where
  "tree_tidy T \<longleftrightarrow> (\<forall>c \<in> tree_claims T. fst c < 0xC000)"

interpretation tree_table: name_table tree_get tree_insert tree_truncate node_default tree_tidy tree_claims
proof
  show "tree_tidy node_default \<and> tree_claims node_default = {}"
    by (simp add: tree_tidy_def tree_claims_def)
next
  fix T l ls m H
  assume ls: "abs_labels (l # ls)" and claims: "\<And>c. c \<in> tree_claims T \<Longrightarrow> right H m c \<or> pending H m (l # ls) c"
  show "tree_get m T (l # ls) = Ok None \<or>
      (\<exists>pos ls'. tree_get m T (l # ls) = Ok (Some pos) \<and> named H m (unat pos) ls' \<and>
        canonical_labels ls' = canonical_labels (l # ls))"
  proof (cases "tree_find T (l # ls)")
    case (Some v)
    with ls have "(unat v, Some (l # ls)) \<in> tree_claims T" unfolding tree_claims_def by blast
    from claims [OF this] Some show ?thesis unfolding tree_get_def by (auto simp: right_def pending_def)
  qed (simp add: tree_get_def)
next
  fix T l ls pos
  assume T: "tree_tidy T" and ls: "abs_labels (l # ls)"
  from tree_put_Ok [OF abs_labels_valid [OF ls]] obtain T' where T': "tree_put (l # ls) (of_nat pos) T = Ok T'" by blast
  show "\<exists>b T'. tree_insert (l # ls) pos T = (Ok b, T') \<and> tree_tidy T' \<and>
        tree_claims T' \<subseteq> tree_claims T \<union> (if b then {(pos, None), (pos, Some (l # ls))} else {})"
  proof (cases "pos < 0xC000")
    case True
    have claims: "tree_claims T' \<subseteq> tree_claims T \<union> {(pos, None), (pos, Some (l # ls))}"
      using True tree_find_put [OF T' ls] by (auto simp: tree_claims_def unat_of_nat split: if_splits)
    have "fst c < 0xC000" if "c \<in> tree_claims T'" for c
      using subsetD [OF claims that] T [unfolded tree_tidy_def] True by auto
    then have "tree_tidy T'" by (simp add: tree_tidy_def)
    moreover have "tree_insert (l # ls) pos T = (Ok True, T')" using True T' by (simp add: tree_insert_def)
    ultimately show ?thesis using claims by (intro exI [of _ True] exI [of _ T'] conjI) (simp_all only: if_True)
  qed (use T in \<open>intro exI [of _ False] exI [of _ T], simp add: tree_insert_def\<close>)
next
  fix T n
  assume T: "tree_tidy T"
  show "tree_tidy (tree_truncate n T) \<and> tree_claims (tree_truncate n T) \<subseteq> {c \<in> tree_claims T. fst c < n}"
  proof (cases "n < 0xC000")
    case True
    then have n: "unat (of_nat n :: u16) = n" by (simp add: unat_of_nat)
    have "tree_find T ls = Some v \<and> unat v < n" if "tree_find (tree_truncate n T) ls = Some v" for ls v
      using that True by (cases "tree_find T ls")
        (simp_all add: tree_truncate_def tree_find_drop_above word_less_nat_alt n split: if_splits)
    then have claims: "tree_claims (tree_truncate n T) \<subseteq> {c \<in> tree_claims T. fst c < n}"
      unfolding tree_claims_def by fastforce
    then show ?thesis using T unfolding tree_tidy_def by blast
  qed (use T in \<open>auto simp: tree_tidy_def tree_truncate_def\<close>)
qed

section \<open>The compressors as composers\<close>

abbreviation static_good :: "'b builder_ops \<Rightarrow> ('b \<Rightarrow> bool) \<Rightarrow> nat set \<Rightarrow> ('b, static_table) compressor \<Rightarrow> bool" where
  "static_good B J \<equiv> compressor_good B J static_tidy static_claims right"

abbreviation static_cut :: "'b builder_ops \<Rightarrow> ('b \<Rightarrow> bool) \<Rightarrow> nat set \<Rightarrow> ('b, static_table) compressor \<Rightarrow> nat \<Rightarrow> bool" where
  "static_cut B J \<equiv> compressor_cut B J static_tidy static_claims fst right"

abbreviation tree_good :: "'b builder_ops \<Rightarrow> ('b \<Rightarrow> bool) \<Rightarrow> nat set \<Rightarrow> ('b, node) compressor \<Rightarrow> bool" where
  "tree_good B J \<equiv> compressor_good B J tree_tidy tree_claims right"

abbreviation tree_cut :: "'b builder_ops \<Rightarrow> ('b \<Rightarrow> bool) \<Rightarrow> nat set \<Rightarrow> ('b, node) compressor \<Rightarrow> nat \<Rightarrow> bool" where
  "tree_cut B J \<equiv> compressor_cut B J tree_tidy tree_claims fst right"

context target_on
begin

lemma static_table_on: "table_on B J static_get static_insert static_truncate static_table_new static_tidy static_claims"
  by (rule table_on.intro [OF target_on_axioms static_table.name_table_axioms])

lemma tree_table_on: "table_on B J tree_get tree_insert tree_truncate node_default tree_tidy tree_claims"
  by (rule table_on.intro [OF target_on_axioms tree_table.name_table_axioms])

lemma static_composer_on: "composer (static_compressor B) (static_good B J) (static_cut B J) 0x4000"
  unfolding static_compressor_def Let_def by (rule table_on.table_composer [OF static_table_on])

lemma tree_composer_on: "composer (tree_compressor B) (tree_good B J) (tree_cut B J) 0x4000"
  unfolding tree_compressor_def Let_def by (rule table_on.table_composer [OF tree_table_on])

end

interpretation vec_static: composer "static_compressor vec_builder" "static_good vec_builder (\<lambda>_. True)"
    "static_cut vec_builder (\<lambda>_. True)" "0x4000"
  by (rule vec_builder.on.static_composer_on)

interpretation vec_tree: composer "tree_compressor vec_builder" "tree_good vec_builder (\<lambda>_. True)"
    "tree_cut vec_builder (\<lambda>_. True)" "0x4000"
  by (rule vec_builder.on.tree_composer_on)

interpretation stream_static: table_on "stream_builder vec_builder" "stream_on vec_builder (\<lambda>_. True)"
    static_get static_insert static_truncate static_table_new static_tidy static_claims
  by (rule target_on.static_table_on [OF vec_builder.on.stream_target_on])

interpretation stream_tree: table_on "stream_builder vec_builder" "stream_on vec_builder (\<lambda>_. True)"
    tree_get tree_insert tree_truncate node_default tree_tidy tree_claims
  by (rule target_on.tree_table_on [OF vec_builder.on.stream_target_on])

section \<open>Reading back\<close>

lemma name_at_unique: "name_at octs p ls \<Longrightarrow> name_at octs p ns \<Longrightarrow> ls = ns"
proof (induction arbitrary: ns rule: name_at.induct)
  case (root pos)
  then show ?case by (simp add: name_at_at_root)
next
  case (label pos l ls)
  then obtain ns' where "ns = l # ns'" "name_at octs (pos + 1 + unat (octs ! pos)) ns'"
    using name_at_at_label [OF label(1-3)] by blast
  with label.IH show ?case by simp
next
  case (pointer pos ls)
  then have "pos < length octs" by simp
  then show ?case using name_at_at_pointer [OF _ pointer(2)] pointer by blast
qed

lemma named_unique: "named H m p ls \<Longrightarrow> named H m p ns \<Longrightarrow> ls = ns"
  by (blast dest: named_name_at name_at_unique)

lemma name_span_unique: "name_span octs p k \<Longrightarrow> name_span octs p k' \<Longrightarrow> k = k'"
proof (induction arbitrary: k' rule: name_span.induct)
  case (span_root pos)
  from span_root.prems show ?case by cases (use span_root in auto)
next
  case (span_label pos k)
  from span_label.prems show ?case by cases (use span_label(1,2) in \<open>simp_all add: span_label.IH\<close>)
next
  case (span_pointer pos)
  from span_pointer.prems show ?case by cases (use span_pointer in auto)
qed

context octseq_parser
begin

lemma parse_name_at:
  assumes "name_at (p_data p) (p_pos p) ls" "length (wire ls) \<le> 255" "name_span (p_data p) (p_pos p) k" "parser_wf p"
  shows "\<exists>pn. parsed_name_parse P p = Ok (pn, p_forward p k) \<and> pn_is pn ls"
proof -
  note spec = parsed_name_parse_spec [OF assms(4)]
  then show ?thesis
  proof (cases "parsed_name_parse P p")
    case (Ok a)
    obtain pn p' where a: "a = (pn, p')" by fastforce
    with spec Ok obtain ls' k' where "name_at (p_data p) (p_pos p) ls'" "pn_is pn ls'" "name_span (p_data p) (p_pos p) k'"
      "p' = p_forward p k'" by (auto simp: at_spec_def)
    moreover from this assms have "ls' = ls" "k' = k" by (blast dest: name_at_unique name_span_unique)+
    ultimately show ?thesis using Ok a by simp
  qed (use assms in \<open>auto simp: at_spec_def\<close>)
qed

end

lemma canonical_wire_length: "length (wire (canonical_labels ls)) = length (wire ls)"
  by (induction ls) (simp_all add: label_make_canonical_def)

context octets_target
begin

lemma static_composer: "composer (static_compressor B) (static_good B (\<lambda>_. True)) (static_cut B (\<lambda>_. True)) 0x4000"
  by (rule on.static_composer_on)

lemma tree_composer: "composer (tree_compressor B) (tree_good B (\<lambda>_. True)) (tree_cut B (\<lambda>_. True)) 0x4000"
  by (rule on.tree_composer_on)

end

definition example_view :: label_view where
  "example_view = \<lparr>lv_labels = [[97], []], lv_back = [[], [97]], lv_compose_len = Ok 3, lv_flat = None\<rparr>"

lemma example_view_ok: "view_ok example_view \<and> abs_labels (lv_labels example_view)"
  by (simp add: example_view_def view_ok_def abs_labels_Cons valid_label_def LABEL_MAX_LEN_def NAME_MAX_LEN_def wire_label_def)

text \<open>
  Writing a name that the static table does not know: the entries of the table either refer to labels of the name that is
  being written or there are none.
\<close>

lemma static_find_pending:
  assumes "abs_labels ls" "\<And>p. p \<in> set ps \<Longrightarrow> pending {} m ls (unat p, None)"
  shows "static_find m ls ps = Ok None"
  using assms(2)
proof (induction ps)
  case (Cons p ps)
  then have "labels_eq_slice ls (iter_slice m (unat p)) = Some False"
    using labels_eq_slice_pending [OF _ _ _ assms(1)] by (auto simp: pending_def)
  with Cons show ?case by simp
qed simp

lemma vec_labels:
  "compose_all (label_compose (compressor_builder T0 trunc vec_builder)) ls \<lparr>cp_target = m, cp_table = T\<rparr> =
    (Ok (), \<lparr>cp_target = m @ wire ls, cp_table = T\<rparr>)"
  by (induction ls arbitrary: m)
    (simp_all add: label_compose_def compressor_builder_def vec_builder_def then_compose_def compose_u8_def wire_label_def)

lemma static_loop_fresh:
  assumes "abs_labels ls" "static_tidy T" "\<And>p. p \<in> set (take (st_len T) (st_entries T)) \<Longrightarrow> pending {} m ls (unat p, None)"
  shows "\<exists>T'. compress_loop static_get static_insert (compressor_builder static_table_new static_truncate vec_builder) ls
      \<lparr>cp_target = m, cp_table = T\<rparr> = (Ok (), \<lparr>cp_target = m @ wire ls, cp_table = T'\<rparr>) \<and>
    static_tidy T' \<and> (\<exists>ps. take (st_len T') (st_entries T') = take (st_len T) (st_entries T) @ ps)"
  using assms
proof (induction ls arbitrary: m T)
  case (Cons l ls)
  let ?S = "compressor_builder static_table_new static_truncate vec_builder"
  have compose: "label_compose ?S l \<lparr>cp_target = m, cp_table = T\<rparr> = (Ok (), \<lparr>cp_target = m @ wire_label l, cp_table = T\<rparr>)" for T
    using vec_labels [of static_table_new static_truncate "[l]" m T] by (simp split: prod.splits result.splits)
  have ref: "bo_as_ref ?S \<lparr>cp_target = m, cp_table = T\<rparr> = m" for T by (simp add: compressor_builder_def vec_builder_def)
  have "static_get m T (l # ls) = Ok None"
    using static_find_pending [OF Cons.prems(1,3)] Cons.prems(2) by (simp add: static_get_def static_tidy_def)
  then have eq: "compress_loop static_get static_insert ?S (l # ls) \<lparr>cp_target = m, cp_table = T\<rparr> =
      (if l = [] then (Ok (), \<lparr>cp_target = m @ wire_label l, cp_table = T\<rparr>)
       else if length m < 0xC000 \<and> st_len T < 24
       then compress_loop static_get static_insert ?S ls \<lparr>cp_target = m @ wire_label l,
         cp_table = \<lparr>st_entries = (st_entries T)[st_len T := of_nat (length m)], st_len = st_len T + 1\<rparr>\<rparr>
       else (Ok (), \<lparr>cp_target = m @ wire (l # ls), cp_table = T\<rparr>))"
    unfolding compress_loop.simps [of _ _ _ "l # ls"] using Cons.prems(2) compose [of T]
    by (cases "l = []") (simp_all add: label_is_root_def ref static_insert_def static_tidy_def compose vec_labels then_compose_def
        del: compose_all.simps)
  show ?case
  proof (cases "l \<noteq> [] \<and> length m < 0xC000 \<and> st_len T < 24")
    case True
    let ?T = "\<lparr>st_entries = (st_entries T)[st_len T := of_nat (length m) :: u16], st_len = st_len T + 1\<rparr>"
    from True Cons.prems(1) have l: "abs_labels ls" "valid_label l" "l \<noteq> []" by (auto simp: abs_labels_Cons)
    have unat: "unat (of_nat (length m) :: u16) = length m" using True by (simp add: unat_of_nat)
    have T: "take (st_len ?T) (st_entries ?T) = take (st_len T) (st_entries T) @ [of_nat (length m)]" "static_tidy ?T"
      using True Cons.prems(2) unat by (simp_all add: static_tidy_def take_Suc_conv_app_nth)
    have "pending {} (m @ wire_label l) ls (unat p, None)" if p: "p \<in> set (take (st_len ?T) (st_entries ?T))" for p
    proof (cases "p \<in> set (take (st_len T) (st_entries T))")
      case True
      from Cons.prems(3) [OF this] obtain js where "unat p \<le> length m" "js \<noteq> []" "rel_labels js" "drop (unat p) m = wire js"
        by (auto simp: pending_def)
      with l show ?thesis by (auto simp: pending_def intro!: exI [of _ "js @ [l]"])
    next
      case False
      with p T(1) unat have "unat p = length m" by auto
      with l show ?thesis by (auto simp: pending_def intro!: exI [of _ "[l]"])
    qed
    from Cons.IH [OF l(1) T(2) this] T(1) True eq show ?thesis by fastforce
  next
    case False
    with eq Cons.prems(1,2) show ?thesis by (auto simp: abs_labels_Cons)
  qed
qed simp

text \<open>A name that is written twice in a row, at a position that the table takes, is a pointer the second time.\<close>

lemma static_twice:
  assumes "view_ok v" "abs_labels (lv_labels v)" "lv_labels v \<noteq> [[]]" "length m < 0xC000"
  shows "\<exists>T. compose_all (co_append_name (static_compressor vec_builder)) [v, v] \<lparr>cp_target = m, cp_table = static_table_new\<rparr> =
    (Ok (), \<lparr>cp_target = m @ wire (lv_labels v) @ to_be_bytes ((of_nat (length m) :: u16) OR 0xC000), cp_table = T\<rparr>)"
proof -
  let ?S = "compressor_builder static_table_new static_truncate vec_builder" and ?loop = "compress_loop static_get static_insert"
  obtain l ls where ls: "lv_labels v = l # ls" "l \<noteq> []" using assms(2,3) by (cases "lv_labels v") (auto simp: abs_labels_Cons)
  let ?T = "\<lparr>st_entries = of_nat (length m) # replicate 23 0, st_len = 1\<rparr>"
  have unat: "unat (of_nat (length m) :: u16) = length m" using assms(4) by (simp add: unat_of_nat)
  have vl: "valid_label l" "abs_labels ls" using assms(2) ls by (auto simp: abs_labels_Cons)
  have "(replicate 24 0)[0 := x] = x # replicate 23 0" for x :: u16 by (simp add: numeral_eq_Suc)
  with assms(4) have new: "static_get m static_table_new ns = Ok None" "static_insert ns (length m) static_table_new = (Ok True, ?T)" for ns
    by (simp_all add: static_get_def static_table_new_def static_insert_def)
  have ref: "bo_as_ref ?S \<lparr>cp_target = m, cp_table = T\<rparr> = m" for m T by (simp add: compressor_builder_def vec_builder_def)
  have "label_compose ?S l \<lparr>cp_target = m, cp_table = T\<rparr> = (Ok (), \<lparr>cp_target = m @ wire_label l, cp_table = T\<rparr>)" for T
    using vec_labels [of static_table_new static_truncate "[l]" m T] by (simp split: prod.splits result.splits)
  then have first: "?loop ?S (l # ls) \<lparr>cp_target = m, cp_table = static_table_new\<rparr> =
      ?loop ?S ls \<lparr>cp_target = m @ wire_label l, cp_table = ?T\<rparr>"
    using ls(2) by (simp add: compress_loop.simps [of _ _ _ "l # ls"] label_is_root_def ref new then_compose_def)
  have "pending {} (m @ wire_label l) ls (unat (of_nat (length m) :: u16), None)"
    using vl ls(2) unat by (auto simp: pending_def intro!: exI [of _ "[l]"])
  then obtain T ps where T: "?loop ?S ls \<lparr>cp_target = m @ wire_label l, cp_table = ?T\<rparr> =
      (Ok (), \<lparr>cp_target = (m @ wire_label l) @ wire ls, cp_table = T\<rparr>)"
    "static_tidy T" "take (st_len T) (st_entries T) = of_nat (length m) # ps"
    using static_loop_fresh [OF vl(2), of ?T "m @ wire_label l"] unat assms(4) by (auto simp: static_tidy_def)
  have "length (m @ wire (l # ls)) \<le> usize_MAX"
    using view_okD(4) [OF assms(1)] assms(4) by (simp add: ls(1) NAME_MAX_LEN_def usize_MAX_def)
  from labels_eq_slice_at [OF named_name_at [OF named_wire [of "l # ls" "{}" m]] this, of "l # ls"] assms(2)
  have "labels_eq_slice (l # ls) (iter_slice (m @ wire (l # ls)) (length m)) = Some True"
    by (simp add: ls(1) labels_eq_canonical)
  with T(2,3) unat have "static_get (m @ wire (l # ls)) T (l # ls) = Ok (Some (of_nat (length m)))"
    by (simp add: static_get_def static_tidy_def)
  with ls(2) have "?loop ?S (l # ls) \<lparr>cp_target = m @ wire (l # ls), cp_table = T\<rparr> =
      (Ok (), \<lparr>cp_target = m @ wire (l # ls) @ to_be_bytes ((of_nat (length m) :: u16) OR 0xC000), cp_table = T\<rparr>)"
    by (simp add: compress_loop.simps [of _ _ _ "l # ls"] label_is_root_def ref compose_be_def)
      (simp add: compressor_builder_def vec_builder_def)
  with first T(1) ls(1) show ?thesis by (simp add: static_compressor_def Let_def)
qed

lemma pointer_target_bytes: "pointer_target (m @ to_be_bytes (w OR 0xC000 :: u16)) (length m) = unat w mod 0x4000"
proof -
  let ?p = "unat w mod 0x4000"
  have p: "?p < 0x4000" by simp
  have "unat (of_nat (?p div 256 + 192) :: octet) = ?p div 256 + 192"
    using pointer_split(3) [OF p] by (simp only: unat_of_nat) simp
  moreover have "(?p div 256 + 192) mod 64 = ?p div 256"
    using mod_mult_self1 [of "?p div 256" 3 64] pointer_split(3) [OF p] by simp
  ultimately show ?thesis
    unfolding pointer_target_def to_be_bytes_u16 unat_or_pointer_tag pointer_split [OF p] by (simp add: unat_of_nat nth_append)
qed

section \<open>Properties\<close>



end
