(* ===== verification/Writing.thy ===== *)
theory Writing
  imports Compress
begin

text \<open>
  What composing steps write and what parsers read.  A value that is written into a message has a meaning: a
  predicate of the message, the position at which the value starts and the one at which it ends.  Steps
  write meanings, for every composer that satisfies the contract \<open>composer\<close>; parsers read them.
\<close>

section \<open>Meanings\<close>

type_synonym meaning = "octets \<Rightarrow> nat \<Rightarrow> nat \<Rightarrow> bool"

text \<open>A value is written between two positions if it means what it means whatever comes after its end.\<close>

definition written :: "octets \<Rightarrow> nat \<Rightarrow> nat \<Rightarrow> meaning \<Rightarrow> bool" where
  "written m a b Q \<longleftrightarrow> a \<le> b \<and> b \<le> length m \<and> (\<forall>ys. Q (take b m @ ys) a b)"

definition octets_meaning :: "octets \<Rightarrow> meaning" where
  "octets_meaning xs m a b \<longleftrightarrow> b = a + length xs \<and> take (length xs) (drop a m) = xs"

definition name_meaning :: "label_view \<Rightarrow> meaning" where
  "name_meaning v m a b \<longleftrightarrow> (\<exists>ls. name_at m a ls \<and> name_span m a (b - a) \<and> canonical_labels ls = canonical_labels (lv_labels v))"

definition seq_meaning :: "meaning \<Rightarrow> meaning \<Rightarrow> meaning" where
  "seq_meaning Q R m a c \<longleftrightarrow> (\<exists>b. written m a b Q \<and> written m b c R)"

lemma written_take: "b \<le> n \<Longrightarrow> written (take n m) a b Q \<longleftrightarrow> b \<le> length m \<and> written m a b Q"
  by (auto simp: written_def min_absorb1)

lemma written_append: "written m a b Q \<Longrightarrow> written (m @ ys) a b Q"
  by (simp add: written_def)

lemma written_now: "written m a b Q \<Longrightarrow> Q m a b"
  unfolding written_def by (metis append_take_drop_id)

lemma written_prefix: "written m a b Q \<Longrightarrow> b \<le> n \<Longrightarrow> Q (take n m) a b"
  by (rule written_now) (simp add: written_take, simp add: written_def)

lemma written_octets:
  "written m a b (octets_meaning xs) \<longleftrightarrow> b = a + length xs \<and> b \<le> length m \<and> take (length xs) (drop a m) = xs"
  by (auto simp: written_def octets_meaning_def drop_take)

lemma written_seq: "written m a c (seq_meaning Q R) \<longleftrightarrow> (\<exists>b. written m a b Q \<and> written m b c R)"
proof
  assume "\<exists>b. written m a b Q \<and> written m b c R"
  then obtain b where b: "written m a b Q" "written m b c R" by blast
  then have "b \<le> c" "a \<le> b" "c \<le> length m" by (simp_all add: written_def)
  then have "seq_meaning Q R (take c m @ ys) a c" for ys
    using b by (auto simp: seq_meaning_def written_take intro!: exI [of _ b] written_append)
  with \<open>b \<le> c\<close> \<open>a \<le> b\<close> \<open>c \<le> length m\<close> show "written m a c (seq_meaning Q R)" by (simp add: written_def)
qed (auto dest!: written_now simp: seq_meaning_def)

text \<open>It is kept if the octets at certain positions may still change.\<close>

definition keeps :: "nat set \<Rightarrow> octets \<Rightarrow> nat \<Rightarrow> nat \<Rightarrow> meaning \<Rightarrow> bool" where
  "keeps H m a b Q \<longleftrightarrow> (\<forall>m'. agree H m m' \<longrightarrow> written m' a b Q)"

lemma keeps_written: "keeps H m a b Q \<Longrightarrow> written m a b Q"
  by (simp add: keeps_def)

lemma keeps_bounds: "keeps H m a b Q \<Longrightarrow> a \<le> b \<and> b \<le> length m"
  by (drule keeps_written) (simp add: written_def)

lemma keeps_agree: "keeps H m a b Q \<Longrightarrow> agree H m m' \<Longrightarrow> keeps H m' a b Q"
  unfolding keeps_def by (blast intro: agree_trans)

lemma keeps_free:
  assumes "keeps H m a b Q" "H' \<inter> {..<length m} \<subseteq> H"
  shows "keeps H' (m @ ys) a b Q"
  unfolding keeps_def
proof (intro allI impI)
  fix m' assume "agree H' (m @ ys) m'"
  from agree_prefix [OF this assms(2)] assms(1) have "written (take (length m) m') a b Q" by (simp add: keeps_def)
  then show "written m' a b Q" using keeps_bounds [OF assms(1)] by (simp add: written_take)
qed

lemma keeps_append: "keeps H m a b Q \<Longrightarrow> keeps H (m @ ys) a b Q"
  by (erule keeps_free) simp

lemma keeps_anti: "keeps H m a b Q \<Longrightarrow> H' \<inter> {..<length m} \<subseteq> H \<Longrightarrow> keeps H' m a b Q"
  using keeps_free [of H m a b Q H' "[]"] by simp

lemma keeps_seq: "keeps H m a b Q \<Longrightarrow> keeps H m b c R \<Longrightarrow> keeps H m a c (seq_meaning Q R)"
  unfolding keeps_def written_seq by blast

lemma keeps_weaken:
  "keeps H m a b Q \<Longrightarrow> (\<And>m. written m a b Q \<Longrightarrow> R m a b) \<Longrightarrow> keeps H m a b R"
  unfolding keeps_def written_def by (simp add: min_absorb1)

lemma keeps_octets:
  "H \<subseteq> {..<length m} \<Longrightarrow> keeps H (m @ xs) (length m) (length (m @ xs)) (octets_meaning xs)"
  unfolding keeps_def written_octets
  using agree_slice [of H "m @ xs" _ "length m" "length xs"] below_disjoint [of H "length m" "length m + length xs"]
  by (auto simp: agree_def)

lemma keeps_name:
  assumes "named H (m @ ys) (length m) ls" "name_octets ys" "H \<subseteq> {..<length m}"
    and "canonical_labels ls = canonical_labels (lv_labels v)"
  shows "keeps H (m @ ys) (length m) (length (m @ ys)) (name_meaning v)"
  unfolding keeps_def
proof (intro allI impI)
  fix m' assume m': "agree H (m @ ys) m'"
  then have len: "length m' = length m + length ys" by (simp add: agree_def)
  have "drop (length m) m' = ys"
    using agree_slice [OF m', of "length m" "length ys"] below_disjoint [OF assms(3), of "length m + length ys"] len by simp
  then have m'_eq: "m' = take (length m) m' @ ys" by (metis append_take_drop_id)
  have "name_at m' (length m) ls" using assms(1) m' by (simp add: named_def)
  then have "name_meaning v (m' @ zs) (length m) (length (m @ ys))" for zs
    using name_span_octets [OF assms(2), of "take (length m) m'" zs] assms(4) m'_eq len name_at_mono [of m' "length m" ls zs]
    by (simp add: name_meaning_def) (metis append_assoc)
  then show "written m' (length m) (length (m @ ys)) (name_meaning v)" using len by (simp add: written_def)
qed

section \<open>Writing\<close>

text \<open>
  A step writes a meaning of at most \<open>k\<close> octets: it does not panic, keeps what may be cut back to, and if it succeeds has appended
  octets that mean it.
\<close>

definition wrote ::
    "'b composer_ops \<Rightarrow> (nat set \<Rightarrow> 'b \<Rightarrow> bool) \<Rightarrow> (nat set \<Rightarrow> 'b \<Rightarrow> nat \<Rightarrow> bool) \<Rightarrow> nat \<Rightarrow> meaning \<Rightarrow>
     nat set \<Rightarrow> 'b \<Rightarrow> (unit, append_error) result \<Rightarrow> 'b \<Rightarrow> bool" where
  "wrote C good ct k Q H t r t' \<longleftrightarrow>
     r \<noteq> Panic \<and> (\<forall>n\<le>length (co_ref C t). ct H t n \<longrightarrow> ct H t' n) \<and>
     (\<exists>ys. co_ref C t' = co_ref C t @ ys \<and>
       (\<forall>u. r = Ok u \<longrightarrow> length ys \<le> k \<and> good H t' \<and> keeps H (co_ref C t') (length (co_ref C t)) (length (co_ref C t')) Q))"

definition writes ::
    "'b composer_ops \<Rightarrow> (nat set \<Rightarrow> 'b \<Rightarrow> bool) \<Rightarrow> (nat set \<Rightarrow> 'b \<Rightarrow> nat \<Rightarrow> bool) \<Rightarrow> nat \<Rightarrow> 'b target_step \<Rightarrow> nat \<Rightarrow> meaning \<Rightarrow> bool" where
  "writes C good ct lim f k Q \<longleftrightarrow> (\<forall>H t r t'. good H t \<longrightarrow> H \<subseteq> {..<length (co_ref C t)} \<longrightarrow>
     length (co_ref C t) + k \<le> lim \<longrightarrow> f t = (r, t') \<longrightarrow> wrote C good ct k Q H t r t')"

lemma writesD:
  assumes "writes C good ct lim f k Q" "good H t" "H \<subseteq> {..<length (co_ref C t)}" "length (co_ref C t) + k \<le> lim" "f t = (r, t')"
  shows "wrote C good ct k Q H t r t'"
  using assms by (simp add: writes_def)

lemma writesI:
  assumes "\<And>H t r t'. good H t \<Longrightarrow> H \<subseteq> {..<length (co_ref C t)} \<Longrightarrow> length (co_ref C t) + k \<le> lim \<Longrightarrow> f t = (r, t') \<Longrightarrow>
     wrote C good ct k Q H t r t'"
  shows "writes C good ct lim f k Q"
  using assms by (simp add: writes_def)

lemma wroteI:
  assumes "r \<noteq> Panic" "\<And>n. n \<le> length (co_ref C t) \<Longrightarrow> ct H t n \<Longrightarrow> ct H t' n" "co_ref C t' = co_ref C t @ ys"
    and "\<And>u. r = Ok u \<Longrightarrow> length ys \<le> k" "\<And>u. r = Ok u \<Longrightarrow> good H t'"
    and "\<And>u. r = Ok u \<Longrightarrow> keeps H (co_ref C t') (length (co_ref C t)) (length (co_ref C t')) Q"
  shows "wrote C good ct k Q H t r t'"
  unfolding wrote_def using assms by (intro conjI allI impI exI [of _ ys])

lemma wrote_no_Panic: "wrote C good ct k Q H t r t' \<Longrightarrow> r \<noteq> Panic"
  by (simp add: wrote_def)

lemma wrote_cut: "wrote C good ct k Q H t r t' \<Longrightarrow> n \<le> length (co_ref C t) \<Longrightarrow> ct H t n \<Longrightarrow> ct H t' n"
  by (simp add: wrote_def)

lemma wrote_ref: "wrote C good ct k Q H t r t' \<Longrightarrow> \<exists>ys. co_ref C t' = co_ref C t @ ys \<and> (\<forall>u. r = Ok u \<longrightarrow> length ys \<le> k)"
  by (auto simp: wrote_def)

lemma wrote_Ok:
  "wrote C good ct k Q H t r t' \<Longrightarrow> r = Ok u \<Longrightarrow>
    good H t' \<and> keeps H (co_ref C t') (length (co_ref C t)) (length (co_ref C t')) Q"
  by (auto simp: wrote_def)

lemma writes_weaken:
  assumes "writes C good ct lim f k Q" "k \<le> k'" "\<And>m a b. written m a b Q \<Longrightarrow> R m a b"
  shows "writes C good ct lim f k' R"
proof (rule writesI)
  fix H t r t'
  assume t: "good H t" "H \<subseteq> {..<length (co_ref C t)}" "length (co_ref C t) + k' \<le> lim" "f t = (r, t')"
  moreover from t(3) assms(2) have "length (co_ref C t) + k \<le> lim" by simp
  ultimately have "wrote C good ct k Q H t r t'" using writesD [OF assms(1)] by simp
  note w = wrote_no_Panic [OF this] wrote_cut [OF this] wrote_ref [OF this] wrote_Ok [OF this]
  from w(3) obtain ys where ys: "co_ref C t' = co_ref C t @ ys" "\<And>u. r = Ok u \<Longrightarrow> length ys \<le> k" by blast
  show "wrote C good ct k' R H t r t'"
  proof (rule wroteI)
    fix u assume "r = Ok u"
    with w(4) show "good H t'" "keeps H (co_ref C t') (length (co_ref C t)) (length (co_ref C t')) R"
      using keeps_weaken assms(3) by blast+
    show "length ys \<le> k'" using ys(2) [OF \<open>r = Ok u\<close>] assms(2) by simp
  qed (use w ys in simp_all)
qed

context composer
begin

lemma writes_append: "writes C good cut lim (\<lambda>t. bo_append (co_builder C) t xs) (length xs) (octets_meaning xs)"
proof (rule writesI)
  fix H t r t'
  assume t: "good H t" "H \<subseteq> {..<length (co_ref C t)}" "bo_append (co_builder C) t xs = (r, t')"
  note d = cut_append [OF good_cut [OF t(1)] order_refl t(3)]
  then obtain ys where ys: "r \<noteq> Panic" "co_ref C t' = co_ref C t @ ys" "\<And>u. r = Ok u \<Longrightarrow> ys = xs" by auto
  have "good H t'" if "r = Ok u" for u
  proof -
    from d that t(1) have "good (H \<union> {}) t'" by blast
    then show ?thesis by simp
  qed
  moreover have "cut H t' n" if "n \<le> length (co_ref C t)" "cut H t n" for n using cut_append [OF that(2,1) t(3)] by blast
  moreover have "keeps H (co_ref C t') (length (co_ref C t)) (length (co_ref C t')) (octets_meaning xs)" if "r = Ok u" for u
    using ys that keeps_octets [OF t(2), of xs] by simp
  ultimately show "wrote C good cut (length xs) (octets_meaning xs) H t r t'" using ys by (intro wroteI) auto
qed

lemma writes_be:
  "writes C good cut lim (compose_be (co_builder C) (w :: 'a::len word)) (LENGTH('a) div 8) (octets_meaning (to_be_bytes w))"
  using writes_append [of "to_be_bytes w"] by (simp add: compose_be_def [abs_def])

lemma writes_name:
  assumes "view_ok v" "abs_labels (lv_labels v)"
  shows "writes C good cut lim (co_append_name C v) (length (wire (lv_labels v))) (name_meaning v)"
proof (rule writesI)
  fix H t r t'
  assume t: "good H t" "H \<subseteq> {..<length (co_ref C t)}" "length (co_ref C t) + length (wire (lv_labels v)) \<le> lim"
    "co_append_name C v t = (r, t')"
  from cut_name [OF t(1) assms t(2-4)] obtain ys where "r \<noteq> Panic" "\<And>n. n \<le> length (co_ref C t) \<Longrightarrow> cut H t n \<Longrightarrow> cut H t' n"
    and ys: "co_ref C t' = co_ref C t @ ys"
    and ok: "\<And>u. r = Ok u \<Longrightarrow> length ys \<le> length (wire (lv_labels v)) \<and> name_octets ys \<and> good H t' \<and>
      (\<exists>ls. named H (co_ref C t') (length (co_ref C t)) ls \<and> canonical_labels ls = canonical_labels (lv_labels v))"
    by blast
  moreover have "keeps H (co_ref C t') (length (co_ref C t)) (length (co_ref C t')) (name_meaning v)" if "r = Ok u" for u
    using ok [OF that] keeps_name [OF _ _ t(2)] unfolding ys by blast
  ultimately show "wrote C good cut (length (wire (lv_labels v))) (name_meaning v) H t r t'"
    by (intro wroteI) auto
qed

lemma wrote_then:
  assumes f: "wrote C good cut k Q H t (Ok u) t1" and g: "wrote C good cut j R H t1 r t'"
  shows "wrote C good cut (k + j) (seq_meaning Q R) H t r t'"
proof -
  from wrote_ref [OF f] obtain xs where xs: "co_ref C t1 = co_ref C t @ xs" "length xs \<le> k" by blast
  from wrote_ref [OF g] obtain ys where ys: "co_ref C t' = co_ref C t1 @ ys" "\<And>u. r = Ok u \<Longrightarrow> length ys \<le> j" by blast
  have "keeps H (co_ref C t') (length (co_ref C t)) (length (co_ref C t1)) Q"
    using keeps_append [of H "co_ref C t1" _ _ Q ys] wrote_Ok [OF f refl] ys(1) by simp
  then show ?thesis
    using wrote_no_Panic [OF g] wrote_cut [OF f] wrote_cut [OF g] wrote_Ok [OF g] xs ys
    by (intro wroteI [where ys = "xs @ ys"]) (auto intro: keeps_seq add_mono)
qed

lemma wrote_Err:
  assumes "wrote C good cut k Q H t (Err e) t'"
  shows "wrote C good cut j R H t (Err e) t'"
  using assms by (auto simp: wrote_def)

lemma writes_then:
  assumes f: "writes C good cut lim f k Q" and g: "writes C good cut lim g j R"
  shows "writes C good cut lim (then_compose f g) (k + j) (seq_meaning Q R)"
proof (rule writesI)
  fix H t r t'
  assume t: "good H t" "H \<subseteq> {..<length (co_ref C t)}" "length (co_ref C t) + (k + j) \<le> lim" "then_compose f g t = (r, t')"
  obtain r1 t1 where t1: "f t = (r1, t1)" by fastforce
  have "length (co_ref C t) + k \<le> lim" using t(3) by simp
  note w = writesD [OF f t(1,2) this t1]
  show "wrote C good cut (k + j) (seq_meaning Q R) H t r t'"
  proof (cases r1)
    case (Ok u)
    with t1 t(4) have g1: "g t1 = (r, t')" by (simp add: then_compose_eq)
    from wrote_ref [OF w] Ok obtain xs where "co_ref C t1 = co_ref C t @ xs" "length xs \<le> k" by blast
    then have "H \<subseteq> {..<length (co_ref C t1)}" "length (co_ref C t1) + j \<le> lim"
      using t(3) below_le [OF t(2), of "length (co_ref C t1)"] by simp_all
    from writesD [OF g _ this g1] wrote_Ok [OF w Ok] have "wrote C good cut j R H t1 r t'" by blast
    with w Ok show ?thesis by (auto intro: wrote_then)
  qed (use t1 t(4) w wrote_no_Panic [OF w] in \<open>auto simp: then_compose_eq intro: wrote_Err\<close>)
qed

end

section \<open>Reading\<close>

text \<open>A parser reads a meaning: where it is written, within what the parser may see, it succeeds, gives a value that is right, and
  moves to the end of it.\<close>

definition reads :: "(parser \<Rightarrow> 'a parse_result) \<Rightarrow> meaning \<Rightarrow> ('a \<Rightarrow> bool) \<Rightarrow> bool" where
  "reads parse Q R \<longleftrightarrow> (\<forall>p b. parser_wf p \<longrightarrow> b \<le> p_len p \<longrightarrow> written (p_octets p) (p_pos p) b Q \<longrightarrow>
     (\<exists>x. parse p = Ok (x, p\<lparr>p_pos := b\<rparr>) \<and> R x))"

lemma readsD:
  assumes "reads parse Q R" "parser_wf p" "b \<le> p_len p" "written (p_octets p) (p_pos p) b Q"
  obtains x where "parse p = Ok (x, p\<lparr>p_pos := b\<rparr>)" "R x"
  using assms unfolding reads_def by blast

lemma reads_bind:
  assumes f: "reads f Q R" and g: "\<And>x. R x \<Longrightarrow> reads (g x) Q' R'"
  shows "reads (\<lambda>p. rbind (f p) (\<lambda>(x, p). g x p)) (seq_meaning Q Q') R'"
  unfolding reads_def
proof (intro allI impI)
  fix p c
  assume p: "parser_wf p" "c \<le> p_len p" "written (p_octets p) (p_pos p) c (seq_meaning Q Q')"
  then obtain b where b: "written (p_octets p) (p_pos p) b Q" "written (p_octets p) b c Q'" by (auto simp: written_seq)
  then have "b \<le> c" "p_pos p \<le> b" by (simp_all add: written_def)
  with p(2) have "b \<le> p_len p" by simp
  from readsD [OF f p(1) this b(1)] obtain x where x: "f p = Ok (x, p\<lparr>p_pos := b\<rparr>)" "R x" .
  have "parser_wf (p\<lparr>p_pos := b\<rparr>)" using p(1) \<open>b \<le> p_len p\<close> by (simp add: parser_wf_def)
  with p(2) b(2) obtain y where "g x (p\<lparr>p_pos := b\<rparr>) = Ok (y, p\<lparr>p_pos := c\<rparr>)" "R' y"
    using readsD [OF g [OF x(2)], of "p\<lparr>p_pos := b\<rparr>" c] by auto
  with x(1) show "\<exists>x. rbind (f p) (\<lambda>(x, p). g x p) = Ok (x, p\<lparr>p_pos := c\<rparr>) \<and> R' x" by simp
qed

lemma reads_map: "reads f Q R \<Longrightarrow> (\<And>x. R x \<Longrightarrow> R' (h x)) \<Longrightarrow> reads (\<lambda>p. rbind (f p) (\<lambda>(x, p). Ok (h x, p))) Q R'"
  unfolding reads_def by fastforce

context octseq_parser
begin

lemma reads_be:
  "reads (parse_u16 P) (octets_meaning (to_be_bytes a)) (\<lambda>x. x = a)"
  "reads (parse_u32 P) (octets_meaning (to_be_bytes b)) (\<lambda>x. x = b)"
proof -
  have rest: "p_rest p = xs @ drop (length xs) (p_rest p)"
    if "parser_wf p" "c \<le> p_len p" "written (p_octets p) (p_pos p) c (octets_meaning xs)" for p c xs
  proof -
    have "take (length xs) (p_rest p) = xs"
      using that by (simp add: written_octets p_rest_def parser_wf_def drop_take min_absorb1)
    then show ?thesis by (metis append_take_drop_id)
  qed
  show "reads (parse_u16 P) (octets_meaning (to_be_bytes a)) (\<lambda>x. x = a)"
    "reads (parse_u32 P) (octets_meaning (to_be_bytes b)) (\<lambda>x. x = b)"
    unfolding reads_def using parse_be_Ok(1) [OF _ rest] parse_be_Ok(2) [OF _ rest]
    by (auto simp: written_octets p_forward_def)
qed

lemma reads_name:
  assumes "length (wire (lv_labels v)) \<le> 255"
  shows "reads (parsed_name_parse P) (name_meaning v)
    (\<lambda>pn. \<exists>ls. pn_is pn ls \<and> canonical_labels ls = canonical_labels (lv_labels v))"
  unfolding reads_def
proof (intro allI impI)
  fix p b
  assume p: "parser_wf p" "b \<le> p_len p" "written (p_octets p) (p_pos p) b (name_meaning v)"
  from written_prefix [OF p(3,2)] obtain ls where ls: "name_at (p_data p) (p_pos p) ls" "name_span (p_data p) (p_pos p) (b - p_pos p)"
    "canonical_labels ls = canonical_labels (lv_labels v)" by (auto simp: name_meaning_def p_data_def)
  have "length (wire ls) \<le> 255"
    using assms arg_cong [OF ls(3), of "\<lambda>ls. length (wire ls)"] by (simp add: canonical_wire_length)
  from parse_name_at [OF ls(1) this ls(2) p(1)] obtain pn where
    "parsed_name_parse P p = Ok (pn, p_forward p (b - p_pos p))" "pn_is pn ls" by blast
  moreover have "p_forward p (b - p_pos p) = p\<lparr>p_pos := b\<rparr>" using p(3) by (simp add: p_forward_def written_def)
  ultimately show "\<exists>x. parsed_name_parse P p = Ok (x, p\<lparr>p_pos := b\<rparr>) \<and>
      (\<exists>ls. pn_is x ls \<and> canonical_labels ls = canonical_labels (lv_labels v))" using ls(3) by auto
qed

end

text \<open>What a composer wrote a parser reads at the position where it was written.\<close>

context composer
begin

lemma write_read:
  assumes "writes C good cut lim f k Q" "reads parse Q R" "good {} t" "length (co_ref C t) + k \<le> lim" "f t = (Ok u, t')"
  shows "\<exists>x. parse \<lparr>p_octets = co_ref C t', p_pos = length (co_ref C t), p_len = length (co_ref C t')\<rparr> =
      Ok (x, \<lparr>p_octets = co_ref C t', p_pos = length (co_ref C t'), p_len = length (co_ref C t')\<rparr>) \<and> R x"
proof -
  have "wrote C good cut k Q {} t (Ok u) t'" by (rule writesD [OF assms(1,3) _ assms(4,5)]) simp
  from keeps_written [OF conjunct2 [OF wrote_Ok [OF this refl]]]
  have w: "written (co_ref C t') (length (co_ref C t)) (length (co_ref C t')) Q" .
  let ?p = "\<lparr>p_octets = co_ref C t', p_pos = length (co_ref C t), p_len = length (co_ref C t')\<rparr>"
  have "parser_wf ?p" using w by (simp add: parser_wf_def written_def)
  with w readsD [OF assms(2), of ?p "length (co_ref C t')"] show ?thesis by fastforce
qed

end

section \<open>Sequences\<close>

fun seq_all :: "meaning list \<Rightarrow> meaning" where
  "seq_all [] = octets_meaning []"
| "seq_all (Q # Qs) = seq_meaning Q (seq_all Qs)"

text \<open>The names of a message, read one after the other from the position of the parser.\<close>

fun parse_names :: "parser_ops \<Rightarrow> nat \<Rightarrow> parser \<Rightarrow> parsed_name list parse_result" where
  "parse_names P 0 p = Ok ([], p)"
| "parse_names P (Suc n) p =
     rbind (parsed_name_parse P p) (\<lambda>(pn, p). rbind (parse_names P n p) (\<lambda>(pns, p). Ok (pn # pns, p)))"

text \<open>
  What is read back from a message to which names were appended: what was in it before is there, reading as many names as
  were appended, one after the other from its former end on, succeeds and stops at the new end, and the names
  are those that were appended, in their order and up to the case of letters.
\<close>

definition reads_back :: "parser_ops \<Rightarrow> octets \<Rightarrow> octets \<Rightarrow> label_view list \<Rightarrow> bool" where
  "reads_back P m m' vs \<longleftrightarrow> (\<exists>ys pns. m' = m @ ys \<and> length ys \<le> (\<Sum>v\<leftarrow>vs. length (wire (lv_labels v))) \<and>
     parse_names P (length vs) \<lparr>p_octets = m', p_pos = length m, p_len = length m'\<rparr> =
       Ok (pns, \<lparr>p_octets = m', p_pos = length m', p_len = length m'\<rparr>) \<and>
     list_all2 (\<lambda>v pn. \<exists>ls. pn_is pn ls \<and> canonical_labels ls = canonical_labels (lv_labels v)) vs pns)"

context octseq_parser
begin

lemma reads_names:
  assumes "\<And>v. v \<in> set vs \<Longrightarrow> length (wire (lv_labels v)) \<le> 255"
  shows "reads (parse_names P (length vs)) (seq_all (map name_meaning vs))
    (list_all2 (\<lambda>v pn. \<exists>ls. pn_is pn ls \<and> canonical_labels ls = canonical_labels (lv_labels v)) vs)"
  using assms
proof (induction vs)
  case Nil
  show ?case by (auto simp: reads_def written_octets)
next
  case (Cons v vs)
  then have "reads (parse_names P (length vs)) (seq_all (map name_meaning vs))
    (list_all2 (\<lambda>v pn. \<exists>ls. pn_is pn ls \<and> canonical_labels ls = canonical_labels (lv_labels v)) vs)" by simp
  note step = reads_bind [OF reads_name reads_map [OF this]]
  show ?case unfolding list.size(4) add_Suc_right add_0_right parse_names.simps list.map seq_all.simps
    by (rule step) (use Cons.prems in auto)
qed

end

context composer
begin

lemma writes_all:
  assumes "\<And>x. x \<in> set xs \<Longrightarrow> writes C good cut lim (f x) (k x) (Q x)"
  shows "writes C good cut lim (compose_all f xs) (sum_list (map k xs)) (seq_all (map Q xs))"
  using assms
proof (induction xs)
  case Nil
  have "keeps H (co_ref C t) (length (co_ref C t)) (length (co_ref C t)) (octets_meaning [])" for H t
    by (auto simp: keeps_def written_octets agree_def)
  then show ?case by (auto intro!: writesI wroteI)
next
  case (Cons x xs)
  have "compose_all f (x # xs) = then_compose (f x) (compose_all f xs)" by (rule ext) (simp add: then_compose_def)
  with Cons writes_then [of "f x" "k x" "Q x"] show ?case by simp
qed

lemma names_read_back:
  assumes "octseq_parser P" "good {} t"
    and "\<And>v. v \<in> set vs \<Longrightarrow> view_ok v \<and> abs_labels (lv_labels v)"
    and "length (co_ref C t) + (\<Sum>v\<leftarrow>vs. length (wire (lv_labels v))) \<le> lim"
    and "compose_all (co_append_name C) vs t = (r, t')"
  shows "r \<noteq> Panic \<and> (r = Ok () \<longrightarrow> reads_back P (co_ref C t) (co_ref C t') vs)"
proof -
  have w: "writes C good cut lim (compose_all (co_append_name C) vs) (\<Sum>v\<leftarrow>vs. length (wire (lv_labels v))) (seq_all (map name_meaning vs))"
    by (rule writes_all) (use assms(3) writes_name in blast)
  have "length (wire (lv_labels v)) \<le> 255" if "v \<in> set vs" for v
    using assms(3) [OF that] view_okD(4) [of v] by (simp add: NAME_MAX_LEN_def)
  note read = octseq_parser.reads_names [OF assms(1) this]
  note wrote = writesD [OF w assms(2) _ assms(4,5), simplified]
  have "reads_back P (co_ref C t) (co_ref C t') vs" if "r = Ok ()"
    using wrote_ref [OF wrote] write_read [OF w read assms(2,4), of "()" t'] assms(5) that unfolding reads_back_def by blast
  with wrote_no_Panic [OF wrote] show ?thesis by blast
qed

end

section \<open>Properties\<close>

text \<open>
  C3.  Appending names to a message through a static compressor, onto whatever is in the message already, does not panic, and if
  it succeeds the names are read back from where they were written: parsing as many names one after the other, from the
  former end of the message on, succeeds, stops exactly at the new end, and gives these names in their order, equal up to the case of
  letters.  What was in the message before is kept and it does not get longer than with the names written out.  This
  holds for messages of up to 0x4000 octets, whatever the target underneath.
\<close>

theorem static_compressor_reads_back:
  assumes "octseq_parser P" "octets_target B"
    and "\<And>v. v \<in> set vs \<Longrightarrow> view_ok v \<and> abs_labels (lv_labels v)"
    and "length (bo_as_ref B t) + (\<Sum>v\<leftarrow>vs. length (wire (lv_labels v))) \<le> 0x4000"
    and "compose_all (co_append_name (static_compressor B)) vs \<lparr>cp_target = t, cp_table = static_table_new\<rparr> = (r, s)"
  shows "r \<noteq> Panic \<and> (r = Ok () \<longrightarrow> reads_back P (bo_as_ref B t) (bo_as_ref B (cp_target s)) vs)"
proof -
  have "co_ref (static_compressor B) s = bo_as_ref B (cp_target s)" for s
    by (simp add: static_compressor_def Let_def compressor_builder_def)
  with composer.names_read_back [OF octets_target.static_composer [OF assms(2)] assms(1) _ assms(3) _ assms(5)] assms(4)
  show ?thesis using static_table.new by (simp add: compressor_good_def)
qed

theorem static_compressor_reads_back_witness:
  "reads_back slice_parser (replicate 12 0) (replicate 12 0 @ [1, 97, 0, 0xC0, 12]) [example_view, example_view]"
proof -
  have "view_ok example_view" "abs_labels (lv_labels example_view)" using example_view_ok by simp_all
  from static_twice [OF this, of "replicate 12 0"] obtain T where
    "compose_all (co_append_name (static_compressor vec_builder)) [example_view, example_view]
       \<lparr>cp_target = replicate 12 0, cp_table = static_table_new\<rparr> =
     (Ok (), \<lparr>cp_target = replicate 12 0 @ [1, 97, 0, 0xC0, 12], cp_table = T\<rparr>)"
    by (auto simp: example_view_def wire_label_def to_be_bytes_u16)
  from static_compressor_reads_back [OF slice_parser.octseq_parser_axioms vec_builder.octets_target_axioms _ _ this] example_view_ok
  show ?thesis by (simp add: vec_builder_def example_view_def)
qed

text \<open>C5.  The same for the tree compressor.\<close>

theorem tree_compressor_reads_back:
  assumes "octseq_parser P" "octets_target B"
    and "\<And>v. v \<in> set vs \<Longrightarrow> view_ok v \<and> abs_labels (lv_labels v)"
    and "length (bo_as_ref B t) + (\<Sum>v\<leftarrow>vs. length (wire (lv_labels v))) \<le> 0x4000"
    and "compose_all (co_append_name (tree_compressor B)) vs \<lparr>cp_target = t, cp_table = node_default\<rparr> = (r, s)"
  shows "r \<noteq> Panic \<and> (r = Ok () \<longrightarrow> reads_back P (bo_as_ref B t) (bo_as_ref B (cp_target s)) vs)"
proof -
  have "co_ref (tree_compressor B) s = bo_as_ref B (cp_target s)" for s
    by (simp add: tree_compressor_def Let_def compressor_builder_def)
  with composer.names_read_back [OF octets_target.tree_composer [OF assms(2)] assms(1) _ assms(3) _ assms(5)] assms(4)
  show ?thesis using tree_table.new by (simp add: compressor_good_def)
qed

lemma tree_example:
  "compose_all (co_append_name (tree_compressor vec_builder)) [example_view, example_view]
     \<lparr>cp_target = replicate 12 0, cp_table = node_default\<rparr> =
   (Ok (), \<lparr>cp_target = replicate 12 0 @ [1, 97, 0, 0xC0, 12],
      cp_table = Node [[97] \<mapsto> Node Map.empty (Some 12)] None\<rparr>)"
  by (simp add: tree_compressor_def Let_def example_view_def compress_loop.simps label_is_root_def tree_get_def
      node_default_def tree_insert_def compressor_builder_def vec_builder_def label_compose_def then_compose_def
      compose_be_def to_be_bytes_u16)

theorem tree_compressor_reads_back_witness:
  "reads_back slice_parser (replicate 12 0) (replicate 12 0 @ [1, 97, 0, 0xC0, 12]) [example_view, example_view]"
  using tree_compressor_reads_back [OF slice_parser.octseq_parser_axioms vec_builder.octets_target_axioms _ _ tree_example]
    example_view_ok by (simp add: vec_builder_def example_view_def)

end
