(* ===== verification/Decimal.thy ===== *)
theory Decimal
  imports Symbol
begin

text \<open>
  Writing unsigned integers in decimal with \<open>{}\<close> and reading them with \<open>str::parse\<close>, as the standard library does it.
\<close>

definition uchars :: "string \<Rightarrow> uchar list" where
  "uchars s = map of_char s"

fun dec_chars :: "nat \<Rightarrow> uchar list" where
  "dec_chars n = (if n < 10 then [48 + n] else dec_chars (n div 10) @ [48 + n mod 10])"

declare dec_chars.simps [simp del]

datatype parse_int_error = ParseIntError

text \<open>Each digit is added with a check against the greatest value of the type.\<close>

fun parse_digits :: "nat \<Rightarrow> nat \<Rightarrow> uchar list \<Rightarrow> (nat, parse_int_error) result" where
  "parse_digits greatest n [] = Ok n"
| "parse_digits greatest n (c # cs) =
     (case to_digit 10 c of
        None \<Rightarrow> Err ParseIntError
      | Some d \<Rightarrow> if n * 10 + d > greatest then Err ParseIntError else parse_digits greatest (n * 10 + d) cs)"

text \<open>A leading plus sign is allowed if digits follow it.\<close>

definition parse_uint :: "nat \<Rightarrow> uchar list \<Rightarrow> (nat, parse_int_error) result" where
  "parse_uint greatest s =
     (if s = [] \<or> s = [43] then Err ParseIntError
      else if hd s = 43 then parse_digits greatest 0 (tl s) else parse_digits greatest 0 s)"

lemma parse_digits_append:
  "parse_digits greatest n (xs @ ys) = rbind (parse_digits greatest n xs) (\<lambda>n. parse_digits greatest n ys)"
  by (induction xs arbitrary: n) (auto split: option.splits)

lemma dec_chars_range: "c \<in> set (dec_chars n) \<Longrightarrow> 48 \<le> c \<and> c \<le> 57"
proof (induction n rule: dec_chars.induct)
  case (1 n)
  then show ?case by (subst (asm) (2) dec_chars.simps) (auto split: if_splits)
qed

lemma dec_chars_not_Nil: "dec_chars n \<noteq> []"
  by (subst dec_chars.simps) simp

lemma parse_digits_dec_chars: "n \<le> greatest \<Longrightarrow> parse_digits greatest 0 (dec_chars n) = Ok n"
proof (induction n rule: dec_chars.induct)
  case (1 n)
  have "n div 10 * 10 + n mod 10 = n" by simp
  with 1 show ?case by (subst dec_chars.simps) (simp add: parse_digits_append)
qed

lemma parse_uint_dec_chars: "n \<le> greatest \<Longrightarrow> parse_uint greatest (dec_chars n) = Ok n"
  using parse_digits_dec_chars [of n greatest] dec_chars_not_Nil [of n]
    dec_chars_range [OF hd_in_set [OF dec_chars_not_Nil [of n]]] by (auto simp: parse_uint_def)

end
