(* ===== verification/Rdata.thy ===== *)
theory Rdata
  imports Writing Decimal
begin

text \<open>
  \<^verbatim>\<open>src/base/rdata.rs\<close>: record data.  The trait \<open>ComposeRecordData\<close> is the record of operations \<open>rdata_ops\<close>, whose contract is the
  locale \<open>record_data\<close>.  \<open>UnknownRecordData\<close> is one of its implementations.
\<close>

section \<open>Composing record data\<close>

record ('d, 'b) rdata_ops =
  rd_rtype :: "'d \<Rightarrow> u16"
  rd_rdlen :: "'d \<Rightarrow> bool \<Rightarrow> (u16 option, append_error) result"
  rd_compose :: "'b composer_ops \<Rightarrow> 'd \<Rightarrow> 'b target_step"
  rd_compose_canonical :: "'b composer_ops \<Rightarrow> 'd \<Rightarrow> 'b target_step"

definition compose_prefixed :: "'b composer_ops \<Rightarrow> 'b target_step \<Rightarrow> 'b target_step" where
  "compose_prefixed C op t =
     (case bo_append (co_builder C) t [0, 0] of
        (Ok _, t) \<Rightarrow>
          let pos = length (co_ref C t) in
          (case op t of
             (Ok _, t) \<Rightarrow>
               let m = co_ref C t in
               if length m < pos \<or> length m - pos > 65535 \<or> pos < 2 then (Panic, t)
               else (Ok (), bo_as_mut (co_builder C) t
                      (take (pos - 2) m @ to_be_bytes (of_nat (length m - pos) :: u16) @ drop pos m))
           | (Err err, t) \<Rightarrow> (Err err, bo_truncate (co_builder C) t pos)
           | (Panic, t) \<Rightarrow> (Panic, t))
      | (r, t) \<Rightarrow> (r, t))"

definition compose_len_rdata :: "('d, 'b) rdata_ops \<Rightarrow> 'b composer_ops \<Rightarrow> 'd \<Rightarrow> 'b target_step" where
  "compose_len_rdata D C d t =
     (case rd_rdlen D d (co_can_compress C) of
        Ok (Some rdlen) \<Rightarrow> then_compose (compose_be (co_builder C) rdlen) (rd_compose D C d) t
      | Ok None \<Rightarrow> compose_prefixed C (rd_compose D C d) t
      | Err e \<Rightarrow> (Err e, t)
      | Panic \<Rightarrow> (Panic, t))"

definition compose_canonical_len_rdata :: "('d, 'b) rdata_ops \<Rightarrow> 'b composer_ops \<Rightarrow> 'd \<Rightarrow> 'b target_step" where
  "compose_canonical_len_rdata D C d t =
     (case rd_rdlen D d False of
        Ok (Some rdlen) \<Rightarrow> then_compose (compose_be (co_builder C) rdlen) (rd_compose_canonical D C d) t
      | Ok None \<Rightarrow> compose_prefixed C (rd_compose_canonical D C d) t
      | Err e \<Rightarrow> (Err e, t)
      | Panic \<Rightarrow> (Panic, t))"

text \<open>\<open>ParseRecordData\<close>: record data of a type it does not want is \<open>None\<close>.\<close>

type_synonym 'd rdata_parse = "u16 \<Rightarrow> parser \<Rightarrow> 'd option parse_result"

section \<open>Unknown record data\<close>

datatype long_record_data = LongRecordData

definition check_rdata_len :: "nat \<Rightarrow> (unit, long_record_data) result" where
  "check_rdata_len len = (if len > 65535 then Err LongRecordData else Ok ())"

definition check_append_len :: "nat \<Rightarrow> nat \<Rightarrow> (unit, long_record_data) result" where
  "check_append_len len extra_len =
     (if len + extra_len > usize_MAX then Err LongRecordData else check_rdata_len (len + extra_len))"

record unknown_rdata =
  un_rtype :: u16
  un_data :: octets

definition unknown_from_octets :: "u16 \<Rightarrow> octets \<Rightarrow> (unknown_rdata, long_record_data) result" where
  "unknown_from_octets rtype data = rbind (check_rdata_len (length data)) (\<lambda>_. Ok \<lparr>un_rtype = rtype, un_data = data\<rparr>)"

definition unknown_parse_any_rdata :: "parser_ops \<Rightarrow> u16 \<Rightarrow> parser \<Rightarrow> unknown_rdata parse_result" where
  "unknown_parse_any_rdata P rtype p =
     (let rdlen = p_remaining p in
      rmap_err parse_error_from_short (rmap (\<lambda>(data, p). (\<lparr>un_rtype = rtype, un_data = data\<rparr>, p)) (ps_parse_octets P p rdlen)))"

definition unknown_parse_rdata :: "parser_ops \<Rightarrow> unknown_rdata rdata_parse" where
  "unknown_parse_rdata P rtype p =
     (let rdlen = p_remaining p in
      rmap_err parse_error_from_short (rmap (\<lambda>(data, p). (Some \<lparr>un_rtype = rtype, un_data = data\<rparr>, p)) (ps_parse_octets P p rdlen)))"

definition unknown_rdlen :: "unknown_rdata \<Rightarrow> bool \<Rightarrow> (u16 option, append_error) result" where
  "unknown_rdlen d compress = (if length (un_data d) > 65535 then Panic else Ok (Some (of_nat (length (un_data d)))))"

definition unknown_compose_rdata :: "'b composer_ops \<Rightarrow> unknown_rdata \<Rightarrow> 'b target_step" where
  "unknown_compose_rdata C d t = bo_append (co_builder C) t (un_data d)"

definition unknown_ops :: "(unknown_rdata, 'b) rdata_ops" where
  "unknown_ops = \<lparr>rd_rtype = un_rtype, rd_rdlen = unknown_rdlen, rd_compose = unknown_compose_rdata,
     rd_compose_canonical = unknown_compose_rdata\<rparr>"

definition unknown_eq :: "unknown_rdata \<Rightarrow> unknown_rdata \<Rightarrow> bool" where
  "unknown_eq a b \<longleftrightarrow> un_data a = un_data b"

definition unknown_cmp :: "unknown_rdata \<Rightarrow> unknown_rdata \<Rightarrow> ordering" where
  "unknown_cmp a b = list_cmp ord_cmp (un_data a) (un_data b)"

definition hex_digit_lower :: "nat \<Rightarrow> uchar" where
  "hex_digit_lower d = (if d < 10 then 48 + d else 87 + d)"

definition unknown_display :: "unknown_rdata \<Rightarrow> uchar list" where
  "unknown_display d = [92, 35, 32] @ dec_chars (length (un_data d)) @
     concat (map (\<lambda>ch. [32, hex_digit_lower (unat ch div 16), hex_digit_lower (unat ch mod 16)]) (un_data d))"

section \<open>Lengths\<close>

text \<open>A meaning behind its length.\<close>

definition len_meaning :: "meaning \<Rightarrow> meaning" where
  "len_meaning Q m a c \<longleftrightarrow>
     (\<exists>n :: u16. c = a + 2 + unat n \<and> seq_meaning (octets_meaning (to_be_bytes n)) Q m a c)"

lemma written_len:
  assumes "c = a + 2 + unat n" "written m a (a + 2) (octets_meaning (to_be_bytes (n :: u16)))" "written m (a + 2) c Q"
  shows "written m a c (len_meaning Q)"
proof -
  from assms(2,3) have "written m a c (seq_meaning (octets_meaning (to_be_bytes n)) Q)" by (auto simp: written_seq)
  with assms(1) show ?thesis by (auto simp: written_def len_meaning_def)
qed

text \<open>Patching the length in front of what was written.\<close>

lemma patched:
  assumes "a + 2 \<le> length m"
  shows "agree (H \<union> {a, a + 1}) m (take a m @ to_be_bytes (w :: u16) @ drop (a + 2) m)"
    and "take 2 (drop a (take a m @ to_be_bytes w @ drop (a + 2) m)) = to_be_bytes w"
    and "length (take a m @ to_be_bytes w @ drop (a + 2) m) = length m"
proof -
  let ?x = "take a m @ to_be_bytes w @ drop (a + 2) m"
  show len: "length ?x = length m" using assms by simp
  have "?x ! i = m ! i" if i: "i \<notin> {a, a + 1}" for i
  proof -
    have "i < a \<or> a + 2 \<le> i" using i by auto
    then have "i < a \<or> (\<exists>j. i = a + 2 + j)" using le_Suc_ex [of "a + 2" i] by blast
    then show ?thesis using assms by (auto simp: nth_append min_absorb1)
  qed
  with len show "agree (H \<union> {a, a + 1}) m ?x" by (auto simp: agree_def)
  show "take 2 (drop a ?x) = to_be_bytes w" using assms by (simp add: min_absorb1)
qed

context composer
begin

lemma keeps_patched:
  assumes "keeps (H \<union> {a, a + 1}) m (a + 2) (length m) Q" "H \<subseteq> {..<a}" "length m - (a + 2) = unat (w :: u16)"
  shows "keeps H (take a m @ to_be_bytes w @ drop (a + 2) m) a (length m) (len_meaning Q)"
  unfolding keeps_def
proof (intro allI impI written_len [where n = w])
  let ?m = "take a m @ to_be_bytes w @ drop (a + 2) m"
  note le = keeps_bounds [OF assms(1)]
  then have le: "a + 2 \<le> length m" by simp
  note p = patched(1) [OF le, of H w] patched(2,3) [OF le, of w]
  show "length m = a + 2 + unat w" using le assms(3) by simp
  fix m' assume m': "agree H ?m m'"
  have "agree (H \<union> {a, a + 1}) ?m m'" using m' by (auto simp: agree_def)
  with assms(1) p(1) show "written m' (a + 2) (length m) Q" unfolding keeps_def by (blast intro: agree_trans)
  have "take 2 (drop a m') = to_be_bytes w"
    using agree_slice [OF m', of a 2] below_disjoint [OF assms(2), of "a + 2"] p(2) by simp
  then show "written m' a (a + 2) (octets_meaning (to_be_bytes w))" using m' p(3) le by (simp add: written_octets agree_def)
qed

lemma writes_prefixed:
  assumes f: "writes C good cut lim f k Q" and k: "k \<le> 65535"
  shows "writes C good cut lim (compose_prefixed C f) (k + 2) (len_meaning Q)"
proof (rule writesI)
  fix H t r t'
  let ?a = "length (co_ref C t)" and ?B = "co_builder C"
  let ?K = "{?a, ?a + 1}"
  assume t: "good H t" "H \<subseteq> {..<?a}" "?a + (k + 2) \<le> lim" and run: "compose_prefixed C f t = (r, t')"
  obtain r1 t1 where t1: "bo_append ?B t [0, 0] = (r1, t1)" by fastforce
  note d1 = cut_append [OF good_cut [OF t(1)] order_refl t1]
  have lim: "?a + length [0 :: octet, 0] \<le> lim" using t(3) by simp
  note w1 = writesD [OF writes_append t(1,2) lim t1]
  show "wrote C good cut (k + 2) (len_meaning Q) H t r t'"
  proof (cases r1)
    case (Ok u)
    with d1 have ref1: "co_ref C t1 = co_ref C t @ [0, 0]" by blast
    from d1 have "\<forall>u K. r1 = Ok u \<and> good H t \<and> K \<subseteq> {?a..} \<longrightarrow> good (H \<union> K) t1" by blast
    from this [rule_format, of u ?K] have good1: "good (H \<union> ?K) t1" using Ok t(1) by simp
    have H1: "H \<union> ?K \<subseteq> {..<length (co_ref C t1)}" using t(2) ref1 by auto
    have cut1: "cut (H \<union> ?K) t1 n" if "n \<le> ?a" "cut H t n" for n
    proof (rule cut_anti)
      show "cut H t1 n" using cut_append [OF that(2,1) t1] by blast
    qed (use that(1) ref1 in auto)
    obtain r2 t2 where t2: "f t1 = (r2, t2)" by fastforce
    have lim1: "length (co_ref C t1) + k \<le> lim" using t(3) ref1 by simp
    note w2 = writesD [OF f good1 H1 lim1 t2]
    from wrote_ref [OF w2] obtain ys where ref2: "co_ref C t2 = co_ref C t @ [0, 0] @ ys" and ys: "\<And>u. r2 = Ok u \<Longrightarrow> length ys \<le> k"
      unfolding ref1 by auto
    have cut2: "cut (H \<union> ?K) t2 n" if "n \<le> ?a" "cut H t n" for n
      using wrote_cut [OF w2 _ cut1 [OF that]] that(1) ref1 by simp
    show ?thesis
    proof (cases r2)
      case ok: (Ok u2)
      let ?m = "co_ref C t2" and ?w = "of_nat (length ys) :: u16"
      let ?x = "take ?a ?m @ to_be_bytes ?w @ drop (?a + 2) ?m"
      have w: "unat ?w = length ys" using ys [OF ok] k by (simp add: unat_of_nat)
      have r: "r = Ok ()" and t': "t' = bo_as_mut ?B t2 ?x"
        using run t1 t2 Ok ok ref1 ref2 ys [OF ok] k by (simp_all add: compose_prefixed_def Let_def)
      have agree: "agree (H \<union> ?K) ?m ?x" using patched(1) [of ?a ?m H ?w] ref2 by simp
      have g2: "good (H \<union> ?K) t2" "keeps (H \<union> ?K) ?m (?a + 2) (length ?m) Q" using wrote_Ok [OF w2 ok] ref1 by simp_all
      have x: "co_ref C t' = ?x" "good (H \<union> ?K) t'"
        using cut_as_mut [OF good_cut [OF g2(1)] order_refl agree] g2(1) t' by simp_all
      have eq: "?x = co_ref C t @ to_be_bytes ?w @ ys" using ref2 by simp
      show ?thesis
      proof (rule wroteI)
        show "r \<noteq> Panic" using r by simp
        show "co_ref C t' = co_ref C t @ to_be_bytes ?w @ ys" using x(1) eq by simp
        show "length (to_be_bytes ?w @ ys) \<le> k + 2" using ys [OF ok] by simp
        show "good H t'" by (rule good_anti [OF x(2)]) blast
        have "length ?x = length ?m" using ref2 by simp
        with x(1) have len: "length (co_ref C t') = length ?m" by simp
        show "keeps H (co_ref C t') ?a (length (co_ref C t')) (len_meaning Q)"
          unfolding len unfolding x(1) by (rule keeps_patched [OF g2(2) t(2)]) (use w ref2 in simp)
        fix n assume n: "n \<le> ?a" "cut H t n"
        show "cut H t' n"
        proof (rule cut_anti)
          show "cut (H \<union> ?K) t' n" using cut_as_mut [OF cut2 [OF n] _ agree] n(1) ref2 t' by simp
        qed (use n(1) x(1) eq in auto)
      qed
    next
      case (Err e)
      have "cut (H \<union> ?K) t2 (?a + 2)" using wrote_cut [OF w2 _ good_cut [OF good1]] ref1 by simp
      note tr = cut_truncate [OF this]
      have "r = Err e" "t' = bo_truncate ?B t2 (?a + 2)"
        using run t1 t2 Ok Err ref1 by (simp_all add: compose_prefixed_def Let_def)
      with tr ref2 have ref': "r \<noteq> Ok u" "r \<noteq> Panic" "co_ref C t' = co_ref C t @ [0, 0]" for u by simp_all
      show ?thesis
      proof (rule wroteI [OF ref'(2) _ ref'(3)])
        fix n assume n: "n \<le> ?a" "cut H t n"
        show "cut H t' n"
        proof (rule cut_anti)
          show "cut (H \<union> ?K) t' n" using tr cut2 [OF n] n(1) ref2 \<open>t' = _\<close> by simp
        qed (use n(1) ref' in auto)
      qed (use ref'(1) in simp_all)
    qed (use wrote_no_Panic [OF w2] in simp)
  next
    case (Err e)
    with run t1 have "r = Err e" "t' = t1" by (simp_all add: compose_prefixed_def)
    with w1 Err show ?thesis by (auto intro: wrote_Err)
  qed (use wrote_no_Panic [OF w1] in simp)
qed

end

section \<open>Octets and names in record data\<close>

text \<open>A step that appends given octets.\<close>

abbreviation puts ::
    "'b composer_ops \<Rightarrow> (nat set \<Rightarrow> 'b \<Rightarrow> bool) \<Rightarrow> (nat set \<Rightarrow> 'b \<Rightarrow> nat \<Rightarrow> bool) \<Rightarrow> nat \<Rightarrow> 'b target_step \<Rightarrow> octets \<Rightarrow> bool" where
  "puts C good ct lim f xs \<equiv> writes C good ct lim f (length xs) (octets_meaning xs)"

named_theorems puts_intros \<open>how composing steps put octets\<close>

text \<open>A meaning of a given length.\<close>

definition sized :: "nat \<Rightarrow> meaning \<Rightarrow> meaning" where
  "sized n Q m a b \<longleftrightarrow> Q m a b \<and> b = a + n"

lemma written_sized: "written m a b (sized n Q) \<longleftrightarrow> written m a b Q \<and> b = a + n"
  by (auto simp: written_def sized_def)

lemma sized_octets [simp]: "sized (length xs) (octets_meaning xs) = octets_meaning xs"
  by (auto simp: fun_eq_iff sized_def octets_meaning_def)

lemma written_octets_append:
  "written m a c (seq_meaning (octets_meaning xs) (octets_meaning ys)) \<longleftrightarrow> written m a c (octets_meaning (xs @ ys))"
proof
  assume "written m a c (octets_meaning (xs @ ys))"
  then have c: "c = a + length xs + length ys" "c \<le> length m" "take (length xs + length ys) (drop a m) = xs @ ys"
    by (simp_all add: written_octets)
  have "take (length xs) (drop a m) = xs" using arg_cong [OF c(3), of "take (length xs)"] by simp
  moreover have "take (length ys) (drop (a + length xs) m) = ys"
    using arg_cong [OF c(3), of "drop (length xs)"] by (simp add: drop_take add.commute)
  ultimately show "written m a c (seq_meaning (octets_meaning xs) (octets_meaning ys))"
    using c(1,2) unfolding written_seq by (intro exI [of _ "a + length xs"]) (simp add: written_octets)
qed (auto simp: written_seq written_octets take_add add.commute)

lemma octets_name_meaning:
  assumes "view_ok v" "abs_labels (lv_labels v)" "written m a b (octets_meaning (wire ls))"
    and "canonical_labels ls = canonical_labels (lv_labels v)"
  shows "name_meaning v m a b"
proof -
  have ls: "abs_labels ls" using assms(2,4) canonical_labels_kinds(2) by metis
  have "length (wire ls) \<le> NAME_MAX_LEN"
    using assms(1) arg_cong [OF assms(4), of "\<lambda>ls. length (wire ls)"] by (simp add: canonical_wire_length view_okD)
  have b: "b = a + length (wire ls)" "b \<le> length m" "take (length (wire ls)) (drop a m) = wire ls"
    using assms(3) by (simp_all add: written_octets)
  then have m: "m = take a m @ wire ls @ drop b m" by (metis append_take_drop_id drop_drop add.commute)
  have "length (take a m) = a" using b by simp
  moreover obtain ms where "ls = ms @ [[]]" "rel_labels ms" using ls by (auto simp: abs_labels_iff)
  moreover from this have "name_at (take a m @ wire ls @ drop b m) (length (take a m)) ls"
    using name_at_wire [of ms "take a m" "drop b m"] by (simp add: wire_label_def)
  moreover note name_span_octets [OF name_octets_wire [OF ls], of "take a m" "drop b m"]
  ultimately have "name_at m a ls" "name_span m a (b - a)" using m b(1) by simp_all
  then show ?thesis unfolding name_meaning_def using assms(4) by blast
qed

context composer
begin

lemma puts_append [puts_intros]: "puts C good cut lim (\<lambda>t. bo_append (co_builder C) t xs) xs"
  by (rule writes_append)

lemma puts_be [puts_intros]: "puts C good cut lim (compose_be (co_builder C) w) (to_be_bytes w)"
  using writes_append [of "to_be_bytes w"] by (simp add: compose_be_def [abs_def])

lemma puts_u8 [puts_intros]: "puts C good cut lim (compose_u8 (co_builder C) b) [b]"
  using writes_append [of "[b]"] by (simp add: compose_u8_def [abs_def])

lemma puts_nothing [puts_intros]: "puts C good cut lim (\<lambda>t. (Ok (), t)) []"
proof (rule writesI)
  fix H t r t'
  assume "good H t" "H \<subseteq> {..<length (co_ref C t)}" "(Ok () :: (unit, append_error) result, t) = (r, t')"
  then show "wrote C good cut (length []) (octets_meaning []) H t r t'"
    using keeps_octets [of H "co_ref C t" "[]"] by (intro wroteI [where ys = "[]"]) auto
qed

lemma puts_then [puts_intros]:
  "puts C good cut lim f xs \<Longrightarrow> puts C good cut lim g ys \<Longrightarrow> puts C good cut lim (then_compose f g) (xs @ ys)"
  by (rule writes_weaken [OF writes_then]) (auto simp: written_octets_append intro: written_now)

lemma puts_all [puts_intros]:
  assumes "\<And>x. x \<in> set xs \<Longrightarrow> puts C good cut lim (f x) (e x)"
  shows "puts C good cut lim (compose_all f xs) (concat (map e xs))"
  using assms
proof (induction xs)
  case Nil
  have "compose_all f [] = (\<lambda>t. (Ok (), t))" by auto
  then show ?case using puts_nothing by simp
next
  case (Cons x xs)
  have "compose_all f (x # xs) = then_compose (f x) (compose_all f xs)"
    by (rule ext) (simp add: then_compose_def)
  then show ?case using Cons puts_then [of "f x" "e x"] by simp
qed

lemma puts_name_compose [puts_intros]:
  assumes "view_ok v"
  shows "puts C good cut lim (name_compose (co_builder C) v) (wire (lv_labels v))"
proof (cases "lv_flat v")
  case None
  have "puts C good cut lim (label_compose (co_builder C) l) (wire_label l)" for l
    using puts_then [OF puts_append [of "[of_nat (length l)]"] puts_append [of l]]
    by (simp add: label_compose_def [abs_def] wire_label_def)
  from puts_all [of "lv_labels v", OF this] show ?thesis using None by (simp add: name_compose_def [abs_def] wire_def)
next
  case (Some octs)
  then show ?thesis using puts_append [of octs] view_okD(5) [OF assms Some] by (simp add: name_compose_def [abs_def])
qed

lemma puts_name_canonical [puts_intros]:
  "puts C good cut lim (name_compose_canonical (co_builder C) v) (wire (canonical_labels (lv_labels v)))"
proof -
  have "concat (map (\<lambda>ch. [to_ascii_lowercase ch]) l) = label_make_canonical l" for l :: label
    by (induction l) (simp_all add: label_make_canonical_def)
  moreover have "length (label_make_canonical l) = length l" for l by (simp add: label_make_canonical_def)
  ultimately have "puts C good cut lim (label_compose_canonical (co_builder C) l) (wire_label (label_make_canonical l))" for l
    using puts_then [OF puts_append [of "[of_nat (length l)]"] puts_all [of l, OF puts_append, of "\<lambda>ch. [to_ascii_lowercase ch]"]]
    by (simp add: label_compose_canonical_def [abs_def] wire_label_def)
  from puts_all [of "lv_labels v", OF this] show ?thesis by (simp add: name_compose_canonical_def wire_def comp_def)
qed

text \<open>A name in the data of a well-known type: compressed if the target can.\<close>

lemma writes_data_name:
  assumes "view_ok v" "abs_labels (lv_labels v)"
  shows "writes C good cut lim (if co_can_compress C then co_append_name C v else name_compose (co_builder C) v)
    (length (wire (lv_labels v))) (name_meaning v)"
  using writes_name [OF assms] writes_weaken [OF puts_name_compose [OF assms(1)] order_refl octets_name_meaning [OF assms _ refl]]
  by simp

lemma writes_sized_name:
  assumes "view_ok v" "abs_labels (lv_labels v)"
  shows "writes C good cut lim (name_compose (co_builder C) v) (length (wire (lv_labels v)))
    (sized (length (wire (lv_labels v))) (name_meaning v))"
  by (rule writes_weaken [OF puts_name_compose [OF assms(1)] order_refl])
    (simp add: sized_def octets_name_meaning [OF assms _ refl], simp add: written_octets)

lemma writes_sized_then:
  assumes "writes C good cut lim f k (sized n Q)" "writes C good cut lim g j (sized l R)"
  shows "writes C good cut lim (then_compose f g) (k + j) (sized (n + l) (seq_meaning Q R))"
  by (rule writes_weaken [OF writes_then [OF assms] order_refl])
    (auto simp: sized_def written_seq written_sized seq_meaning_def)

end

section \<open>The contract of record data\<close>

text \<open>
  The contract of \<open>ComposeRecordData\<close> with a composer: composing writes a meaning of a limited length, and the canonical form is
  given octets; where a length is known beforehand it is that of what is written.
\<close>

locale record_data = composer C good cut lim
  for C :: "'b composer_ops" and good and cut and lim +
  fixes D :: "('d, 'b) rdata_ops" and data_ok :: "'d \<Rightarrow> bool" and data_len :: "'d \<Rightarrow> nat" and data_meaning :: "'d \<Rightarrow> meaning"
    and canon :: "'d \<Rightarrow> octets"
  assumes data_len: "data_ok d \<Longrightarrow> data_len d \<le> 65535"
    and writes_data: "data_ok d \<Longrightarrow> writes C good cut lim (rd_compose D C d) (data_len d) (data_meaning d)"
    and data_rdlen: "data_ok d \<Longrightarrow> rd_rdlen D d (co_can_compress C) = Ok None \<or>
      (\<exists>n. rd_rdlen D d (co_can_compress C) = Ok (Some n) \<and>
        writes C good cut lim (rd_compose D C d) (data_len d) (sized (unat n) (data_meaning d)))"
    and puts_canonical: "data_ok d \<Longrightarrow> puts C good cut lim (rd_compose_canonical D C d) (canon d)"
    and canonical_rdlen: "data_ok d \<Longrightarrow> length (canon d) \<le> 65535 \<and> (rd_rdlen D d False = Ok None \<or>
      (\<exists>n. rd_rdlen D d False = Ok (Some n) \<and> unat n = length (canon d)))"
begin

lemma writes_len_rdata:
  assumes "data_ok d"
  shows "writes C good cut lim (compose_len_rdata D C d) (data_len d + 2) (len_meaning (data_meaning d))"
  using data_rdlen [OF assms]
proof (elim disjE exE conjE)
  assume "rd_rdlen D d (co_can_compress C) = Ok None"
  then show ?thesis
    using writes_prefixed [OF writes_data [OF assms] data_len [OF assms]] by (simp add: compose_len_rdata_def [abs_def])
next
  fix n
  assume n: "rd_rdlen D d (co_can_compress C) = Ok (Some n)"
    "writes C good cut lim (rd_compose D C d) (data_len d) (sized (unat n) (data_meaning d))"
  have "writes C good cut lim (then_compose (compose_be (co_builder C) n) (rd_compose D C d)) (data_len d + 2) (len_meaning (data_meaning d))"
  proof (rule writes_weaken [OF writes_then [OF writes_be n(2)]])
    fix m a c
    assume "written m a c (seq_meaning (octets_meaning (to_be_bytes n)) (sized (unat n) (data_meaning d)))"
    then obtain b where "written m a b (octets_meaning (to_be_bytes n))" "written m b c (data_meaning d)" "c = b + unat n"
      by (auto simp: written_seq written_sized)
    moreover from this(1) have "b = a + 2" by (simp add: written_octets)
    ultimately show "len_meaning (data_meaning d) m a c" using written_len written_now by blast
  qed simp
  with n(1) show ?thesis by (simp add: compose_len_rdata_def [abs_def])
qed

lemma puts_canonical_len_rdata:
  assumes "data_ok d"
  shows "puts C good cut lim (compose_canonical_len_rdata D C d) (to_be_bytes (of_nat (length (canon d)) :: u16) @ canon d)"
  using canonical_rdlen [OF assms]
proof (elim disjE exE conjE)
  assume len: "length (canon d) \<le> 65535" and r: "rd_rdlen D d False = Ok None"
  have "writes C good cut lim (compose_prefixed C (rd_compose_canonical D C d))
      (length (to_be_bytes (of_nat (length (canon d)) :: u16) @ canon d)) (octets_meaning (to_be_bytes (of_nat (length (canon d)) :: u16) @ canon d))"
  proof (rule writes_weaken [OF writes_prefixed [OF puts_canonical [OF assms] len]])
    fix m a c
    assume "written m a c (len_meaning (octets_meaning (canon d)))"
    then obtain n :: u16 where n: "c = a + 2 + unat n" "seq_meaning (octets_meaning (to_be_bytes n)) (octets_meaning (canon d)) m a c"
      using written_now by (fastforce simp: len_meaning_def)
    then have w: "written m a c (octets_meaning (to_be_bytes n @ canon d))"
      by (simp add: written_octets_append [symmetric] written_seq seq_meaning_def)
    then have "length (canon d) = unat n" using n(1) by (simp add: written_octets)
    then have "of_nat (length (canon d)) = n" by simp
    with w show "octets_meaning (to_be_bytes (of_nat (length (canon d)) :: u16) @ canon d) m a c" using written_now by simp
  qed simp
  with r show ?thesis by (simp add: compose_canonical_len_rdata_def [abs_def])
next
  fix n
  assume n: "rd_rdlen D d False = Ok (Some n)" "unat n = length (canon d)"
  from n(2) [symmetric] have "of_nat (length (canon d)) = n" by simp
  with n(1) puts_then [OF puts_be [of n] puts_canonical [OF assms]] show ?thesis
    by (simp add: compose_canonical_len_rdata_def [abs_def])
qed

end

text \<open>Data without compressed names: both forms are octets, and the length is always known.\<close>

locale octets_data = composer C good cut lim
  for C :: "'b composer_ops" and good and cut and lim +
  fixes D :: "('d, 'b) rdata_ops" and data_ok :: "'d \<Rightarrow> bool" and enc canon :: "'d \<Rightarrow> octets"
  assumes puts_data: "data_ok d \<Longrightarrow> puts C good cut lim (rd_compose D C d) (enc d)"
    and puts_canon: "data_ok d \<Longrightarrow> puts C good cut lim (rd_compose_canonical D C d) (canon d)"
    and rdlen_data: "data_ok d \<Longrightarrow> rd_rdlen D d c = Ok (Some (of_nat (length (enc d))))"
    and enc_length: "data_ok d \<Longrightarrow> length (enc d) \<le> 65535"
    and canon_length: "data_ok d \<Longrightarrow> length (canon d) = length (enc d)"

sublocale octets_data \<subseteq> record_data C good cut lim D data_ok "\<lambda>d. length (enc d)" "\<lambda>d. octets_meaning (enc d)" canon
proof
  fix d assume d: "data_ok d"
  have n: "unat (of_nat (length (enc d)) :: u16) = length (enc d)" using enc_length [OF d] by (simp add: unat_of_nat)
  show "rd_rdlen D d (co_can_compress C) = Ok None \<or>
      (\<exists>n. rd_rdlen D d (co_can_compress C) = Ok (Some n) \<and>
        writes C good cut lim (rd_compose D C d) (length (enc d)) (sized (unat n) (octets_meaning (enc d))))"
    using puts_data [OF d] rdlen_data [OF d] n by simp
  show "length (canon d) \<le> 65535 \<and> (rd_rdlen D d False = Ok None \<or>
      (\<exists>n. rd_rdlen D d False = Ok (Some n) \<and> unat n = length (canon d)))"
    using rdlen_data [OF d] n enc_length [OF d] canon_length [OF d] by simp
qed (simp_all add: puts_data puts_canon enc_length)

text \<open>The contract of \<open>CanonicalOrd\<close> for record data: the order of the octets of the canonical form.\<close>

locale canonical_ord =
  fixes data_ok :: "'d \<Rightarrow> bool" and canon :: "'d \<Rightarrow> octets" and canonical_cmp :: "'d \<Rightarrow> 'd \<Rightarrow> (ordering, unit) result"
  assumes canonical_cmp: "data_ok d \<Longrightarrow> data_ok e \<Longrightarrow> canonical_cmp d e = Ok (list_cmp ord_cmp (canon d) (canon e))"

text \<open>The contract of \<open>ParseRecordData\<close>: data of its type is read from a parser that is limited to it.\<close>

locale rdata_parser = octseq_parser P
  for P :: parser_ops +
  fixes parse :: "'e rdata_parse" and rtype :: "'d \<Rightarrow> u16" and ok :: "'d \<Rightarrow> bool"
    and meaning :: "'d \<Rightarrow> meaning" and same :: "'d \<Rightarrow> 'e \<Rightarrow> bool"
  assumes reads_data: "ok d \<Longrightarrow> parser_wf p \<Longrightarrow> written (p_octets p) (p_pos p) (p_len p) (meaning d) \<Longrightarrow>
      \<exists>e. parse (rtype d) p = Ok (Some e, p\<lparr>p_pos := p_len p\<rparr>) \<and> same d e"

definition unknown_ok :: "unknown_rdata \<Rightarrow> bool" where
  "unknown_ok d \<longleftrightarrow> length (un_data d) \<le> 65535"

sublocale composer \<subseteq> unknown: octets_data C good cut lim unknown_ops unknown_ok un_data un_data
proof
  fix d assume d: "unknown_ok d"
  show "puts C good cut lim (rd_compose unknown_ops C d) (un_data d)"
      "puts C good cut lim (rd_compose_canonical unknown_ops C d) (un_data d)"
    using puts_append [of "un_data d"] by (simp_all add: unknown_ops_def unknown_compose_rdata_def [abs_def])
  show "rd_rdlen unknown_ops d c = Ok (Some (of_nat (length (un_data d))))" for c
    using d by (simp add: unknown_ops_def unknown_rdlen_def unknown_ok_def)
qed (simp_all add: unknown_ok_def)

sublocale octseq_parser \<subseteq> unknown: rdata_parser P "unknown_parse_rdata P" un_rtype unknown_ok "\<lambda>d. octets_meaning (un_data d)" "(=)"
proof
  fix d :: unknown_rdata and p
  assume "parser_wf p" "written (p_octets p) (p_pos p) (p_len p) (octets_meaning (un_data d))"
  then have "take (p_remaining p) (p_rest p) = un_data d" "p_forward p (p_remaining p) = p\<lparr>p_pos := p_len p\<rparr>"
    by (auto simp: written_octets p_remaining_def p_rest_def p_forward_def parser_wf_def drop_take)
  then show "\<exists>e. unknown_parse_rdata P (un_rtype d) p = Ok (Some e, p\<lparr>p_pos := p_len p\<rparr>) \<and> d = e"
    by (simp add: unknown_parse_rdata_def Let_def ps_parse_octets)
qed

interpretation unknown_canonical: canonical_ord unknown_ok un_data "\<lambda>d e. Ok (unknown_cmp d e)"
  by unfold_locales (simp add: unknown_cmp_def)

interpretation vec_unknown: octets_data "plain_composer vec_builder" "\<lambda>_ _. True" "\<lambda>_ _ _. True" "65535" unknown_ops unknown_ok un_data un_data
  by unfold_locales

interpretation slice_unknown: rdata_parser slice_parser "unknown_parse_rdata slice_parser" un_rtype unknown_ok
    "\<lambda>d. octets_meaning (un_data d)" "(=)"
  by (rule slice_parser.unknown.rdata_parser_axioms)

end
