(* ===== verification/Iana.thy ===== *)
theory Iana
  imports Decimal Wire
begin

unbundle bit_operations_syntax

text \<open>
  \<^verbatim>\<open>src/base/iana\<close>: the types for the values of IANA registries.  The macros of \<^verbatim>\<open>macros.rs\<close> make a type of a table
  of values and their mnemonics; here they are functions of the table.  The response codes have types of their own.
\<close>

section \<open>Values with mnemonics\<close>

type_synonym 'v int_enum = "('v \<times> string) list"

definition uchar_lower :: "uchar \<Rightarrow> uchar" where
  "uchar_lower c = (if 65 \<le> c \<and> c \<le> 90 then c + 32 else c)"

text \<open>\<open>eq_ignore_ascii_case\<close> of strings.\<close>

definition str_eq_ignore_case :: "uchar list \<Rightarrow> uchar list \<Rightarrow> bool" where
  "str_eq_ignore_case s t \<longleftrightarrow> map uchar_lower s = map uchar_lower t"

fun from_mnemonic :: "'v int_enum \<Rightarrow> uchar list \<Rightarrow> 'v option" where
  "from_mnemonic [] m = None"
| "from_mnemonic ((v, mnemonic) # tab) m = (if str_eq_ignore_case m (uchars mnemonic) then Some v else from_mnemonic tab m)"

fun to_mnemonic_str :: "'v int_enum \<Rightarrow> 'v \<Rightarrow> string option" where
  "to_mnemonic_str [] x = None"
| "to_mnemonic_str ((v, mnemonic) # tab) x = (if x = v then Some mnemonic else to_mnemonic_str tab x)"

datatype iana_from_str_error = IanaFromStrError

definition from_str_with_decimal :: "'v::len word int_enum \<Rightarrow> uchar list \<Rightarrow> ('v word, iana_from_str_error) result" where
  "from_str_with_decimal tab s =
     (case from_mnemonic tab s of
        Some res \<Rightarrow> Ok res
      | None \<Rightarrow> (case parse_uint (2 ^ LENGTH('v) - 1) s of Ok n \<Rightarrow> Ok (of_nat n) | _ \<Rightarrow> Err IanaFromStrError))"

definition display_with_decimal :: "'v::len word int_enum \<Rightarrow> 'v word \<Rightarrow> uchar list" where
  "display_with_decimal tab v =
     (case to_mnemonic_str tab v of
        Some m \<Rightarrow> uchars m @ uchars ''('' @ dec_chars (unat v) @ uchars '')''
      | None \<Rightarrow> dec_chars (unat v))"

definition from_str_with_prefix ::
    "string \<Rightarrow> 'v::len word int_enum \<Rightarrow> uchar list \<Rightarrow> ('v word, iana_from_str_error) result" where
  "from_str_with_prefix prefix tab s =
     (case from_mnemonic tab s of
        Some res \<Rightarrow> Ok res
      | None \<Rightarrow>
          if length s > length prefix then
            if str_eq_ignore_case (take (length prefix) s) (uchars prefix) then
              (case parse_uint (2 ^ LENGTH('v) - 1) (drop (length prefix) s) of
                 Ok n \<Rightarrow> Ok (of_nat n) | _ \<Rightarrow> Err IanaFromStrError)
            else Err IanaFromStrError
          else Err IanaFromStrError)"

definition display_with_prefix :: "string \<Rightarrow> 'v::len word int_enum \<Rightarrow> 'v word \<Rightarrow> uchar list" where
  "display_with_prefix prefix tab v =
     (case to_mnemonic_str tab v of Some m \<Rightarrow> uchars m | None \<Rightarrow> uchars prefix @ dec_chars (unat v))"

section \<open>The registries\<close>

definition class_table :: "u16 int_enum" where
  "class_table =
     [(1, ''IN''), (3, ''CH''), (4, ''HS''), (0xFE, ''NONE''), (0xFF, ''*'')]"

definition rtype_table :: "u16 int_enum" where
  "rtype_table =
     [(1, ''A''), (2, ''NS''), (3, ''MD''), (4, ''MF''), (5, ''CNAME''), (6, ''SOA''), (7, ''MB''), (8, ''MG''),
      (9, ''MR''), (10, ''NULL''), (11, ''WKS''), (12, ''PTR''), (13, ''HINFO''), (14, ''MINFO''), (15, ''MX''),
      (16, ''TXT''), (17, ''RP''), (18, ''AFSDB''), (19, ''X25''), (20, ''ISDN''), (21, ''RT''), (22, ''NSAP''),
      (23, ''NSAPPTR''), (24, ''SIG''), (25, ''KEY''), (26, ''PX''), (27, ''GPOS''), (28, ''AAAA''), (29, ''LOC''),
      (30, ''NXT''), (31, ''EID''), (32, ''NIMLOC''), (33, ''SRV''), (34, ''ATMA''), (35, ''NAPTR''), (36, ''KX''),
      (37, ''CERT''), (38, ''A6''), (39, ''DNAME''), (40, ''SINK''), (41, ''OPT''), (42, ''APL''), (43, ''DS''),
      (44, ''SSHFP''), (45, ''IPSECKEY''), (46, ''RRSIG''), (47, ''NSEC''), (48, ''DNSKEY''), (49, ''DHCID''),
      (50, ''NSEC3''), (51, ''NSEC3PARAM''), (52, ''TLSA''), (53, ''SMIMEA''), (55, ''HIP''), (56, ''NINFO''),
      (57, ''RKEY''), (58, ''TALINK''), (59, ''CDS''), (60, ''CDNSKEY''), (61, ''OPENPGPKEY''), (62, ''CSYNC''),
      (63, ''ZONEMD''), (64, ''SVCB''), (65, ''HTTPS''), (99, ''SPF''), (100, ''UINFO''), (101, ''UID''),
      (102, ''GID''), (103, ''UNSPEC''), (104, ''NID''), (105, ''L32''), (106, ''L64''), (107, ''LP''),
      (108, ''EUI48''), (109, ''EUI64''), (128, ''NXNAME''), (249, ''TKEY''), (250, ''TSIG''), (251, ''IXFR''),
      (252, ''AXFR''), (253, ''MAILB''), (254, ''MAILA''), (255, ''ANY''), (256, ''URI''), (257, ''CAA''),
      (258, ''AVC''), (259, ''DOA''), (32768, ''TA''), (32769, ''DLV'')]"

definition opcode_table :: "octet int_enum" where
  "opcode_table =
     [(0, ''QUERY''), (1, ''IQUERY''), (2, ''STATUS''), (4, ''NOTIFY''), (5, ''UPDATE''), (6, ''DSO'')]"

definition tsig_rcode_table :: "u16 int_enum" where
  "tsig_rcode_table =
     [(0, ''NOERROR''), (1, ''FORMERR''), (2, ''SERVFAIL''), (3, ''NXDOMAIN''), (4, ''NOTIMPL''), (5, ''REFUSED''),
      (6, ''YXDOMAIN''), (7, ''YXRRSET''), (8, ''NXRRSET''), (9, ''NOTAUTH''), (10, ''NOTZONE''), (16, ''BADSIG''),
      (17, ''BADKEY''), (18, ''BADTIME''), (19, ''BADMODE''), (20, ''BADNAME''), (21, ''BADALG''),
      (22, ''BADTRUNC''), (23, ''BADCOOKIE'')]"

definition class_from_str :: "uchar list \<Rightarrow> (u16, iana_from_str_error) result" where
  "class_from_str = from_str_with_prefix ''CLASS'' class_table"

definition class_display :: "u16 \<Rightarrow> uchar list" where
  "class_display = display_with_prefix ''CLASS'' class_table"

definition rtype_from_str :: "uchar list \<Rightarrow> (u16, iana_from_str_error) result" where
  "rtype_from_str = from_str_with_prefix ''TYPE'' rtype_table"

definition rtype_display :: "u16 \<Rightarrow> uchar list" where
  "rtype_display = display_with_prefix ''TYPE'' rtype_table"

definition rtype_is_glue :: "u16 \<Rightarrow> bool" where
  "rtype_is_glue r \<longleftrightarrow> r \<in> {1, 28}"

definition opcode_from_str :: "uchar list \<Rightarrow> (octet, iana_from_str_error) result" where
  "opcode_from_str = from_str_with_decimal opcode_table"

definition opcode_display :: "octet \<Rightarrow> uchar list" where
  "opcode_display = display_with_decimal opcode_table"

definition tsig_rcode_from_str :: "uchar list \<Rightarrow> (u16, iana_from_str_error) result" where
  "tsig_rcode_from_str = from_str_with_decimal tsig_rcode_table"

section \<open>Response codes\<close>

definition rcode_checked_from_int :: "octet \<Rightarrow> octet option" where
  "rcode_checked_from_int v = (if v AND 0xF0 \<noteq> 0 then None else Some v)"

definition rcode_masked_from_int :: "octet \<Rightarrow> octet" where
  "rcode_masked_from_int v = v AND 0x0F"

definition rcode_table :: "(octet \<times> string) list" where
  "rcode_table =
     [(0, ''NOERROR''), (1, ''FORMERR''), (2, ''SERVFAIL''), (3, ''NXDOMAIN''), (4, ''NOTIMP''), (5, ''REFUSED''),
      (6, ''YXDOMAIN''), (7, ''YXRRSET''), (8, ''NXRRSET''), (9, ''NOTAUTH''), (10, ''NOTZONE'')]"

text \<open>The strings are matched as they are.\<close>

definition rcode_from_str :: "uchar list \<Rightarrow> (octet, unit) result" where
  "rcode_from_str s = (case find (\<lambda>(v, m). s = uchars m) rcode_table of Some (v, m) \<Rightarrow> Ok v | None \<Rightarrow> Err ())"

definition rcode_display :: "octet \<Rightarrow> uchar list" where
  "rcode_display v = (case to_mnemonic_str rcode_table v of Some m \<Rightarrow> uchars m | None \<Rightarrow> dec_chars (unat v))"

definition opt_rcode_checked_from_int :: "u16 \<Rightarrow> u16 option" where
  "opt_rcode_checked_from_int v = (if v AND 0x0FFF \<noteq> 0 then None else Some v)"

definition opt_rcode_masked_from_int :: "u16 \<Rightarrow> u16" where
  "opt_rcode_masked_from_int v = v AND 0x0FFF"

definition opt_rcode_from_rcode :: "octet \<Rightarrow> u16" where
  "opt_rcode_from_rcode r = ucast r"

definition opt_rcode_from_parts :: "octet \<Rightarrow> octet \<Rightarrow> u16" where
  "opt_rcode_from_parts r ext = push_bit 4 (ucast ext) OR ucast r"

definition opt_rcode_to_parts :: "u16 \<Rightarrow> octet \<times> octet" where
  "opt_rcode_to_parts v = (rcode_masked_from_int (ucast v), ucast (drop_bit 4 v))"

definition opt_rcode_rcode :: "u16 \<Rightarrow> octet" where
  "opt_rcode_rcode v = fst (opt_rcode_to_parts v)"

definition opt_rcode_ext :: "u16 \<Rightarrow> octet" where
  "opt_rcode_ext v = snd (opt_rcode_to_parts v)"

definition opt_rcode_is_ext :: "u16 \<Rightarrow> bool" where
  "opt_rcode_is_ext v \<longleftrightarrow> drop_bit 4 v \<noteq> 0"

definition opt_rcode_table :: "u16 int_enum" where
  "opt_rcode_table = map (\<lambda>(v, m). (opt_rcode_from_rcode v, m)) rcode_table @ [(16, ''BADVERS''), (23, ''BADCOOKIE'')]"

definition opt_rcode_from_str :: "uchar list \<Rightarrow> (u16, unit) result" where
  "opt_rcode_from_str s = (case find (\<lambda>(v, m). s = uchars m) opt_rcode_table of Some (v, m) \<Rightarrow> Ok v | None \<Rightarrow> Err ())"

definition opt_rcode_display :: "u16 \<Rightarrow> uchar list" where
  "opt_rcode_display v = (case to_mnemonic_str opt_rcode_table v of Some m \<Rightarrow> uchars m | None \<Rightarrow> dec_chars (unat v))"

section \<open>Laws\<close>

text \<open>
  What makes a table with a prefix readable: the mnemonics are different and without lower case letters, and none of them starts
  with the prefix.
\<close>

definition not_lower :: "char \<Rightarrow> bool" where
  "not_lower c \<longleftrightarrow> \<not> (97 \<le> (of_char c :: nat) \<and> (of_char c :: nat) \<le> 122)"

definition table_ok :: "string \<Rightarrow> 'v int_enum \<Rightarrow> bool" where
  "table_ok prefix tab \<longleftrightarrow> distinct (map snd tab) \<and> list_all not_lower prefix \<and>
     list_all (\<lambda>(v, m). list_all not_lower m \<and> take (length prefix) m \<noteq> prefix) tab"

lemma uchar_lower_inj:
  assumes "not_lower c" "not_lower d" "uchar_lower (of_char c) = uchar_lower (of_char d)"
  shows "c = d"
proof -
  from assms have "(of_char c :: nat) = of_char d" by (auto simp: not_lower_def uchar_lower_def split: if_splits)
  then show ?thesis by simp
qed

lemma str_eq_uchars: "list_all not_lower s \<Longrightarrow> list_all not_lower t \<Longrightarrow> str_eq_ignore_case (uchars s) (uchars t) \<longleftrightarrow> s = t"
proof (induction s arbitrary: t)
  case (Cons c s)
  then show ?case by (cases t) (auto simp: str_eq_ignore_case_def uchars_def dest: uchar_lower_inj)
qed (auto simp: str_eq_ignore_case_def uchars_def)

lemma to_mnemonic_in: "to_mnemonic_str tab v = Some m \<Longrightarrow> (v, m) \<in> set tab"
  by (induction tab) (auto split: if_splits)

lemma from_mnemonic_in:
  assumes "(v, m) \<in> set tab" "table_ok prefix tab"
  shows "from_mnemonic tab (uchars m) = Some v"
proof -
  have m: "list_all not_lower m'" if "(v', m') \<in> set tab" for v' m' using that assms(2) by (auto simp: table_ok_def list_all_iff)
  from assms(2) have "distinct (map snd tab)" by (simp add: table_ok_def)
  with assms(1) m show ?thesis
  proof (induction tab)
    case (Cons e tab)
    obtain v' m' where e: "e = (v', m')" by fastforce
    have "list_all not_lower m" "list_all not_lower m'"
      using Cons.prems(2) [OF Cons.prems(1)] Cons.prems(2) [of v' m'] e by simp_all
    with Cons e show ?case by (auto simp: str_eq_uchars image_iff)
  qed simp
qed

lemma from_mnemonic_None:
  "(\<And>v m. (v, m) \<in> set tab \<Longrightarrow> \<not> str_eq_ignore_case s (uchars m)) \<Longrightarrow> from_mnemonic tab s = None"
proof (induction tab)
  case (Cons e tab)
  then show ?case by (cases e) fastforce
qed simp

lemma from_str_display_with_prefix:
  fixes tab :: "'v::len word int_enum"
  assumes "table_ok prefix tab"
  shows "from_str_with_prefix prefix tab (display_with_prefix prefix tab v) = Ok v"
proof (cases "to_mnemonic_str tab v")
  case None
  let ?s = "uchars prefix @ dec_chars (unat v)"
  have "\<not> str_eq_ignore_case ?s (uchars m)" if "(w, m) \<in> set tab" for w m
  proof
    assume "str_eq_ignore_case ?s (uchars m)"
    from arg_cong [OF this [unfolded str_eq_ignore_case_def], of "take (length prefix)"]
    have "str_eq_ignore_case (uchars (take (length prefix) m)) (uchars prefix)"
      by (simp add: uchars_def str_eq_ignore_case_def take_map)
    moreover have "list_all not_lower (take (length prefix) m)" "list_all not_lower prefix" "take (length prefix) m \<noteq> prefix"
      using that assms in_set_takeD [of _ "length prefix" m] by (fastforce simp: table_ok_def list_all_iff)+
    ultimately show False by (simp add: str_eq_uchars)
  qed
  then have "from_mnemonic tab ?s = None" by (rule from_mnemonic_None)
  moreover have "unat v \<le> 2 ^ LENGTH('v) - 1" using unsigned_less [of v] by (simp add: less_eq_Suc_le [symmetric] Suc_leI le_diff_conv2)
  ultimately show ?thesis
    using None parse_uint_dec_chars [of "unat v"] dec_chars_not_Nil [of "unat v"]
    by (simp add: display_with_prefix_def from_str_with_prefix_def str_eq_ignore_case_def uchars_def)
next
  case (Some m)
  with from_mnemonic_in [OF to_mnemonic_in [OF Some] assms] show ?thesis
    by (simp add: display_with_prefix_def from_str_with_prefix_def)
qed

lemma class_table_ok: "table_ok ''CLASS'' class_table"
  by code_simp

lemma rtype_table_ok: "table_ok ''TYPE'' rtype_table"
  by code_simp

lemma and_12_bits: "(v :: u16) AND 0x0FFF = take_bit 12 v"
proof -
  have "mask 12 = (0x0FFF :: u16)" by (simp add: mask_eq_exp_minus_1)
  then show ?thesis using take_bit_eq_mask [of 12 v] by simp
qed

lemma and_4_bits: "(v :: octet) AND 0x0F = take_bit 4 v"
proof -
  have "mask 4 = (0x0F :: octet)" by (simp add: mask_eq_exp_minus_1)
  then show ?thesis using take_bit_eq_mask [of 4 v] by simp
qed

lemma and_12_bits_0: "(v :: u16) AND 0x0FFF = 0 \<longleftrightarrow> unat v mod 4096 = 0"
proof -
  have "unat (take_bit 12 v) = unat v mod 4096" by (simp only: unsigned_take_bit_eq) (simp add: take_bit_eq_mod)
  then show ?thesis unfolding and_12_bits by (metis unat_0 unat_eq_zero)
qed

lemma opt_rcode_high_bits: "unat (w :: 'a::len word) < 2 ^ k \<Longrightarrow> k \<le> n \<Longrightarrow> \<not> bit w n"
proof -
  assume "unat w < 2 ^ k" "k \<le> n"
  then have "unat w < 2 ^ n" by (meson less_le_trans one_le_numeral power_increasing)
  then have "unat w div 2 ^ n = 0" by simp
  then have "\<not> bit (unat w) n" by (simp add: bit_iff_odd)
  then show ?thesis by (simp add: bit_unsigned_iff)
qed

lemma from_to_parts:
  fixes r ext :: octet
  assumes "r < 16"
  shows "(ucast (push_bit 4 (ucast ext :: u16) OR ucast r) :: octet) AND 0x0F = r"
    "(ucast (drop_bit 4 (push_bit 4 (ucast ext :: u16) OR ucast r)) :: octet) = ext"
proof -
  have r: "n < 4" if "bit r n" for n using opt_rcode_high_bits [of r 4 n] assms that by (simp add: word_less_nat_alt not_le [symmetric]) blast
  show "(ucast (push_bit 4 (ucast ext :: u16) OR ucast r) :: octet) AND 0x0F = r"
    unfolding and_4_bits using r
    by (intro bit_word_eqI) (auto simp: bit_take_bit_iff bit_unsigned_iff bit_or_iff bit_push_bit_iff not_le)
  show "(ucast (drop_bit 4 (push_bit 4 (ucast ext :: u16) OR ucast r)) :: octet) = ext"
    using r
    by (intro bit_word_eqI) (auto simp: bit_drop_bit_eq bit_unsigned_iff bit_or_iff bit_push_bit_iff)
qed

lemma to_from_parts:
  fixes v :: u16
  assumes "unat v < 4096"
  shows "push_bit 4 (ucast (ucast (drop_bit 4 v) :: octet)) OR ucast ((ucast v :: octet) AND 0x0F) = v"
    "drop_bit 4 v \<noteq> 0 \<longleftrightarrow> (ucast (drop_bit 4 v) :: octet) \<noteq> 0"
proof -
  have v: "n < 12" if "bit v n" for n using opt_rcode_high_bits [of v 12 n] assms that by (simp add: not_le [symmetric]) blast
  then have v': "n - 4 < 8" if "bit v n" for n using that by fastforce
  show "push_bit 4 (ucast (ucast (drop_bit 4 v) :: octet)) OR ucast ((ucast v :: octet) AND 0x0F) = v"
    unfolding and_4_bits using v v'
    by (intro bit_word_eqI) (auto simp: bit_take_bit_iff bit_unsigned_iff bit_or_iff bit_push_bit_iff bit_drop_bit_eq not_le)
  have "drop_bit 4 v = ucast (ucast (drop_bit 4 v) :: octet)"
    using v [of "4 + _"] by (intro bit_word_eqI) (auto simp: bit_unsigned_iff bit_drop_bit_eq)
  then show "drop_bit 4 v \<noteq> 0 \<longleftrightarrow> (ucast (drop_bit 4 v) :: octet) \<noteq> 0" by (metis unsigned_0)
qed

section \<open>Properties\<close>

text \<open>
  C29.  Record types and classes that are written are read back, whatever their value: those with a mnemonic as the mnemonic, all
  others as the prefix and the number.
\<close>

theorem iana_display_roundtrip:
  "rtype_from_str (rtype_display r) = Ok r \<and> class_from_str (class_display c) = Ok c"
  by (simp add: rtype_from_str_def rtype_display_def class_from_str_def class_display_def from_str_display_with_prefix
      rtype_table_ok class_table_ok)

text \<open>
  The parts of an extended response code: taking it apart and putting it together are inverse on the values of
  four and of eight bits, and it is extended if its upper part is not zero.
\<close>

theorem opt_rcode_parts:
  assumes "r < 16" "unat v < 4096"
  shows "opt_rcode_to_parts (opt_rcode_from_parts r ext) = (r, ext) \<and>
    opt_rcode_from_parts (opt_rcode_rcode v) (opt_rcode_ext v) = v \<and>
    (opt_rcode_is_ext v \<longleftrightarrow> opt_rcode_ext v \<noteq> 0)"
  using from_to_parts [OF assms(1)] to_from_parts [OF assms(2)]
  by (simp add: opt_rcode_to_parts_def opt_rcode_from_parts_def opt_rcode_rcode_def opt_rcode_ext_def opt_rcode_is_ext_def
      rcode_masked_from_int_def)

theorem opt_rcode_parts_witness:
  "opt_rcode_to_parts (opt_rcode_from_parts 7 1) = (7, 1) \<and>
    opt_rcode_from_parts (opt_rcode_rcode 23) (opt_rcode_ext 23) = 23 \<and> (opt_rcode_is_ext 23 \<longleftrightarrow> opt_rcode_ext 23 \<noteq> 0)"
  by (rule opt_rcode_parts) simp_all

text \<open>
  \<open>OptRcode::checked_from_int\<close> tests the wrong bits: it accepts the multiples of 4096 and nothing else, so that of all the codes of twelve
  bits only \<open>NOERROR\<close> passes.
\<close>

theorem opt_rcode_checked_inverted:
  "opt_rcode_checked_from_int v = (if unat v mod 4096 = 0 then Some v else None)"
  using and_12_bits_0 [of v] by (simp add: opt_rcode_checked_from_int_def)

end
