(* ===== verification/Question.thy ===== *)
theory Question
  imports Writing NameBuilder Iana
begin

text \<open>
  \<^verbatim>\<open>src/base/question.rs\<close>: the questions of a message.  A question is generic over its name: what is composed or compared has a view
  of labels, what is parsed a parsed name.
\<close>

section \<open>Questions\<close>

record 'n question =
  q_qname :: 'n
  q_qtype :: u16
  q_qclass :: u16

definition CLASS_IN :: u16 where "CLASS_IN = 1"

definition question_new :: "'n \<Rightarrow> u16 \<Rightarrow> u16 \<Rightarrow> 'n question" where
  "question_new name rtype class = \<lparr>q_qname = name, q_qtype = rtype, q_qclass = class\<rparr>"

definition question_new_in :: "'n \<Rightarrow> u16 \<Rightarrow> 'n question" where
  "question_new_in name rtype = \<lparr>q_qname = name, q_qtype = rtype, q_qclass = CLASS_IN\<rparr>"

definition question_parse :: "parser_ops \<Rightarrow> parser \<Rightarrow> parsed_name question parse_result" where
  "question_parse P p =
     rbind (parsed_name_parse P p) (\<lambda>(name, p). rbind (parse_u16 P p) (\<lambda>(rtype, p).
       rbind (parse_u16 P p) (\<lambda>(class, p). Ok (question_new name rtype class, p))))"

definition question_compose :: "'b composer_ops \<Rightarrow> label_view question \<Rightarrow> 'b target_step" where
  "question_compose C q =
     then_compose (co_append_name C (q_qname q))
       (then_compose (compose_be (co_builder C) (q_qtype q)) (compose_be (co_builder C) (q_qclass q)))"

definition question_octets_from :: "('m \<Rightarrow> ('n, 'e) result) \<Rightarrow> 'm question \<Rightarrow> ('n question, 'e) result" where
  "question_octets_from name_from q = rmap (\<lambda>name. question_new name (q_qtype q) (q_qclass q)) (name_from (q_qname q))"

section \<open>Comparing\<close>

definition question_eq :: "label_view question \<Rightarrow> label_view question \<Rightarrow> bool" where
  "question_eq a b \<longleftrightarrow> name_eq (q_qname a) (q_qname b) \<and> q_qtype a = q_qtype b \<and> q_qclass a = q_qclass b"

text \<open>The \<open>partial_cmp\<close> of integers is always there.\<close>

definition question_partial_cmp :: "label_view question \<Rightarrow> label_view question \<Rightarrow> ordering option" where
  "question_partial_cmp a b =
     (case name_cmp (q_qname a) (q_qname b) of
        Equal \<Rightarrow>
          (case Some (ord_cmp (q_qtype a) (q_qtype b)) of
             Some Equal \<Rightarrow> Some (ord_cmp (q_qclass a) (q_qclass b))
           | r \<Rightarrow> r)
      | r \<Rightarrow> Some r)"

definition question_cmp :: "label_view question \<Rightarrow> label_view question \<Rightarrow> ordering" where
  "question_cmp a b =
     (case name_cmp (q_qname a) (q_qname b) of
        Equal \<Rightarrow> (case ord_cmp (q_qtype a) (q_qtype b) of Equal \<Rightarrow> ord_cmp (q_qclass a) (q_qclass b) | r \<Rightarrow> r)
      | r \<Rightarrow> r)"

definition question_canonical_cmp :: "label_view question \<Rightarrow> label_view question \<Rightarrow> (ordering, 'e) result" where
  "question_canonical_cmp a b =
     rmap (\<lambda>r. case r of
         Equal \<Rightarrow> (case ord_cmp (q_qtype a) (q_qtype b) of Equal \<Rightarrow> ord_cmp (q_qclass a) (q_qclass b) | r \<Rightarrow> r)
       | r \<Rightarrow> r)
       (lowercase_composed_cmp (q_qname a) (q_qname b))"

section \<open>Presentation format\<close>

text \<open>\<open>str::split_whitespace\<close>: the pieces between characters with the property \<open>White_Space\<close>, without the empty ones.\<close>

definition is_whitespace :: "uchar \<Rightarrow> bool" where
  "is_whitespace c \<longleftrightarrow> (9 \<le> c \<and> c \<le> 13) \<or> (0x2000 \<le> c \<and> c \<le> 0x200A) \<or>
     c \<in> {0x20, 0x85, 0xA0, 0x1680, 0x2028, 0x2029, 0x202F, 0x205F, 0x3000}"

fun split_whitespace_loop :: "uchar list \<Rightarrow> uchar list \<Rightarrow> uchar list list" where
  "split_whitespace_loop word [] = (if word = [] then [] else [rev word])"
| "split_whitespace_loop word (c # cs) =
     (if is_whitespace c then (if word = [] then split_whitespace_loop [] cs else rev word # split_whitespace_loop [] cs)
      else split_whitespace_loop (c # word) cs)"

definition split_whitespace :: "uchar list \<Rightarrow> uchar list list" where
  "split_whitespace s = split_whitespace_loop [] s"

datatype question_presentation_error =
  QBadName presentation_error | MissingQname | MissingClassAndQtype | MissingQtype | BadClass | BadQtype | TrailingData

datatype question_from_str_error = QPresentation question_presentation_error | QShortBuf

fun question_error_from_name :: "from_str_error \<Rightarrow> question_from_str_error" where
  "question_error_from_name (Presentation err) = QPresentation (QBadName err)"
| "question_error_from_name FromStrShortBuf = QShortBuf"

definition question_from_str ::
    "(uchar list \<Rightarrow> ('n, from_str_error) result) \<Rightarrow> uchar list \<Rightarrow> ('n question, question_from_str_error) result" where
  "question_from_str name_from_str s =
     (case split_whitespace s of
        [] \<Rightarrow> Err (QPresentation MissingQname)
      | qname # s \<Rightarrow>
          rbind (rmap_err question_error_from_name (name_from_str qname)) (\<lambda>qname.
            case s of
              [] \<Rightarrow> Err (QPresentation MissingClassAndQtype)
            | class_or_qtype # s \<Rightarrow>
                (case class_from_str class_or_qtype of
                   Ok class \<Rightarrow>
                     (case s of
                        [] \<Rightarrow> Err (QPresentation MissingQtype)
                      | qtype # s \<Rightarrow>
                          (case rtype_from_str qtype of
                             Ok qtype \<Rightarrow>
                               if s \<noteq> [] then Err (QPresentation TrailingData) else Ok (question_new qname qtype class)
                           | _ \<Rightarrow> Err (QPresentation BadQtype)))
                 | _ \<Rightarrow>
                     (case rtype_from_str class_or_qtype of
                        Ok qtype \<Rightarrow>
                          (case s of
                             [] \<Rightarrow> Ok (question_new qname qtype CLASS_IN)
                           | class # s \<Rightarrow>
                               (case class_from_str class of
                                  Ok class \<Rightarrow>
                                    if s \<noteq> [] then Err (QPresentation TrailingData) else Ok (question_new qname qtype class)
                                | _ \<Rightarrow> Err (QPresentation BadClass)))
                      | _ \<Rightarrow> Err (QPresentation BadQtype)))))"

definition question_display :: "('n \<Rightarrow> (uchar list, 'e) result) \<Rightarrow> 'n question \<Rightarrow> (uchar list, 'e) result" where
  "question_display display_name q =
     rmap (\<lambda>name. name @ uchars ''.'' @ [9] @ rtype_display (q_qtype q) @ [9] @ class_display (q_qclass q)) (display_name (q_qname q))"

section \<open>Laws\<close>

text \<open>Comparing first by one and then by another order.\<close>

lemma total_cmp_then:
  assumes "total_cmp c j" "total_cmp d k"
  shows "total_cmp (\<lambda>a b. case c a b of Equal \<Rightarrow> d a b | r \<Rightarrow> r) (\<lambda>a. (j a, k a))"
proof -
  note c = total_cmp.cmp_Equal [OF assms(1)] total_cmp.cmp_flip [OF assms(1)] total_cmp.cmp_trans [OF assms(1)]
    total_cmp.cmp_key_left [OF assms(1)] total_cmp.cmp_key_right [OF assms(1)]
  note d = total_cmp.cmp_Equal [OF assms(2)] total_cmp.cmp_flip [OF assms(2)] total_cmp.cmp_trans [OF assms(2)]
    total_cmp.cmp_key_left [OF assms(2)]
  have eq: "(case c a b of Equal \<Rightarrow> d a b | r \<Rightarrow> r) = (if j a = j b then d a b else c a b)" for a b
    using c(1) [of a b] by (cases "c a b") simp_all
  show ?thesis unfolding eq
  proof
    fix x y z x'
    show "(if j x = j y then d x y else c x y) = Equal \<longleftrightarrow> (j x, k x) = (j y, k y)" by (simp add: c(1) d(1))
    show "(if j y = j x then d y x else c y x) = ord_reverse (if j x = j y then d x y else c x y)"
      using c(2) [of y x] d(2) [of y x] by simp
    show "(if j x = j z then d x z else c x z) = Less"
      if "(if j x = j y then d x y else c x y) = Less" "(if j y = j z then d y z else c y z) = Less"
      using that c(1) [of x z] c(3) [of x y z] c(4) [of x y z] c(5) [of y z x] d(3) [of x y z]
      by (auto split: if_splits)
    show "(if j x = j y then d x y else c x y) = (if j x' = j y then d x' y else c x' y)"
      if "(j x, k x) = (j x', k x')" using that c(4) [of x x' y] d(4) [of x x' y] by simp
  qed
qed

interpretation question_cmp: total_cmp question_cmp
    "\<lambda>q. (canonical_labels (lv_back (q_qname q)), q_qtype q, q_qclass q)"
  unfolding question_cmp_def [abs_def]
  by (intro total_cmp_then total_cmp_image [OF name_cmp.total_cmp_axioms] total_cmp_image [OF ord_cmp.total_cmp_axioms])

definition question_ok :: "label_view question \<Rightarrow> bool" where
  "question_ok q \<longleftrightarrow> view_ok (q_qname q) \<and> abs_labels (lv_labels (q_qname q))"

definition question_len :: "label_view question \<Rightarrow> nat" where
  "question_len q = length (wire (lv_labels (q_qname q))) + 4"

definition question_meaning :: "label_view question \<Rightarrow> meaning" where
  "question_meaning q = seq_meaning (name_meaning (q_qname q))
     (seq_meaning (octets_meaning (to_be_bytes (q_qtype q))) (octets_meaning (to_be_bytes (q_qclass q))))"

definition question_view :: "parsed_name question \<Rightarrow> label_view question" where
  "question_view q = question_new (pn_view (q_qname q)) (q_qtype q) (q_qclass q)"

text \<open>A parsed question stands for a question: it is well-formed and equal to it.\<close>

definition question_stands :: "label_view question \<Rightarrow> parsed_name question \<Rightarrow> bool" where
  "question_stands q q' \<longleftrightarrow> question_ok (question_view q') \<and> question_eq (question_view q') q"

context composer
begin

lemma writes_question:
  "question_ok q \<Longrightarrow> writes C good cut lim (question_compose C q) (question_len q) (question_meaning q)"
  using writes_then [OF writes_name writes_then [OF writes_be [of "q_qtype q"] writes_be [of "q_qclass q"]]]
  by (simp add: question_ok_def question_compose_def question_len_def question_meaning_def)

end

lemma name_meaning_stands:
  assumes "pn_is pn ls" "canonical_labels ls = canonical_labels (lv_labels v)" "view_ok v"
  shows "name_eq (pn_view pn) v"
  using name_eq_canonical [OF pn_is_view_ok(1) [OF assms(1)] assms(3)] pn_view_is [OF assms(1)] assms(2) by simp

context octseq_parser
begin

lemma reads_question:
  assumes "question_ok q"
  shows "reads (question_parse P) (question_meaning q) (question_stands q)"
proof -
  have v: "view_ok (q_qname q)" "length (wire (lv_labels (q_qname q))) \<le> 255"
    using assms view_okD(4) [of "q_qname q"] by (simp_all add: question_ok_def NAME_MAX_LEN_def)
  show ?thesis
    unfolding question_parse_def [abs_def] question_meaning_def
  proof (rule reads_bind [OF reads_name [OF v(2)]], rule reads_bind [OF reads_be(1)], rule reads_map [OF reads_be(1)])
    fix pn rtype cls
    assume "\<exists>ls. pn_is pn ls \<and> canonical_labels ls = canonical_labels (lv_labels (q_qname q))"
      "rtype = q_qtype q" "cls = q_qclass q"
    then show "question_stands q (question_new pn rtype cls)"
      using name_meaning_stands [OF _ _ v(1)] pn_is_view_ok
      by (auto simp: question_stands_def question_ok_def question_view_def question_new_def question_eq_def)
  qed
qed

end

section \<open>Reading a displayed question\<close>

lemma split_whitespace_word:
  "\<forall>c \<in> set w. \<not> is_whitespace c \<Longrightarrow> is_whitespace s \<Longrightarrow>
     split_whitespace_loop v (w @ s # rest) = (if v = [] \<and> w = [] then [] else [rev v @ w]) @ split_whitespace_loop [] rest"
  by (induction w arbitrary: v) auto

lemma split_whitespace_last: "\<forall>c \<in> set w. \<not> is_whitespace c \<Longrightarrow> split_whitespace_loop v w = (if v = [] \<and> w = [] then [] else [rev v @ w])"
  by (induction w arbitrary: v) auto

lemma split_question:
  assumes "\<forall>c \<in> set (x @ y @ z). \<not> is_whitespace c" "x \<noteq> []" "y \<noteq> []" "z \<noteq> []"
  shows "split_whitespace (x @ 9 # y @ 9 # z) = [x, y, z]"
  using assms by (simp add: split_whitespace_def split_whitespace_word split_whitespace_last is_whitespace_def [of 9])

definition graphic :: "uchar \<Rightarrow> bool" where
  "graphic c \<longleftrightarrow> 33 \<le> c \<and> c \<le> 126"

lemma graphic_not_whitespace: "graphic c \<Longrightarrow> \<not> is_whitespace c"
  by (auto simp: graphic_def is_whitespace_def)

lemma prefix_display_chars:
  assumes "list_all (\<lambda>m. m \<noteq> [] \<and> list_all graphic (uchars m)) (pre # map snd tab)"
  shows "display_with_prefix pre tab v \<noteq> [] \<and> list_all graphic (display_with_prefix pre tab v)"
proof (cases "to_mnemonic_str tab v")
  case None
  then have "display_with_prefix pre tab v = uchars pre @ dec_chars (unat v)" by (simp add: display_with_prefix_def)
  moreover have "list_all graphic (dec_chars (unat v))" unfolding list_all_iff using dec_chars_range by (fastforce simp: graphic_def)
  ultimately show ?thesis using assms by (simp add: uchars_def)
next
  case (Some m)
  from assms have "\<forall>x \<in> set tab. snd x \<noteq> [] \<and> list_all graphic (uchars (snd x))" by (simp add: list_all_iff)
  from bspec [OF this to_mnemonic_in [OF Some]] Some show ?thesis by (simp add: display_with_prefix_def uchars_def)
qed

lemma type_class_graphic: "rtype_display t \<noteq> [] \<and> list_all graphic (rtype_display t)" "class_display t \<noteq> [] \<and> list_all graphic (class_display t)"
  unfolding rtype_display_def class_display_def by (rule prefix_display_chars, code_simp)+

lemma type_class_chars:
  "rtype_display t \<noteq> [] \<and> (\<forall>c \<in> set (rtype_display t). \<not> is_whitespace c)"
  "class_display t \<noteq> [] \<and> (\<forall>c \<in> set (class_display t). \<not> is_whitespace c)"
  using type_class_graphic [of t] graphic_not_whitespace by (auto simp: list_all_iff)

text \<open>No record type is displayed the way that a class is.\<close>

lemma class_from_rtype: "class_from_str (rtype_display t) = Err IanaFromStrError"
proof (cases "to_mnemonic_str rtype_table t")
  case None
  then show ?thesis
    by (simp add: class_from_str_def rtype_display_def display_with_prefix_def from_str_with_prefix_def class_table_def
        str_eq_ignore_case_def uchars_def uchar_lower_def)
next
  case (Some m)
  have "list_all (\<lambda>x. class_from_str (uchars (snd x)) = Err IanaFromStrError) rtype_table" by code_simp
  from bspec [OF this [unfolded list_all_iff] to_mnemonic_in [OF Some]] Some show ?thesis
    by (simp add: rtype_display_def display_with_prefix_def)
qed

text \<open>A displayed name has white space only if it has a space, and may be followed by a dot unless it is the root.\<close>

lemma label_display_chars: "32 \<notin> set l \<Longrightarrow> c \<in> set (label_display l) \<Longrightarrow> \<not> is_whitespace c"
  unfolding label_display_def label_char_display_symbol
proof (induction l)
  case (Cons ch l)
  have "\<not> is_whitespace c" if "c \<in> set (symbol_display (label_symbol ch))"
  proof -
    have "ch \<noteq> 32" using Cons.prems(1) by auto
    then have "unat ch \<noteq> 32" by (auto simp: word_unat_eq_iff)
    moreover have "unat ch < 256" using unsigned_less [of ch, where 'a = nat] by simp
    then have "unat ch div 100 < 10" by linarith
    ultimately show ?thesis
      using that by (auto simp: label_symbol_def printable_def word_le_nat_alt word_less_nat_alt is_whitespace_def dec3_def split: if_splits)
  qed
  with Cons show ?case by auto
qed simp

lemma symbols_labels_display_append:
  "symbols (concat (map (\<lambda>l. 46 # label_display l) ls) @ rest) = (labels_symbols ls @ fst (symbols rest), snd (symbols rest))"
  by (induction ls) (simp_all add: labels_symbols_def symbols_label_display)

lemma name_from_symbols_dot:
  assumes "rel_labels (l # ms)" "length (wire (l # ms)) \<le> 254"
  shows "name_from_symbols vec_builder (map label_symbol l @ labels_symbols ms @ [Char 46]) = Ok (wire (l # ms) @ [0])"
proof -
  from assms obtain ch l' where l: "l = ch # l'" by (cases l) auto
  have last: "last (l # ms) \<noteq> []" using rel_labels_last [OF assms(1)] by simp
  have "sfor (nb_push_symbol vec_builder) ((map label_symbol l @ labels_symbols ms) @ [Char 46]) (vec_nb [] []) =
      (Ok (), vec_nb (butlast (l # ms) @ [last (l # ms)]) [])"
    unfolding sfor_append [of _ "map label_symbol l @ labels_symbols ms"] sbind_def [of _ _ "vec_nb [] []"] vec_push_all [OF assms]
    using vec_push_dot [OF last, of "butlast (l # ms)"] by (simp add: sreturn_def del: butlast.simps last.simps append_butlast_last_id)
  then have "sbind (nb_push_symbol vec_builder (label_symbol ch))
      (\<lambda>_. nb_append_symbols vec_builder (map label_symbol l' @ labels_symbols ms @ [Char 46])) (nb_new vec_builder) =
      (Ok (), vec_nb (l # ms) [])"
    by (simp add: l nb_append_symbols_def nb_new_vec)
  moreover have "nb_into_name vec_builder (vec_nb (l # ms) []) = Ok (wire (l # ms) @ [0])"
    by (simp add: nb_into_name_def vec_end_label nb_append_octets_def) (simp add: vec_nb_def)
  ultimately show ?thesis by (simp add: name_from_symbols_def l label_symbol_not_dot del: wire_simps)
qed

lemma name_display_dot:
  assumes "name_ok n" "n \<noteq> [0]" "\<forall>l \<in> set (name_labels n). 32 \<notin> set l"
  shows "\<exists>chars. name_display n = (Ok chars :: (uchar list, 'e) result) \<and> (\<forall>c \<in> set chars. \<not> is_whitespace c) \<and>
    name_from_chars vec_builder (chars @ [46]) = Ok n"
proof -
  from assms(1) obtain ls where ls: "rel_labels ls" "n = wire ls @ [0]" "length n \<le> NAME_MAX_LEN"
    by (auto simp: name_ok_iff)
  with assms(2) obtain l ms where lm: "ls = l # ms" by (cases ls) auto
  have "list_all valid_label (ls @ [[]])" using rel_labels_valid [OF ls(1)] by (simp add: valid_label_def)
  then have labels: "name_labels n = l # ms @ [[]]" using ls(2) lm name_labels_wire [of "ls @ [[]]"] by simp
  let ?chars = "label_display l @ concat (map (\<lambda>l. 46 # label_display l) ms)"
  have "concat (map (\<lambda>l. if l = [] then [] else 46 # label_display l) ms) = concat (map (\<lambda>l. 46 # label_display l) ms)"
    using ls(1) lm by (intro arg_cong [where f = concat] map_cong) (auto simp: rel_labels_def list_all_iff)
  then have "name_display n = (Ok ?chars :: (uchar list, 'e) result)"
    using labels ls(1,2) lm by (simp add: name_display_def name_is_root_def label_is_root_def)
  moreover have "\<forall>c \<in> set ?chars. \<not> is_whitespace c"
    using assms(3) labels label_display_chars by (auto simp: is_whitespace_def [of 46])
  moreover have "name_from_chars vec_builder (?chars @ [46]) = Ok n"
    using name_from_symbols_dot [of l ms] ls lm
    by (simp add: name_from_chars_def symbols_with_def symbols_label_display symbols_labels_display_append NAME_MAX_LEN_def del: wire_simps)
  ultimately show ?thesis by blast
qed

section \<open>Properties\<close>

text \<open>
  C8.  A question that any composer wrote, with or without compression, is read back at its position: the parser succeeds, moves to the end of the
  message, and gives a question that is equal to it.
\<close>

theorem question_roundtrip:
  assumes "octseq_parser P" "composer C good ct lim" "good {} t" "question_ok q"
    and "length (co_ref C t) + question_len q \<le> lim" "question_compose C q t = (Ok u, t')"
  shows "\<exists>q'. question_parse P \<lparr>p_octets = co_ref C t', p_pos = length (co_ref C t), p_len = length (co_ref C t')\<rparr> =
      Ok (q', \<lparr>p_octets = co_ref C t', p_pos = length (co_ref C t'), p_len = length (co_ref C t')\<rparr>) \<and> question_stands q q'"
  using assms by (intro composer.write_read [OF assms(2) composer.writes_question octseq_parser.reads_question])

definition example_question :: "label_view question" where
  "example_question = question_new_in example_view 1"

lemma example_question_ok: "question_ok example_question"
  using example_view_ok by (simp add: question_ok_def example_question_def question_new_in_def)

lemma question_example:
  "question_compose (tree_compressor vec_builder) example_question \<lparr>cp_target = replicate 12 0, cp_table = node_default\<rparr> =
   (Ok (), \<lparr>cp_target = replicate 12 0 @ [1, 97, 0, 0, 1, 0, 1], cp_table = Node [[97] \<mapsto> Node Map.empty (Some 12)] None\<rparr>)"
  by (simp add: question_compose_def example_question_def question_new_in_def CLASS_IN_def tree_compressor_def Let_def example_view_def
      compress_loop.simps label_is_root_def tree_get_def node_default_def tree_insert_def compressor_builder_def vec_builder_def
      label_compose_def then_compose_def compose_be_def to_be_bytes_u16)

theorem question_roundtrip_witness:
  "\<exists>q'. question_parse slice_parser
      \<lparr>p_octets = replicate 12 0 @ [1, 97, 0, 0, 1, 0, 1], p_pos = 12, p_len = 19\<rparr> =
      Ok (q', \<lparr>p_octets = replicate 12 0 @ [1, 97, 0, 0, 1, 0, 1], p_pos = 19, p_len = 19\<rparr>) \<and> question_stands example_question q'"
proof -
  have "tree_good vec_builder (\<lambda>_. True) {} \<lparr>cp_target = replicate 12 0, cp_table = node_default\<rparr>"
    using tree_table.new by (simp add: compressor_good_def)
  from question_roundtrip [OF slice_parser.octseq_parser_axioms vec_tree.composer_axioms this example_question_ok _ question_example]
  show ?thesis
    by (simp add: tree_compressor_def Let_def compressor_builder_def vec_builder_def question_len_def example_question_def
        question_new_in_def example_view_def)
qed

lemma question_canonical_cmp_Equal:
  assumes "question_ok a" "question_ok b"
  shows "question_canonical_cmp a b = (Ok Equal :: (ordering, 'e) result) \<longleftrightarrow>
    canonical_labels (lv_labels (q_qname a)) = canonical_labels (lv_labels (q_qname b)) \<and> q_qtype a = q_qtype b \<and> q_qclass a = q_qclass b"
proof -
  let ?x = "canonical_labels (lv_labels (q_qname a))" and ?y = "canonical_labels (lv_labels (q_qname b))"
  have abs: "abs_labels (lv_labels (q_qname a))" "abs_labels (lv_labels (q_qname b))" using assms by (simp_all add: question_ok_def)
  then have "lowercase_composed_cmp (q_qname a) (q_qname b) = (Ok (list_cmp ord_cmp (wire ?x) (wire ?y)) :: (ordering, 'e) result)"
    by (simp add: lowercase_composed_cmp_def lowercase_composed_cmp_loop_wire lowercase_wire abs_labels_valid)
  moreover have "list_cmp ord_cmp (wire ?x) (wire ?y) = Equal \<longleftrightarrow> ?x = ?y"
    using ord_cmp.list_cmp_Equal [of "wire ?x" "wire ?y"] wire_inj [of ?x ?y] abs canonical_valid abs_labels_valid by auto
  ultimately show ?thesis by (auto simp: question_canonical_cmp_def split: ordering.splits)
qed

text \<open>
  On questions with well-formed names the orders and the equality agree: \<open>cmp\<close> and \<open>canonical_cmp\<close> are \<open>Equal\<close> exactly for equal
  questions, \<open>partial_cmp\<close> is \<open>cmp\<close>, and swapping the arguments of \<open>cmp\<close> reverses the result.
\<close>

theorem question_cmp_eq:
  assumes "question_ok a" "question_ok b"
  shows "(question_cmp a b = Equal \<longleftrightarrow> question_eq a b) \<and> (question_canonical_cmp a b = (Ok Equal :: (ordering, unit) result) \<longleftrightarrow> question_eq a b) \<and>
    question_partial_cmp a b = Some (question_cmp a b) \<and> question_cmp b a = ord_reverse (question_cmp a b)"
proof (intro conjI)
  have eq: "question_eq a b \<longleftrightarrow> canonical_labels (lv_labels (q_qname a)) = canonical_labels (lv_labels (q_qname b)) \<and>
      q_qtype a = q_qtype b \<and> q_qclass a = q_qclass b"
    using assms by (auto simp: question_eq_def question_ok_def name_eq_canonical)
  have "canonical_labels (rev xs) = rev (canonical_labels xs)" for xs by (simp add: rev_map)
  then show "question_cmp a b = Equal \<longleftrightarrow> question_eq a b"
    unfolding question_cmp.cmp_Equal eq
    using assms view_okD(2) [of "q_qname a"] view_okD(2) [of "q_qname b"] by (auto simp: question_ok_def)
  show "question_canonical_cmp a b = (Ok Equal :: (ordering, unit) result) \<longleftrightarrow> question_eq a b"
    unfolding eq by (rule question_canonical_cmp_Equal [OF assms])
  show "question_partial_cmp a b = Some (question_cmp a b)"
    by (simp add: question_partial_cmp_def question_cmp_def del: ord_cmp_Equal ord_cmp_Less ord_cmp_Greater split: ordering.split)
  show "question_cmp b a = ord_reverse (question_cmp a b)" by (rule question_cmp.cmp_flip)
qed

theorem question_cmp_eq_witness:
  "(question_cmp example_question example_question = Equal \<longleftrightarrow> question_eq example_question example_question) \<and>
   (question_canonical_cmp example_question example_question = (Ok Equal :: (ordering, unit) result) \<longleftrightarrow>
     question_eq example_question example_question) \<and>
   question_partial_cmp example_question example_question = Some (question_cmp example_question example_question) \<and>
   question_cmp example_question example_question = ord_reverse (question_cmp example_question example_question)"
  by (rule question_cmp_eq [OF example_question_ok example_question_ok])

text \<open>
  C39.  The displayed form of a question is read back as the question, for every record type and class and every name that has no space in its
  labels, except for the root: \<open>Display\<close> adds a dot to the name, the root is displayed as a dot by itself, and two dots are an
  empty label.  A space in a label is displayed as a backslash and a space, where \<open>FromStr\<close> splits the text.
\<close>

theorem question_presentation_roundtrip:
  assumes "name_ok n" "\<forall>l \<in> set (name_labels n). 32 \<notin> set l"
  shows "\<exists>s. question_display name_display (question_new n rtype class) = (Ok s :: (uchar list, 'e) result) \<and>
    question_from_str (name_from_chars vec_builder) s =
      (if n = [0] then Err (QPresentation (QBadName PresEmptyLabel)) else Ok (question_new n rtype class))"
proof -
  note rd = class_from_rtype from_str_display_with_prefix [OF class_table_ok, folded class_from_str_def class_display_def]
    from_str_display_with_prefix [OF rtype_table_ok, folded rtype_from_str_def rtype_display_def]
  show ?thesis
  proof (cases "n = [0]")
    case True
    have "split_whitespace ([46, 46] @ 9 # rtype_display rtype @ 9 # class_display class) =
      [[46, 46], rtype_display rtype, class_display class]"
      by (rule split_question) (use type_class_chars in \<open>auto simp: is_whitespace_def [of 46]\<close>)
    moreover have "name_from_chars vec_builder [46, 46] = Err (Presentation PresEmptyLabel)" by code_simp
    ultimately show ?thesis
      using True by (simp add: question_display_def question_new_def question_from_str_def name_display_def name_is_root_def uchars_def)
  next
    case False
    from name_display_dot [OF assms(1) False assms(2)] obtain chars where chars: "name_display n = (Ok chars :: (uchar list, 'e) result)"
      "\<forall>c \<in> set (chars @ [46]). \<not> is_whitespace c" "name_from_chars vec_builder (chars @ [46]) = Ok n"
      by (auto simp: is_whitespace_def [of 46])
    have "split_whitespace ((chars @ [46]) @ 9 # rtype_display rtype @ 9 # class_display class) =
      [chars @ [46], rtype_display rtype, class_display class]"
      by (rule split_question) (use chars(2) type_class_chars in auto)
    with chars False show ?thesis
      by (simp add: question_display_def question_new_def question_from_str_def rd uchars_def)
  qed
qed

theorem question_presentation_roundtrip_witness:
  "\<exists>s. question_display name_display (question_new [1, 97, 0] 2 1) = (Ok s :: (uchar list, unit) result) \<and>
    question_from_str (name_from_chars vec_builder) s = Ok (question_new [1, 97, 0] 2 1)"
proof -
  have "name_ok [1, 97, 0]"
    by (auto simp: name_ok_iff wire_label_def valid_label_def LABEL_MAX_LEN_def NAME_MAX_LEN_def intro!: exI [of _ "[[97]]"])
  moreover have "name_labels [1, 97, 0] = [[97], []]" by code_simp
  ultimately show ?thesis using question_presentation_roundtrip [of "[1, 97, 0]" 2 1, where 'e = unit] by simp
qed

end
