(* ===== verification/Ttl.thy ===== *)
theory Ttl
  imports Decimal Wire
begin

text \<open>
  \<open>Ttl\<close> of \<^verbatim>\<open>src/base/record.rs\<close>: a time to live in seconds.  The new type around \<open>u32\<close> is the integer itself.
\<close>

section \<open>Units\<close>

type_synonym ttl = u32

definition SECS_PER_MINUTE :: u32 where "SECS_PER_MINUTE = 60"
definition SECS_PER_HOUR :: u32 where "SECS_PER_HOUR = 3600"
definition SECS_PER_DAY :: u32 where "SECS_PER_DAY = 86400"

definition TTL_MAX :: ttl where "TTL_MAX = - 1"
definition TTL_CAP :: ttl where "TTL_CAP = 604800"

definition as_minutes :: "ttl \<Rightarrow> u32" where
  "as_minutes t = t div SECS_PER_MINUTE"

definition as_hours :: "ttl \<Rightarrow> u32" where
  "as_hours t = t div SECS_PER_HOUR"

definition as_days :: "ttl \<Rightarrow> u16" where
  "as_days t = ucast (t div SECS_PER_DAY)"

definition from_mins :: "u32 \<Rightarrow> (ttl, 'e) result" where
  "from_mins minutes = (if minutes \<le> 71582788 then Ok (minutes * SECS_PER_MINUTE) else Panic)"

definition from_hours :: "u32 \<Rightarrow> (ttl, 'e) result" where
  "from_hours hours = (if hours \<le> 1193046 then Ok (hours * SECS_PER_HOUR) else Panic)"

definition from_days :: "u16 \<Rightarrow> (ttl, 'e) result" where
  "from_days days = (if days \<le> 49710 then Ok (ucast days * SECS_PER_DAY) else Panic)"

text \<open>\<open>core::time::Duration\<close>: seconds and nanoseconds.\<close>

record duration =
  du_secs :: u64
  du_nanos :: u32

definition into_duration :: "ttl \<Rightarrow> duration" where
  "into_duration t = \<lparr>du_secs = ucast t, du_nanos = 0\<rparr>"

definition from_duration_lossy :: "duration \<Rightarrow> ttl" where
  "from_duration_lossy d = ucast (du_secs d)"

definition ttl_is_zero :: "ttl \<Rightarrow> bool" where
  "ttl_is_zero t \<longleftrightarrow> t = 0"

section \<open>Arithmetic\<close>

definition ttl_checked_add :: "ttl \<Rightarrow> ttl \<Rightarrow> ttl option" where
  "ttl_checked_add a b = (if unat a + unat b < 2 ^ 32 then Some (a + b) else None)"

definition ttl_saturating_add :: "ttl \<Rightarrow> ttl \<Rightarrow> ttl" where
  "ttl_saturating_add a b = (case ttl_checked_add a b of Some t \<Rightarrow> t | None \<Rightarrow> TTL_MAX)"

definition ttl_checked_sub :: "ttl \<Rightarrow> ttl \<Rightarrow> ttl option" where
  "ttl_checked_sub a b = (if b \<le> a then Some (a - b) else None)"

definition ttl_saturating_sub :: "ttl \<Rightarrow> ttl \<Rightarrow> ttl" where
  "ttl_saturating_sub a b = (case ttl_checked_sub a b of Some t \<Rightarrow> t | None \<Rightarrow> 0)"

definition ttl_checked_mul :: "ttl \<Rightarrow> u32 \<Rightarrow> ttl option" where
  "ttl_checked_mul a b = (if unat a * unat b < 2 ^ 32 then Some (a * b) else None)"

definition ttl_saturating_mul :: "ttl \<Rightarrow> u32 \<Rightarrow> ttl" where
  "ttl_saturating_mul a b = (case ttl_checked_mul a b of Some t \<Rightarrow> t | None \<Rightarrow> TTL_MAX)"

definition ttl_checked_div :: "ttl \<Rightarrow> u32 \<Rightarrow> ttl option" where
  "ttl_checked_div a b = (if b \<noteq> 0 then Some (a div b) else None)"

definition ttl_cap :: "ttl \<Rightarrow> ttl" where
  "ttl_cap t = (if t > TTL_CAP then TTL_CAP else t)"

text \<open>The operators: \<open>expect\<close> on the checked operations.\<close>

definition expect_some :: "'a option \<Rightarrow> ('a, 'e) result" where
  "expect_some x = (case x of Some a \<Rightarrow> Ok a | None \<Rightarrow> Panic)"

definition ttl_add :: "ttl \<Rightarrow> ttl \<Rightarrow> (ttl, 'e) result" where
  "ttl_add a b = expect_some (ttl_checked_add a b)"

definition ttl_sub :: "ttl \<Rightarrow> ttl \<Rightarrow> (ttl, 'e) result" where
  "ttl_sub a b = expect_some (ttl_checked_sub a b)"

definition ttl_mul :: "ttl \<Rightarrow> u32 \<Rightarrow> (ttl, 'e) result" where
  "ttl_mul a b = expect_some (ttl_checked_mul a b)"

definition ttl_div :: "ttl \<Rightarrow> u32 \<Rightarrow> (ttl, 'e) result" where
  "ttl_div a b = expect_some (ttl_checked_div a b)"

fun ttl_sum_loop :: "ttl \<Rightarrow> ttl list \<Rightarrow> (ttl, 'e) result" where
  "ttl_sum_loop total_secs [] = Ok total_secs"
| "ttl_sum_loop total_secs (t # ts) = rbind (expect_some (ttl_checked_add total_secs t)) (\<lambda>total_secs. ttl_sum_loop total_secs ts)"

definition ttl_sum :: "ttl list \<Rightarrow> (ttl, 'e) result" where
  "ttl_sum = ttl_sum_loop 0"

section \<open>Wire format and presentation\<close>

definition ttl_compose :: "'b builder_ops \<Rightarrow> ttl \<Rightarrow> 'b target_step" where
  "ttl_compose B t s = bo_append B s (to_be_bytes t)"

definition ttl_parse :: "parser_ops \<Rightarrow> parser \<Rightarrow> ttl parse_result" where
  "ttl_parse P p = rmap_err parse_error_from_short (ps_parse_u32_be P p)"

fun pretty_loop :: "bool \<Rightarrow> (u16 \<times> string) list \<Rightarrow> uchar list" where
  "pretty_loop first [] = []"
| "pretty_loop first ((n, unit) # units) =
     (if n = 0 then pretty_loop first units
      else (if first then uchars '' '' else []) @
        dec_chars (unat n) @ uchars '' '' @ uchars unit @ (if n > 1 then uchars ''s'' else []) @ pretty_loop False units)"

definition ttl_pretty :: "ttl \<Rightarrow> uchar list" where
  "ttl_pretty t =
     (let days = as_days t; weeks = days div 7; days = days mod 7; hours = as_hours t mod 24;
          minutes = as_minutes t mod 60; seconds = t mod 60
      in pretty_loop True [(weeks, ''week''), (days, ''day''), (ucast hours, ''hour''), (ucast minutes, ''minute''),
           (ucast seconds, ''second'')])"

section \<open>Laws\<close>

lemmas secs_defs = SECS_PER_MINUTE_def SECS_PER_HOUR_def SECS_PER_DAY_def

lemma unat_mult_small: "unat a * unat b < 2 ^ LENGTH('a) \<Longrightarrow> unat (a * b :: 'a::len word) = unat a * unat b"
  by (simp add: unat_word_ariths)

lemma unat_add_small: "unat a + unat b < 2 ^ LENGTH('a) \<Longrightarrow> unat (a + b :: 'a::len word) = unat a + unat b"
  by (simp add: unat_word_ariths)

text \<open>The number of days fits into sixteen bits.\<close>

lemma unat_as_days: "unat (as_days t) = unat t div 86400"
proof -
  have "unat t < 2 ^ 32" using unsigned_less [of t] by simp
  then have "unat t div 86400 < 2 ^ 16" by simp
  then show ?thesis by (simp add: as_days_def secs_defs unat_div_distrib unsigned_ucast_eq take_bit_eq_mod)
qed

lemma unat_as: "unat (as_minutes t) = unat t div 60" "unat (as_hours t) = unat t div 3600"
  by (simp_all add: as_minutes_def as_hours_def secs_defs unat_div_distrib)

lemma ttl_sum_loop_Ok:
  "ttl_sum_loop a ts = (if unat a + (\<Sum>t\<leftarrow>ts. unat t) < 2 ^ 32 then Ok (a + sum_list ts) else Panic)"
proof (induction ts arbitrary: a)
  case Nil
  then show ?case using unsigned_less [of a] by simp
next
  case (Cons t ts)
  then show ?case
    using unat_add_small [of a t] by (auto simp: ttl_checked_add_def expect_some_def add.assoc)
qed

lemma unit_exact:
  fixes m k :: u32
  assumes "unat m * unat k < 2 ^ 32" "0 < unat k"
  shows "unat (m * k) = unat m * unat k" "unat (m * k) div unat k = unat m"
  using assms unat_mult_small [of m k] by simp_all

section \<open>Properties\<close>

text \<open>
  Making a time to live of minutes, hours or days is exact where it does not panic: the greatest number that is allowed is the greatest one
  whose seconds fit into 32 bits, and reading the unit gives the number back.
\<close>

theorem ttl_units_exact:
  "(case from_mins m of Ok t \<Rightarrow> unat t = unat m * 60 \<and> as_minutes t = m | Err _ \<Rightarrow> False | Panic \<Rightarrow> unat m * 60 \<ge> 2 ^ 32) \<and>
   (case from_hours h of Ok t \<Rightarrow> unat t = unat h * 3600 \<and> as_hours t = h | Err _ \<Rightarrow> False | Panic \<Rightarrow> unat h * 3600 \<ge> 2 ^ 32) \<and>
   (case from_days d of Ok t \<Rightarrow> unat t = unat d * 86400 \<and> as_days t = d | Err _ \<Rightarrow> False | Panic \<Rightarrow> unat d * 86400 \<ge> 2 ^ 32)"
proof (intro conjI)
  show "case from_mins m of Ok t \<Rightarrow> unat t = unat m * 60 \<and> as_minutes t = m | Err _ \<Rightarrow> False | Panic \<Rightarrow> unat m * 60 \<ge> 2 ^ 32"
    using unit_exact [of m 60] by (auto simp: from_mins_def secs_defs word_le_nat_alt word_unat_eq_iff unat_as)
  show "case from_hours h of Ok t \<Rightarrow> unat t = unat h * 3600 \<and> as_hours t = h | Err _ \<Rightarrow> False | Panic \<Rightarrow> unat h * 3600 \<ge> 2 ^ 32"
    using unit_exact [of h 3600] by (auto simp: from_hours_def secs_defs word_le_nat_alt word_unat_eq_iff unat_as)
  have "unat (ucast d :: u32) = unat d" 
  proof -
    have "unat d < 2 ^ 16" using unsigned_less [of d] by simp
    then show ?thesis by (simp add: unsigned_ucast_eq take_bit_eq_mod)
  qed
  then show "case from_days d of Ok t \<Rightarrow> unat t = unat d * 86400 \<and> as_days t = d | Err _ \<Rightarrow> False | Panic \<Rightarrow> unat d * 86400 \<ge> 2 ^ 32"
    using unit_exact [of "ucast d" 86400] by (auto simp: from_days_def secs_defs word_le_nat_alt word_unat_eq_iff unat_as_days)
qed

text \<open>The sum of times to live panics if and only if it does not fit into 32 bits.\<close>

theorem ttl_sum_exact:
  "ttl_sum ts = (if (\<Sum>t\<leftarrow>ts. unat t) < 2 ^ 32 then Ok (sum_list ts) else Panic)"
  by (simp add: ttl_sum_def ttl_sum_loop_Ok)

text \<open>
  The separator of \<open>Ttl::pretty\<close> is written before the first unit instead of between the units.
\<close>

theorem ttl_pretty_separator: "ttl_pretty 90 = uchars '' 1 minute30 seconds''"
  by code_simp

end
