(* ===== verification/Serial.thy ===== *)
theory Serial
  imports Wire
begin

text \<open>
  \<^verbatim>\<open>src/base/serial.rs\<close>: serial number arithmetic of RFC 1982 on a 32 bit space that wraps around.
\<close>

section \<open>Definitions\<close>

datatype serial = Serial (serial_int: u32)

definition serial_from_be_bytes :: "octets \<Rightarrow> serial" where
  "serial_from_be_bytes bytes = Serial (from_be_bytes bytes)"

definition into_int :: "serial \<Rightarrow> u32" where
  "into_int s = (case s of Serial v \<Rightarrow> v)"

text \<open>\<open>Serial::now\<close> and the conversion from a time stamp truncate a count of seconds.\<close>

definition serial_from_secs :: "int \<Rightarrow> serial" where
  "serial_from_secs secs = Serial (word_of_int secs)"

text \<open>The addition panics on an operand above \<open>2^31 - 1\<close>.\<close>

definition serial_add :: "serial \<Rightarrow> u32 \<Rightarrow> (serial, 'e) result" where
  "serial_add s v = (if v \<le> 0x7FFFFFFF then Ok (Serial (serial_int s + v)) else Panic)"

definition serial_parse :: "parser_ops \<Rightarrow> parser \<Rightarrow> serial parse_result" where
  "serial_parse P p = rmap (\<lambda>(v, p). (Serial v, p)) (parse_u32 P p)"

definition serial_compose :: "'b builder_ops \<Rightarrow> serial \<Rightarrow> 'b target_step" where
  "serial_compose B s t = compose_be B (serial_int s) t"

definition serial_partial_cmp :: "serial \<Rightarrow> serial \<Rightarrow> ordering option" where
  "serial_partial_cmp s t =
     (case ord_cmp (serial_int s) (serial_int t) of
        Equal \<Rightarrow> Some Equal
      | Less \<Rightarrow>
          (case ord_cmp (serial_int t - serial_int s) 0x80000000 of
             Less \<Rightarrow> Some Less | Greater \<Rightarrow> Some Greater | Equal \<Rightarrow> None)
      | Greater \<Rightarrow>
          (case ord_cmp (serial_int s - serial_int t) 0x80000000 of
             Less \<Rightarrow> Some Greater | Greater \<Rightarrow> Some Less | Equal \<Rightarrow> None))"

definition serial_canonical_cmp :: "serial \<Rightarrow> serial \<Rightarrow> ordering" where
  "serial_canonical_cmp s t = ord_cmp (serial_int s) (serial_int t)"

section \<open>The comparison as a distance\<close>

text \<open>
  RFC 1982 reads the comparison off the distance from one serial to the other in the space of
  all serials: less than half way round is an increase.
\<close>

definition serial_distance :: "serial \<Rightarrow> serial \<Rightarrow> nat" where
  "serial_distance s t = unat (serial_int t - serial_int s)"

lemma unat_u32_less: "unat (x :: u32) < 2 ^ 32"
  using unsigned_less [of x] by simp

lemma serial_eq_iff_unat: "s = t \<longleftrightarrow> unat (serial_int s) = unat (serial_int t)"
  by (cases s; cases t) (simp add: word_unat_eq_iff)

lemma serial_distance_eq:
  "serial_distance s t =
     (if unat (serial_int s) \<le> unat (serial_int t) then unat (serial_int t) - unat (serial_int s)
      else unat (serial_int t) + 2 ^ 32 - unat (serial_int s))"
  by (simp add: serial_distance_def unat_sub_if')

lemma serial_partial_cmp_eq:
  "serial_partial_cmp s t =
     (let a = unat (serial_int s); b = unat (serial_int t) in
      if a = b then Some Equal
      else if a < b then
        (if b - a < 2 ^ 31 then Some Less else if b - a = 2 ^ 31 then None else Some Greater)
      else
        (if a - b < 2 ^ 31 then Some Greater else if a - b = 2 ^ 31 then None else Some Less))"
proof -
  have eq: "unat (x - y) = unat x - unat y" if "unat y < unat x" for x y :: u32
    using that by (simp add: unat_sub_if')
  show ?thesis
    unfolding serial_partial_cmp_def ord_cmp_def Let_def word_less_nat_alt word_unat_eq_iff
    by (simp add: eq)
qed

lemma serial_distance_0: "serial_distance s t = 0 \<longleftrightarrow> s = t"
  using unat_u32_less [of "serial_int s"] by (auto simp: serial_distance_eq serial_eq_iff_unat)

lemma serial_distance_less: "serial_distance s t < 2 ^ 32"
  using unat_u32_less [of "serial_int t"] by (auto simp: serial_distance_eq)

lemma serial_distance_flip: "s \<noteq> t \<Longrightarrow> serial_distance t s = 2 ^ 32 - serial_distance s t"
  using unat_u32_less [of "serial_int t"] unat_u32_less [of "serial_int s"]
  by (auto simp: serial_distance_eq serial_eq_iff_unat)

lemma serial_partial_cmp_distance:
  "serial_partial_cmp s t =
     (if serial_distance s t = 0 then Some Equal
      else if serial_distance s t < 2 ^ 31 then Some Less
      else if serial_distance s t = 2 ^ 31 then None
      else Some Greater)"
  using unat_u32_less [of "serial_int t"] unat_u32_less [of "serial_int s"]
  unfolding serial_partial_cmp_eq serial_distance_eq Let_def
  by (auto split: if_splits)

lemma serial_distance_add:
  "v \<le> 0x7FFFFFFF \<Longrightarrow> serial_add s v = Ok t \<Longrightarrow> serial_distance s t = unat v"
  by (auto simp: serial_add_def serial_distance_def split: if_splits)

lemma serial_partial_cmp_flip:
  "serial_partial_cmp t s = map_option ord_reverse (serial_partial_cmp s t)"
proof (cases "s = t")
  case False
  with serial_distance_flip [OF False] serial_distance_less [of s t] show ?thesis
    unfolding serial_partial_cmp_distance by (auto simp: serial_distance_0)
qed (simp add: serial_partial_cmp_distance serial_distance_0)

context octseq_parser
begin

lemma serial_parse_Ok:
  "parser_wf p \<Longrightarrow> p_rest p = to_be_bytes (serial_int s) @ ys \<Longrightarrow> serial_parse P p = Ok (s, p_forward p 4)"
  by (simp add: serial_parse_def parse_be_Ok)

end

sublocale octseq_parser \<subseteq> serial: wire_codec P "\<lambda>s. to_be_bytes (serial_int s)" "serial_parse P" "\<lambda>_. True"
  by unfold_locales (simp add: serial_parse_Ok)

section \<open>Properties\<close>

text \<open>
  Adding a positive amount of at most \<open>2^31 - 1\<close> never panics and gives a serial number that
  compares greater than the original, across the wrap-around of the 32 bit space too; a greater
  amount panics.
\<close>

theorem serial_add_increases:
  "serial_add s v =
     (if v \<le> 0x7FFFFFFF then Ok (Serial (serial_int s + v)) else (Panic :: (serial, unit) result)) \<and>
   (0 < v \<longrightarrow> v \<le> 0x7FFFFFFF \<longrightarrow>
      serial_partial_cmp s (Serial (serial_int s + v)) = Some Less \<and>
      serial_partial_cmp (Serial (serial_int s + v)) s = Some Greater)"
proof -
  have "serial_partial_cmp s (Serial (serial_int s + v)) = Some Less"
    if "0 < v" "v \<le> 0x7FFFFFFF"
    using that by (simp add: serial_partial_cmp_distance serial_distance_def word_le_nat_alt word_less_nat_alt)
  then show ?thesis
    using serial_partial_cmp_flip [of "Serial (serial_int s + v)" s] by (auto simp: serial_add_def)
qed

theorem serial_add_increases_witness:
  "serial_partial_cmp (Serial 0xFFFFFFFF) (Serial (0xFFFFFFFF + 5)) = Some Less"
  using serial_add_increases [of "Serial 0xFFFFFFFF" 5] by simp

text \<open>
  C37.  The comparison of serial numbers is the one of RFC 1982, section 3.2.  It is reflexive only
  on equal numbers, its converse is its reverse, and it leaves two numbers unordered exactly when
  they are half the space apart.
\<close>

theorem serial_cmp_rfc1982:
  "let i1 = unat (serial_int s); i2 = unat (serial_int t) in
     (serial_partial_cmp s t = Some Equal \<longleftrightarrow> s = t) \<and>
     (serial_partial_cmp s t = Some Less \<longleftrightarrow>
        i1 < i2 \<and> i2 - i1 < 2 ^ 31 \<or> i2 < i1 \<and> 2 ^ 31 < i1 - i2) \<and>
     (serial_partial_cmp s t = None \<longleftrightarrow> i1 + 2 ^ 31 = i2 \<or> i2 + 2 ^ 31 = i1) \<and>
     serial_partial_cmp t s = map_option ord_reverse (serial_partial_cmp s t)"
  unfolding Let_def using serial_partial_cmp_flip [of t s]
  by (auto simp: serial_partial_cmp_eq serial_eq_iff_unat Let_def)

end
