(* ===== verification/DataFields.thy ===== *)
theory DataFields
  imports Rdata Question Ttl Serial
begin

text \<open>
  The fields that record data is made of: integers, octets and names, how they are composed, parsed and compared.  The
  definitions are those that the types of \<^verbatim>\<open>src/rdata\<close> share; the lemmas reduce the contracts of a type to those of its fields.
\<close>

section \<open>Shared parts\<close>

text \<open>\<open>match a \{ Equal => \{\}, other => return other \}\<close>, for the three types an order can have.\<close>

fun then_cmp :: "ordering \<Rightarrow> ordering \<Rightarrow> ordering" where
  "then_cmp Equal s = s"
| "then_cmp r s = r"

fun then_partial :: "ordering option \<Rightarrow> ordering option \<Rightarrow> ordering option" where
  "then_partial (Some Equal) s = s"
| "then_partial r s = r"

definition then_rcmp :: "(ordering, 'e) result \<Rightarrow> (ordering, 'e) result \<Rightarrow> (ordering, 'e) result" where
  "then_rcmp r s = rbind r (\<lambda>r. if r = Equal then s else Ok r)"

text \<open>An addition of \<open>u16\<close> panics on overflow.\<close>

definition u16_add :: "(u16, 'e) result \<Rightarrow> (u16, 'e) result \<Rightarrow> (u16, 'e) result" where
  "u16_add a b = rbind a (\<lambda>a. rbind b (\<lambda>b. if unat a + unat b < 2 ^ 16 then Ok (a + b) else Panic))"

text \<open>\<open>ParseRecordData::parse_rdata\<close> of a type with one record type.\<close>

definition parse_rdata_of :: "u16 \<Rightarrow> (parser \<Rightarrow> 'd parse_result) \<Rightarrow> 'd rdata_parse" where
  "parse_rdata_of RTYPE parse rtype p =
     (if rtype = RTYPE then rmap (\<lambda>(d, p). (Some d, p)) (parse p) else Ok (None, p))"

definition name_ok :: "label_view \<Rightarrow> bool" where
  "name_ok v \<longleftrightarrow> view_ok v \<and> abs_labels (lv_labels v)"

abbreviation name_len :: "label_view \<Rightarrow> nat" where
  "name_len v \<equiv> length (wire (lv_labels v))"

abbreviation name_canon :: "label_view \<Rightarrow> octets" where
  "name_canon v \<equiv> wire (canonical_labels (lv_labels v))"

lemma name_okD:
  assumes "name_ok v"
  shows "view_ok v" "abs_labels (lv_labels v)" "name_len v \<le> 255" "runwrap (lv_compose_len v) = Ok (of_nat (name_len v))"
    "unat (of_nat (name_len v) :: u16) = name_len v"
proof -
  show v: "view_ok v" "abs_labels (lv_labels v)" using assms by (simp_all add: name_ok_def)
  show len: "name_len v \<le> 255" using view_okD(4) [OF v(1)] by (simp add: NAME_MAX_LEN_def)
  show "runwrap (lv_compose_len v) = Ok (of_nat (name_len v))" using v(1) by (simp add: view_ok_def)
  show "unat (of_nat (name_len v) :: u16) = name_len v" using len by (simp add: unat_of_nat)
qed

lemma u16_add_Ok: "m + n < 65536 \<Longrightarrow> u16_add (Ok (of_nat m)) (Ok (of_nat n)) = Ok (of_nat (m + n))"
  by (simp add: u16_add_def unat_of_nat)

lemma u16_add_num: "unat a + n < 65536 \<Longrightarrow> u16_add (Ok a) (Ok (of_nat n)) = Ok (of_nat (unat a + n))"
  "n + unat a < 65536 \<Longrightarrow> u16_add (Ok (of_nat n)) (Ok a) = Ok (of_nat (n + unat a))"
  by (simp_all add: u16_add_def unat_of_nat)

text \<open>A name that was parsed stands for the name that was composed.\<close>

definition name_stands :: "label_view \<Rightarrow> parsed_name \<Rightarrow> bool" where
  "name_stands v pn \<longleftrightarrow> name_ok (pn_view pn) \<and> name_eq (pn_view pn) v"

lemma reads_weaken: "reads f Q R \<Longrightarrow> (\<And>x. R x \<Longrightarrow> R' x) \<Longrightarrow> reads f Q R'"
  unfolding reads_def by blast

lemma written_weaken: "written m a b Q \<Longrightarrow> (\<And>m. written m a b Q \<Longrightarrow> R m a b) \<Longrightarrow> written m a b R"
  unfolding written_def by (simp add: min_absorb1)

lemma reads_meaning: "reads f R X \<Longrightarrow> (\<And>m a b. written m a b Q \<Longrightarrow> R m a b) \<Longrightarrow> reads f Q X"
  unfolding reads_def using written_weaken [of _ _ _ Q R] by blast

lemma reads_octets: "reads f (seq_meaning (octets_meaning xs) (octets_meaning ys)) X \<Longrightarrow> reads f (octets_meaning (xs @ ys)) X"
  by (erule reads_meaning) (auto simp flip: written_octets_append intro: written_now)

lemma reads_assoc: "reads f (seq_meaning Q (seq_meaning R S)) X \<Longrightarrow> reads f (seq_meaning (seq_meaning Q R) S) X"
  unfolding reads_def written_seq by blast

lemma serial_compose_be: "serial_compose B s = compose_be B (serial_int s)"
  by (simp add: serial_compose_def [abs_def])

lemma ttl_compose_be: "ttl_compose B s = compose_be B s"
  by (simp add: ttl_compose_def [abs_def] compose_be_def [abs_def])

context octseq_parser
begin

lemma reads_serial: "reads (serial_parse P) (octets_meaning (to_be_bytes (serial_int s))) (\<lambda>x. x = s)"
proof -
  have "serial_parse P = (\<lambda>p. rbind (parse_u32 P p) (\<lambda>(v, p). Ok (Serial v, p)))"
  proof
    show "serial_parse P p = rbind (parse_u32 P p) (\<lambda>(v, p). Ok (Serial v, p))" for p
      by (cases "parse_u32 P p") (auto simp: serial_parse_def)
  qed
  then show ?thesis using reads_map [OF reads_be(2) [of "serial_int s"], of "\<lambda>x. x = s" Serial] by simp
qed

lemma reads_ttl: "reads (ttl_parse P) (octets_meaning (to_be_bytes s)) (\<lambda>x. x = s)"
  using reads_be(2) [of s] by (simp add: ttl_parse_def [abs_def] parse_u32_def [abs_def])

end

context octseq_parser
begin

lemma reads_stands:
  assumes "name_ok v"
  shows "reads (parsed_name_parse P) (name_meaning v) (name_stands v)"
proof (rule reads_weaken [OF reads_name [OF name_okD(3) [OF assms]]])
  fix pn
  assume "\<exists>ls. pn_is pn ls \<and> canonical_labels ls = canonical_labels (lv_labels v)"
  then obtain ls where ls: "pn_is pn ls" "canonical_labels ls = canonical_labels (lv_labels v)" by blast
  from name_meaning_stands [OF ls name_okD(1) [OF assms]] pn_is_view_ok [OF ls(1)]
  show "name_stands v pn" by (simp add: name_stands_def name_ok_def)
qed

end

lemma rdata_parser_of:
  assumes "octseq_parser P" "\<And>d. ok d \<Longrightarrow> reads parse (meaning d) (same d)"
  shows "rdata_parser P (parse_rdata_of RTYPE parse) (\<lambda>_. RTYPE) ok meaning same"
proof (rule rdata_parser.intro [OF assms(1)], unfold_locales)
  fix d p
  assume d: "ok d" "parser_wf p" "written (p_octets p) (p_pos p) (p_len p) (meaning d)"
  obtain e where "parse p = Ok (e, p\<lparr>p_pos := p_len p\<rparr>)" "same d e"
    by (rule readsD [OF assms(2) [OF d(1)] d(2) order_refl d(3)])
  then show "\<exists>e. parse_rdata_of RTYPE parse RTYPE p = Ok (Some e, p\<lparr>p_pos := p_len p\<rparr>) \<and> same d e"
    by (auto simp: parse_rdata_of_def)
qed

context wire_codec
begin

lemma reads_codec: "valid x \<Longrightarrow> reads dec (octets_meaning (enc x)) (\<lambda>y. y = x)"
  unfolding reads_def
proof (intro allI impI)
  fix p b
  assume p: "valid x" "parser_wf p" "b \<le> p_len p" "written (p_octets p) (p_pos p) b (octets_meaning (enc x))"
  then have "take (length (enc x)) (p_rest p) = enc x" "b = p_pos p + length (enc x)"
    by (simp_all add: written_octets p_rest_def parser_wf_def drop_take min_absorb1)
  then show "\<exists>y. dec p = Ok (y, p\<lparr>p_pos := b\<rparr>) \<and> y = x"
    using dec_enc [OF p(1,2), of "drop (length (enc x)) (p_rest p)"] by (metis append_take_drop_id p_forward_def)
qed

end

section \<open>Orders\<close>

lemma total_then_cmp:
  assumes "total_cmp c j" "total_cmp d k"
  shows "total_cmp (\<lambda>a b. then_cmp (c a b) (d a b)) (\<lambda>a. (j a, k a))"
proof -
  have "then_cmp r s = (case r of Equal \<Rightarrow> s | r \<Rightarrow> r)" for r s by (cases r) simp_all
  then show ?thesis using total_cmp_then [OF assms] by simp
qed

lemma then_partial_Some [simp]: "then_partial (Some r) (Some s) = Some (then_cmp r s)"
  by (cases r) simp_all

lemma then_rcmp_Ok [simp]: "then_rcmp (Ok r) (Ok s) = Ok (then_cmp r s)"
  by (cases r) (simp_all add: then_rcmp_def)

text \<open>The contract of \<open>PartialEq\<close>, \<open>PartialOrd\<close> and \<open>Ord\<close> with each other.\<close>

locale data_ord = total_cmp cmp key
  for cmp :: "'d \<Rightarrow> 'd \<Rightarrow> ordering" and key :: "'d \<Rightarrow> 'k" +
  fixes data_ok :: "'d \<Rightarrow> bool" and eq :: "'d \<Rightarrow> 'd \<Rightarrow> bool" and partial_cmp :: "'d \<Rightarrow> 'd \<Rightarrow> ordering option"
  assumes eq_key: "data_ok a \<Longrightarrow> data_ok b \<Longrightarrow> eq a b \<longleftrightarrow> key a = key b"
    and partial_cmp: "partial_cmp a b = Some (cmp a b)"
begin

lemma eq_cmp: "data_ok a \<Longrightarrow> data_ok b \<Longrightarrow> eq a b \<longleftrightarrow> cmp a b = Equal"
  by (simp add: eq_key cmp_Equal)

end

abbreviation name_key :: "label_view \<Rightarrow> label list" where
  "name_key v \<equiv> canonical_labels (lv_back v)"

lemma name_eq_key:
  assumes "name_ok a" "name_ok b"
  shows "name_eq a b \<longleftrightarrow> name_key a = name_key b"
proof -
  have "canonical_labels (rev xs) = rev (canonical_labels xs)" for xs by (simp add: rev_map)
  then show ?thesis
    using view_okD(2) name_okD(1) [OF assms(1)] name_okD(1) [OF assms(2)] by (simp add: name_eq_canonical)
qed

lemmas total_fields = total_cmp_image [OF name_cmp.total_cmp_axioms] total_cmp_image [OF ord_cmp.total_cmp_axioms]

text \<open>Comparing encodings of which none is a prefix of another is comparing field by field.\<close>

lemma list_cmp_fields:
  assumes "as = bs \<or> \<not> prefix as bs \<and> \<not> prefix bs as"
  shows "list_cmp ord_cmp (as @ xs) (bs @ ys) = then_cmp (list_cmp ord_cmp as bs) (list_cmp ord_cmp xs ys)"
  using assms
proof (induction as bs rule: list_induct2')
  case (4 a as b bs)
  then show ?case by (cases "a = b"; cases "a < b") (auto simp: ord_cmp_def)
qed auto

lemma list_cmp_octets:
  "length as = length bs \<Longrightarrow>
   list_cmp ord_cmp (as @ xs) (bs @ ys) = then_cmp (list_cmp ord_cmp as bs) (list_cmp ord_cmp xs ys)"
  by (rule list_cmp_fields) (metis prefix_length_prefix prefix_order.antisym prefix_order.refl order_refl)

lemma list_cmp_be_value:
  "length as = length bs \<Longrightarrow> list_cmp ord_cmp as bs = ord_cmp (be_value 0 as) (be_value 0 bs)"
proof (induction as bs rule: list_induct2)
  case (Cons a as b bs)
  let ?n = "256 ^ length bs :: nat"
  have eq: "be_value 0 (a # as) = unat a * ?n + be_value 0 as" "be_value 0 (b # bs) = unat b * ?n + be_value 0 bs"
    using be_value_eq [of "unat a" as] be_value_eq [of "unat b" bs] Cons.hyps by simp_all
  have less: "be_value 0 as < ?n" "be_value 0 bs < ?n" using be_value_less [of 0 as] be_value_less [of 0 bs] Cons.hyps by simp_all
  have lt: "x * ?n + u < y * ?n + v" if "x < y" "u < ?n" for x y u v :: nat
  proof -
    have "x * ?n + u < Suc x * ?n" using that by simp
    also have "\<dots> \<le> y * ?n" using that by (intro mult_right_mono) simp_all
    finally show ?thesis by simp
  qed
  consider "a = b" | "unat a < unat b" | "unat b < unat a" 
    by (metis linorder_neqE_nat unsigned_word_eqI)
  then show ?case
  proof cases
    case 1
    then show ?thesis using Cons.IH eq by (simp add: ord_cmp_def)
  next
    case 2
    then have "ord_cmp a b = Less" by (simp add: word_less_nat_alt)
    moreover have "ord_cmp (be_value 0 (a # as)) (be_value 0 (b # bs)) = Less" unfolding ord_cmp_Less eq by (rule lt [OF 2 less(1)])
    ultimately show ?thesis by (simp del: be_value.simps ord_cmp_Less)
  next
    case 3
    then have "ord_cmp a b = Greater" by (simp add: word_less_nat_alt)
    moreover have "ord_cmp (be_value 0 (a # as)) (be_value 0 (b # bs)) = Greater" unfolding ord_cmp_Greater eq by (rule lt [OF 3 less(2)])
    ultimately show ?thesis by (simp del: be_value.simps ord_cmp_Greater)
  qed
qed (simp add: ord_cmp_def)

lemma list_cmp_be:
  fixes v w :: "'a::len word"
  assumes "LENGTH('a) = 8 * (LENGTH('a) div 8)"
  shows "list_cmp ord_cmp (to_be_bytes v @ xs) (to_be_bytes w @ ys) = then_cmp (ord_cmp v w) (list_cmp ord_cmp xs ys)"
proof -
  have "(256::nat) ^ (LENGTH('a) div 8) = 2 ^ LENGTH('a)" by (subst assms) (simp add: power_mult)
  then have "be_value 0 (to_be_bytes w) = unat w" for w :: "'a word" by (simp add: to_be_bytes_def be_value_be_octets unsigned_less)
  then have "list_cmp ord_cmp (to_be_bytes v) (to_be_bytes w) = ord_cmp v w"
    using unsigned_word_eqI [of v w] by (auto simp: list_cmp_be_value ord_cmp_def word_less_nat_alt)
  then show ?thesis by (simp add: list_cmp_octets)
qed

lemma list_cmp_be_last:
  fixes v w :: "'a::len word"
  assumes "LENGTH('a) = 8 * (LENGTH('a) div 8)"
  shows "list_cmp ord_cmp (to_be_bytes v) (to_be_bytes w) = ord_cmp v w"
proof -
  have "then_cmp r Equal = r" for r by (cases r) simp_all
  then show ?thesis using list_cmp_be [OF assms, of v "[]" w "[]"] by simp
qed

lemma wire_prefix_free:
  assumes "abs_labels ls" "abs_labels ms" "prefix (wire ls) (wire ms)"
  shows "ls = ms"
  using assms
proof (induction ls arbitrary: ms)
  case (Cons l ls)
  then obtain m ms' where ms: "ms = m # ms'" by (cases ms) simp_all
  from Cons.prems ms have v: "valid_label l" "valid_label m" by (auto dest: abs_labels_valid)
  from Cons.prems(3) ms obtain zs where "wire_label m @ wire ms' = wire_label l @ (wire ls @ zs)" by (auto simp: prefix_def)
  from wire_label_inj [OF v(2,1) this] have eq: "m = l" "prefix (wire ls) (wire ms')" by (auto simp: prefix_def)
  show ?case
  proof (cases "l = []")
    case True
    then show ?thesis using Cons.prems ms eq(1) by (simp add: abs_labels_Cons)
  next
    case False
    then have "abs_labels ls" "abs_labels ms'" using Cons.prems ms eq(1) by (simp_all add: abs_labels_Cons)
    with Cons.IH eq ms show ?thesis by blast
  qed
qed simp

lemma list_cmp_name:
  assumes "name_ok v" "name_ok w"
  shows "list_cmp ord_cmp (name_canon v @ xs) (name_canon w @ ys) =
    then_cmp (list_cmp ord_cmp (name_canon v) (name_canon w)) (list_cmp ord_cmp xs ys)"
proof (rule list_cmp_fields)
  let ?v = "canonical_labels (lv_labels v)" and ?w = "canonical_labels (lv_labels w)"
  have abs: "abs_labels ?v" "abs_labels ?w" using assms by (simp_all add: name_ok_def)
  show "wire ?v = wire ?w \<or> \<not> prefix (wire ?v) (wire ?w) \<and> \<not> prefix (wire ?w) (wire ?v)"
    using wire_prefix_free [OF abs] wire_prefix_free [OF abs(2,1)] by auto
qed

lemma lowercase_composed_cmp_canon:
  assumes "name_ok v" "name_ok w"
  shows "lowercase_composed_cmp v w = Ok (list_cmp ord_cmp (name_canon v) (name_canon w))"
  using assms by (simp add: lowercase_composed_cmp_def lowercase_composed_cmp_loop_wire name_ok_def lowercase_wire abs_labels_valid)

context composer
begin

lemma puts_sized: "puts C good cut lim f xs \<Longrightarrow> writes C good cut lim f (length xs) (sized (length xs) (octets_meaning xs))"
  by simp

text \<open>Data with compressible names: its length is known unless the target compresses.\<close>

lemma compressible_data:
  assumes "\<And>d. ok d \<Longrightarrow> writes C good cut lim (rd_compose D C d) (len d) (meaning d)"
    and "\<And>d. ok d \<Longrightarrow> \<not> co_can_compress C \<Longrightarrow> writes C good cut lim (rd_compose D C d) (len d) (sized (len d) (meaning d))"
    and "\<And>d c. ok d \<Longrightarrow> rd_rdlen D d c = Ok (if c then None else Some (of_nat (len d)))"
    and "\<And>d. ok d \<Longrightarrow> puts C good cut lim (rd_compose_canonical D C d) (canon d)"
    and "\<And>d. ok d \<Longrightarrow> length (canon d) = len d" "\<And>d. ok d \<Longrightarrow> len d \<le> 65535"
  shows "record_data C good cut lim D ok len meaning canon"
proof
  fix d assume d: "ok d"
  have "unat (of_nat (len d) :: u16) = len d" using assms(6) [OF d] by (simp add: unat_of_nat)
  with assms(2,3,5,6) [OF d] show "rd_rdlen D d (co_can_compress C) = Ok None \<or> (\<exists>n. rd_rdlen D d (co_can_compress C) = Ok (Some n) \<and>
        writes C good cut lim (rd_compose D C d) (len d) (sized (unat n) (meaning d)))"
    "length (canon d) \<le> 65535 \<and> (rd_rdlen D d False = Ok None \<or> (\<exists>n. rd_rdlen D d False = Ok (Some n) \<and> unat n = length (canon d)))"
    by simp_all
qed (use assms in blast)+

end

end
