(* ===== verification/RfcData.thy ===== *)
theory RfcData
  imports DataFields
begin

text \<open>
  Record data of fixed fields and names: the types of \<^verbatim>\<open>src/rdata/rfc1035\<close> but those made of character strings,
  \<^verbatim>\<open>src/rdata/aaaa.rs\<close>, \<^verbatim>\<open>src/rdata/dname.rs\<close>, \<^verbatim>\<open>src/rdata/srv.rs\<close>, and the macros of \<^verbatim>\<open>src/rdata/macros.rs\<close> for data that is a
  single name.  Every type has its data, its operations, and three facts: it keeps the contract \<open>record_data\<close> with every
  composer, the contract \<open>rdata_parser\<close> with every parser, and its canonical order is that of the canonical octets.
\<close>

section \<open>A and AAAA\<close>

definition A_RTYPE :: u16 where "A_RTYPE = 1"

definition a_from_octets :: "octet \<Rightarrow> octet \<Rightarrow> octet \<Rightarrow> octet \<Rightarrow> ipv4_addr" where
  "a_from_octets a b c d = Ipv4Addr a b c d"

definition a_canonical_cmp :: "ipv4_addr \<Rightarrow> ipv4_addr \<Rightarrow> ordering" where
  "a_canonical_cmp a b = list_cmp ord_cmp (ipv4_octets a) (ipv4_octets b)"

definition a_parse_rdata :: "parser_ops \<Rightarrow> ipv4_addr rdata_parse" where
  "a_parse_rdata P = parse_rdata_of A_RTYPE (parse_ipv4 P)"

definition a_compose_rdata :: "'b composer_ops \<Rightarrow> ipv4_addr \<Rightarrow> 'b target_step" where
  "a_compose_rdata C d t = bo_append (co_builder C) t (ipv4_octets d)"

definition a_ops :: "(ipv4_addr, 'b) rdata_ops" where
  "a_ops = \<lparr>rd_rtype = (\<lambda>_. A_RTYPE), rd_rdlen = (\<lambda>_ _. Ok (Some 4)), rd_compose = a_compose_rdata,
     rd_compose_canonical = a_compose_rdata\<rparr>"

definition AAAA_RTYPE :: u16 where "AAAA_RTYPE = 28"

definition aaaa_canonical_cmp :: "octets \<Rightarrow> octets \<Rightarrow> ordering" where
  "aaaa_canonical_cmp a b = list_cmp ord_cmp a b"

definition aaaa_parse_rdata :: "parser_ops \<Rightarrow> octets rdata_parse" where
  "aaaa_parse_rdata P = parse_rdata_of AAAA_RTYPE (parse_ipv6 P)"

definition aaaa_compose_rdata :: "'b composer_ops \<Rightarrow> octets \<Rightarrow> 'b target_step" where
  "aaaa_compose_rdata C d t = bo_append (co_builder C) t d"

definition aaaa_ops :: "(octets, 'b) rdata_ops" where
  "aaaa_ops = \<lparr>rd_rtype = (\<lambda>_. AAAA_RTYPE), rd_rdlen = (\<lambda>_ _. Ok (Some 16)), rd_compose = aaaa_compose_rdata,
     rd_compose_canonical = aaaa_compose_rdata\<rparr>"

definition aaaa_ok :: "octets \<Rightarrow> bool" where
  "aaaa_ok d \<longleftrightarrow> length d = 16"

context composer
begin

lemma a_data: "octets_data C good cut lim a_ops (\<lambda>_. True) ipv4_octets ipv4_octets"
  using puts_append [of "ipv4_octets _"] by unfold_locales (simp_all add: a_ops_def a_compose_rdata_def [abs_def])

lemma aaaa_data: "octets_data C good cut lim aaaa_ops aaaa_ok (\<lambda>d. d) (\<lambda>d. d)"
proof
  fix d :: octets assume d: "aaaa_ok d"
  show "puts C good cut lim (rd_compose aaaa_ops C d) d" "puts C good cut lim (rd_compose_canonical aaaa_ops C d) d"
    using puts_append [of d] by (simp_all add: aaaa_ops_def aaaa_compose_rdata_def [abs_def])
qed (simp_all add: aaaa_ops_def aaaa_ok_def)

end

context octseq_parser
begin

lemma a_parser: "rdata_parser P (a_parse_rdata P) (\<lambda>_. A_RTYPE) (\<lambda>_. True) (\<lambda>d. octets_meaning (ipv4_octets d)) (=)"
  unfolding a_parse_rdata_def
  by (rule rdata_parser_of [OF octseq_parser_axioms], rule reads_weaken [OF ipv4.reads_codec]) auto

lemma aaaa_parser: "rdata_parser P (aaaa_parse_rdata P) (\<lambda>_. AAAA_RTYPE) aaaa_ok octets_meaning (=)"
  unfolding aaaa_parse_rdata_def
  by (rule rdata_parser_of [OF octseq_parser_axioms], rule reads_weaken [OF ipv6.reads_codec]) (auto simp: aaaa_ok_def)

end

interpretation a_canonical: canonical_ord "\<lambda>_. True" ipv4_octets "\<lambda>a b. Ok (a_canonical_cmp a b)"
  by unfold_locales (simp add: a_canonical_cmp_def)

interpretation aaaa_canonical: canonical_ord aaaa_ok "\<lambda>d. d" "\<lambda>a b. Ok (aaaa_canonical_cmp a b)"
  by unfold_locales (simp add: aaaa_canonical_cmp_def)

section \<open>Types of a single name\<close>

text \<open>
  The macros \<open>name_type_well_known\<close> and \<open>name_type_canonical\<close>.  The data of such a type is a name, the types differ in their record type.  Names of
  well-known types may be compressed.
\<close>

definition NS_RTYPE :: u16 where "NS_RTYPE = 2"
definition MD_RTYPE :: u16 where "MD_RTYPE = 3"
definition MF_RTYPE :: u16 where "MF_RTYPE = 4"
definition CNAME_RTYPE :: u16 where "CNAME_RTYPE = 5"
definition MB_RTYPE :: u16 where "MB_RTYPE = 7"
definition MG_RTYPE :: u16 where "MG_RTYPE = 8"
definition MR_RTYPE :: u16 where "MR_RTYPE = 9"
definition PTR_RTYPE :: u16 where "PTR_RTYPE = 12"
definition DNAME_RTYPE :: u16 where "DNAME_RTYPE = 39"

definition name_type_parse_rdata :: "u16 \<Rightarrow> parser_ops \<Rightarrow> parsed_name rdata_parse" where
  "name_type_parse_rdata RTYPE P = parse_rdata_of RTYPE (parsed_name_parse P)"

definition name_type_eq :: "label_view \<Rightarrow> label_view \<Rightarrow> bool" where
  "name_type_eq a b = name_eq a b"

definition name_type_partial_cmp :: "label_view \<Rightarrow> label_view \<Rightarrow> ordering option" where
  "name_type_partial_cmp a b = Some (name_cmp a b)"

definition name_type_cmp :: "label_view \<Rightarrow> label_view \<Rightarrow> ordering" where
  "name_type_cmp a b = name_cmp a b"

definition name_type_canonical_cmp :: "label_view \<Rightarrow> label_view \<Rightarrow> (ordering, unit) result" where
  "name_type_canonical_cmp a b = lowercase_composed_cmp a b"

definition well_known_rdlen :: "label_view \<Rightarrow> bool \<Rightarrow> (u16 option, append_error) result" where
  "well_known_rdlen d compress = (if compress then Ok None else rmap Some (runwrap (lv_compose_len d)))"

definition well_known_compose_rdata :: "'b composer_ops \<Rightarrow> label_view \<Rightarrow> 'b target_step" where
  "well_known_compose_rdata C d = (if co_can_compress C then co_append_name C d else name_compose (co_builder C) d)"

definition name_type_compose_canonical_rdata :: "'b composer_ops \<Rightarrow> label_view \<Rightarrow> 'b target_step" where
  "name_type_compose_canonical_rdata C d = name_compose_canonical (co_builder C) d"

definition well_known_ops :: "u16 \<Rightarrow> (label_view, 'b) rdata_ops" where
  "well_known_ops RTYPE = \<lparr>rd_rtype = (\<lambda>_. RTYPE), rd_rdlen = well_known_rdlen, rd_compose = well_known_compose_rdata,
     rd_compose_canonical = name_type_compose_canonical_rdata\<rparr>"

definition canonical_rdlen :: "label_view \<Rightarrow> bool \<Rightarrow> (u16 option, append_error) result" where
  "canonical_rdlen d compress = rmap Some (runwrap (lv_compose_len d))"

definition canonical_compose_rdata :: "'b composer_ops \<Rightarrow> label_view \<Rightarrow> 'b target_step" where
  "canonical_compose_rdata C d = name_compose (co_builder C) d"

definition canonical_ops :: "u16 \<Rightarrow> (label_view, 'b) rdata_ops" where
  "canonical_ops RTYPE = \<lparr>rd_rtype = (\<lambda>_. RTYPE), rd_rdlen = canonical_rdlen, rd_compose = canonical_compose_rdata,
     rd_compose_canonical = name_type_compose_canonical_rdata\<rparr>"

context composer
begin

lemma well_known_data: "record_data C good cut lim (well_known_ops RTYPE) name_ok name_len name_meaning name_canon"
proof (rule compressible_data)
  fix d assume d: "name_ok d"
  note n = name_okD [OF d]
  show "writes C good cut lim (rd_compose (well_known_ops RTYPE) C d) (name_len d) (name_meaning d)"
    using writes_data_name [OF n(1,2)] by (simp add: well_known_ops_def well_known_compose_rdata_def)
  show "writes C good cut lim (rd_compose (well_known_ops RTYPE) C d) (name_len d) (sized (name_len d) (name_meaning d))"
    if "\<not> co_can_compress C" using that writes_sized_name [OF n(1,2)] by (simp add: well_known_ops_def well_known_compose_rdata_def)
  show "rd_rdlen (well_known_ops RTYPE) d c = Ok (if c then None else Some (of_nat (name_len d)))" for c
    by (simp add: well_known_ops_def well_known_rdlen_def n(4))
  show "puts C good cut lim (rd_compose_canonical (well_known_ops RTYPE) C d) (name_canon d)"
    using puts_name_canonical by (simp add: well_known_ops_def name_type_compose_canonical_rdata_def)
  show "name_len d \<le> 65535" using n(3) by simp
qed (rule canonical_wire_length)

lemma canonical_data: "octets_data C good cut lim (canonical_ops RTYPE) name_ok (\<lambda>d. wire (lv_labels d)) name_canon"
proof
  fix d assume d: "name_ok d"
  show "puts C good cut lim (rd_compose (canonical_ops RTYPE) C d) (wire (lv_labels d))"
    using puts_name_compose [OF name_okD(1) [OF d]] by (simp add: canonical_ops_def canonical_compose_rdata_def)
  show "puts C good cut lim (rd_compose_canonical (canonical_ops RTYPE) C d) (name_canon d)"
    using puts_name_canonical by (simp add: canonical_ops_def name_type_compose_canonical_rdata_def)
qed (simp_all add: canonical_ops_def canonical_rdlen_def name_okD canonical_wire_length order_trans [OF name_okD(3)])

end

context octseq_parser
begin

lemma well_known_parser: "rdata_parser P (name_type_parse_rdata RTYPE P) (\<lambda>_. RTYPE) name_ok name_meaning name_stands"
  unfolding name_type_parse_rdata_def
  by (rule rdata_parser_of [OF octseq_parser_axioms]) (rule reads_stands)

lemma reads_wire:
  assumes "name_ok d"
  shows "reads (parsed_name_parse P) (octets_meaning (wire (lv_labels d))) (name_stands d)"
  by (rule reads_meaning [OF reads_stands [OF assms]]) (rule octets_name_meaning [OF name_okD(1,2) [OF assms] _ refl])

lemma canonical_parser:
  "rdata_parser P (name_type_parse_rdata RTYPE P) (\<lambda>_. RTYPE) name_ok (\<lambda>d. octets_meaning (wire (lv_labels d))) name_stands"
  unfolding name_type_parse_rdata_def
  by (rule rdata_parser_of [OF octseq_parser_axioms]) (rule reads_wire)

end

interpretation name_type_canonical: canonical_ord name_ok name_canon name_type_canonical_cmp
  by unfold_locales (simp add: name_type_canonical_cmp_def lowercase_composed_cmp_canon)

interpretation name_type_ord: data_ord name_type_cmp name_key name_ok name_type_eq name_type_partial_cmp
proof (rule data_ord.intro)
  show "total_cmp name_type_cmp name_key" using name_cmp.total_cmp_axioms by (simp add: name_type_cmp_def [abs_def])
qed (unfold_locales, simp_all add: name_type_eq_def name_eq_key name_type_partial_cmp_def name_type_cmp_def)

section \<open>MX\<close>

record 'n mx =
  mx_preference :: u16
  mx_exchange :: 'n

definition MX_RTYPE :: u16 where "MX_RTYPE = 15"

definition mx_new :: "u16 \<Rightarrow> 'n \<Rightarrow> 'n mx" where
  "mx_new preference exchange = \<lparr>mx_preference = preference, mx_exchange = exchange\<rparr>"

definition mx_convert :: "('m \<Rightarrow> ('n, 'e) result) \<Rightarrow> 'm mx \<Rightarrow> ('n mx, 'e) result" where
  "mx_convert f d = rmap (mx_new (mx_preference d)) (f (mx_exchange d))"

definition mx_parse :: "parser_ops \<Rightarrow> parser \<Rightarrow> parsed_name mx parse_result" where
  "mx_parse P p = rbind (parse_u16 P p) (\<lambda>(preference, p). rbind (parsed_name_parse P p) (\<lambda>(exchange, p). Ok (mx_new preference exchange, p)))"

definition mx_parse_rdata :: "parser_ops \<Rightarrow> parsed_name mx rdata_parse" where
  "mx_parse_rdata P = parse_rdata_of MX_RTYPE (mx_parse P)"

definition mx_eq :: "label_view mx \<Rightarrow> label_view mx \<Rightarrow> bool" where
  "mx_eq a b \<longleftrightarrow> mx_preference a = mx_preference b \<and> name_eq (mx_exchange a) (mx_exchange b)"

definition mx_partial_cmp :: "label_view mx \<Rightarrow> label_view mx \<Rightarrow> ordering option" where
  "mx_partial_cmp a b =
     then_partial (Some (ord_cmp (mx_preference a) (mx_preference b))) (Some (name_cmp (mx_exchange a) (mx_exchange b)))"

definition mx_cmp :: "label_view mx \<Rightarrow> label_view mx \<Rightarrow> ordering" where
  "mx_cmp a b = then_cmp (ord_cmp (mx_preference a) (mx_preference b)) (name_cmp (mx_exchange a) (mx_exchange b))"

definition mx_canonical_cmp :: "label_view mx \<Rightarrow> label_view mx \<Rightarrow> (ordering, unit) result" where
  "mx_canonical_cmp a b =
     then_rcmp (Ok (ord_cmp (mx_preference a) (mx_preference b))) (lowercase_composed_cmp (mx_exchange a) (mx_exchange b))"

definition mx_rdlen :: "label_view mx \<Rightarrow> bool \<Rightarrow> (u16 option, append_error) result" where
  "mx_rdlen d compress = (if compress then Ok None else rmap Some (u16_add (Ok 2) (runwrap (lv_compose_len (mx_exchange d)))))"

definition mx_compose_rdata :: "'b composer_ops \<Rightarrow> label_view mx \<Rightarrow> 'b target_step" where
  "mx_compose_rdata C d =
     (if co_can_compress C then then_compose (compose_be (co_builder C) (mx_preference d)) (co_append_name C (mx_exchange d))
      else then_compose (compose_be (co_builder C) (mx_preference d)) (name_compose (co_builder C) (mx_exchange d)))"

definition mx_compose_canonical_rdata :: "'b composer_ops \<Rightarrow> label_view mx \<Rightarrow> 'b target_step" where
  "mx_compose_canonical_rdata C d =
     then_compose (compose_be (co_builder C) (mx_preference d)) (name_compose_canonical (co_builder C) (mx_exchange d))"

definition mx_ops :: "(label_view mx, 'b) rdata_ops" where
  "mx_ops = \<lparr>rd_rtype = (\<lambda>_. MX_RTYPE), rd_rdlen = mx_rdlen, rd_compose = mx_compose_rdata,
     rd_compose_canonical = mx_compose_canonical_rdata\<rparr>"

definition mx_ok :: "label_view mx \<Rightarrow> bool" where
  "mx_ok d \<longleftrightarrow> name_ok (mx_exchange d)"

definition mx_len :: "label_view mx \<Rightarrow> nat" where
  "mx_len d = 2 + name_len (mx_exchange d)"

definition mx_meaning :: "label_view mx \<Rightarrow> meaning" where
  "mx_meaning d = seq_meaning (octets_meaning (to_be_bytes (mx_preference d))) (name_meaning (mx_exchange d))"

definition mx_canon :: "label_view mx \<Rightarrow> octets" where
  "mx_canon d = to_be_bytes (mx_preference d) @ name_canon (mx_exchange d)"

definition mx_view :: "parsed_name mx \<Rightarrow> label_view mx" where
  "mx_view d = mx_new (mx_preference d) (pn_view (mx_exchange d))"

definition mx_stands :: "label_view mx \<Rightarrow> parsed_name mx \<Rightarrow> bool" where
  "mx_stands d e \<longleftrightarrow> mx_ok (mx_view e) \<and> mx_eq (mx_view e) d"

context composer
begin

lemma mx_data: "record_data C good cut lim mx_ops mx_ok mx_len mx_meaning mx_canon"
proof (rule compressible_data)
  fix d assume d: "mx_ok d"
  note n = name_okD [OF d [unfolded mx_ok_def]] and defs = mx_ops_def mx_compose_rdata_def mx_len_def mx_meaning_def
  show "writes C good cut lim (rd_compose mx_ops C d) (mx_len d) (mx_meaning d)"
    using writes_then [OF puts_be [of "mx_preference d"] writes_data_name [OF n(1,2)]] by (simp add: defs split: if_splits)
  show "writes C good cut lim (rd_compose mx_ops C d) (mx_len d) (sized (mx_len d) (mx_meaning d))" if "\<not> co_can_compress C"
    using that writes_sized_then [OF puts_sized [OF puts_be [of "mx_preference d"]] writes_sized_name [OF n(1,2)]] by (simp add: defs)
  show "rd_rdlen mx_ops d c = Ok (if c then None else Some (of_nat (mx_len d)))" for c
    using n(3) by (simp add: mx_ops_def mx_rdlen_def mx_len_def n(4) u16_add_num)
  show "puts C good cut lim (rd_compose_canonical mx_ops C d) (mx_canon d)"
    unfolding mx_ops_def mx_compose_canonical_rdata_def mx_canon_def by (simp only: rdata_ops.simps, intro puts_intros)
  show "mx_len d \<le> 65535" using n(3) by (simp add: mx_len_def)
qed (simp add: mx_canon_def mx_len_def canonical_wire_length)

end

context octseq_parser
begin

lemma mx_parser: "rdata_parser P (mx_parse_rdata P) (\<lambda>_. MX_RTYPE) mx_ok mx_meaning mx_stands"
  unfolding mx_parse_rdata_def mx_parse_def [abs_def] mx_meaning_def
  by (intro rdata_parser_of [OF octseq_parser_axioms] reads_bind [OF reads_be(1)] reads_map [OF reads_stands])
    (auto simp: mx_ok_def mx_stands_def mx_view_def mx_new_def mx_eq_def name_stands_def)

end

interpretation mx_canonical: canonical_ord mx_ok mx_canon mx_canonical_cmp
  by unfold_locales (simp add: mx_ok_def mx_canonical_cmp_def mx_canon_def lowercase_composed_cmp_canon list_cmp_be)

interpretation mx_ord: data_ord mx_cmp "\<lambda>d. (mx_preference d, name_key (mx_exchange d))" mx_ok mx_eq mx_partial_cmp
proof (rule data_ord.intro)
  show "total_cmp mx_cmp (\<lambda>d. (mx_preference d, name_key (mx_exchange d)))"
    unfolding mx_cmp_def [abs_def] by (intro total_then_cmp total_fields)
qed (unfold_locales, simp_all add: mx_eq_def mx_ok_def name_eq_key mx_partial_cmp_def mx_cmp_def)

section \<open>MINFO\<close>

record 'n minfo =
  rmailbx :: 'n
  emailbx :: 'n

definition MINFO_RTYPE :: u16 where "MINFO_RTYPE = 14"

definition minfo_new :: "'n \<Rightarrow> 'n \<Rightarrow> 'n minfo" where
  "minfo_new r e = \<lparr>rmailbx = r, emailbx = e\<rparr>"

definition minfo_convert :: "('m \<Rightarrow> ('n, 'e) result) \<Rightarrow> 'm minfo \<Rightarrow> ('n minfo, 'e) result" where
  "minfo_convert f d = rbind (f (rmailbx d)) (\<lambda>r. rbind (f (emailbx d)) (\<lambda>e. Ok (minfo_new r e)))"

definition minfo_parse :: "parser_ops \<Rightarrow> parser \<Rightarrow> parsed_name minfo parse_result" where
  "minfo_parse P p = rbind (parsed_name_parse P p) (\<lambda>(r, p). rbind (parsed_name_parse P p) (\<lambda>(e, p). Ok (minfo_new r e, p)))"

definition minfo_parse_rdata :: "parser_ops \<Rightarrow> parsed_name minfo rdata_parse" where
  "minfo_parse_rdata P = parse_rdata_of MINFO_RTYPE (minfo_parse P)"

definition minfo_eq :: "label_view minfo \<Rightarrow> label_view minfo \<Rightarrow> bool" where
  "minfo_eq a b \<longleftrightarrow> name_eq (rmailbx a) (rmailbx b) \<and> name_eq (emailbx a) (emailbx b)"

definition minfo_partial_cmp :: "label_view minfo \<Rightarrow> label_view minfo \<Rightarrow> ordering option" where
  "minfo_partial_cmp a b = then_partial (Some (name_cmp (rmailbx a) (rmailbx b))) (Some (name_cmp (emailbx a) (emailbx b)))"

definition minfo_cmp :: "label_view minfo \<Rightarrow> label_view minfo \<Rightarrow> ordering" where
  "minfo_cmp a b = then_cmp (name_cmp (rmailbx a) (rmailbx b)) (name_cmp (emailbx a) (emailbx b))"

definition minfo_canonical_cmp :: "label_view minfo \<Rightarrow> label_view minfo \<Rightarrow> (ordering, unit) result" where
  "minfo_canonical_cmp a b =
     then_rcmp (lowercase_composed_cmp (rmailbx a) (rmailbx b)) (lowercase_composed_cmp (emailbx a) (emailbx b))"

definition minfo_rdlen :: "label_view minfo \<Rightarrow> bool \<Rightarrow> (u16 option, append_error) result" where
  "minfo_rdlen d compress = (if compress then Ok None
     else rmap Some (u16_add (runwrap (lv_compose_len (rmailbx d))) (runwrap (lv_compose_len (emailbx d)))))"

definition minfo_compose_rdata :: "'b composer_ops \<Rightarrow> label_view minfo \<Rightarrow> 'b target_step" where
  "minfo_compose_rdata C d =
     (if co_can_compress C then then_compose (co_append_name C (rmailbx d)) (co_append_name C (emailbx d))
      else then_compose (name_compose (co_builder C) (rmailbx d)) (name_compose (co_builder C) (emailbx d)))"

definition minfo_compose_canonical_rdata :: "'b composer_ops \<Rightarrow> label_view minfo \<Rightarrow> 'b target_step" where
  "minfo_compose_canonical_rdata C d =
     then_compose (name_compose_canonical (co_builder C) (rmailbx d)) (name_compose_canonical (co_builder C) (emailbx d))"

definition minfo_ops :: "(label_view minfo, 'b) rdata_ops" where
  "minfo_ops = \<lparr>rd_rtype = (\<lambda>_. MINFO_RTYPE), rd_rdlen = minfo_rdlen, rd_compose = minfo_compose_rdata,
     rd_compose_canonical = minfo_compose_canonical_rdata\<rparr>"

definition minfo_ok :: "label_view minfo \<Rightarrow> bool" where
  "minfo_ok d \<longleftrightarrow> name_ok (rmailbx d) \<and> name_ok (emailbx d)"

definition minfo_len :: "label_view minfo \<Rightarrow> nat" where
  "minfo_len d = name_len (rmailbx d) + name_len (emailbx d)"

definition minfo_meaning :: "label_view minfo \<Rightarrow> meaning" where
  "minfo_meaning d = seq_meaning (name_meaning (rmailbx d)) (name_meaning (emailbx d))"

definition minfo_canon :: "label_view minfo \<Rightarrow> octets" where
  "minfo_canon d = name_canon (rmailbx d) @ name_canon (emailbx d)"

definition minfo_view :: "parsed_name minfo \<Rightarrow> label_view minfo" where
  "minfo_view d = minfo_new (pn_view (rmailbx d)) (pn_view (emailbx d))"

definition minfo_stands :: "label_view minfo \<Rightarrow> parsed_name minfo \<Rightarrow> bool" where
  "minfo_stands d e \<longleftrightarrow> minfo_ok (minfo_view e) \<and> minfo_eq (minfo_view e) d"

context composer
begin

lemma minfo_data: "record_data C good cut lim minfo_ops minfo_ok minfo_len minfo_meaning minfo_canon"
proof (rule compressible_data)
  fix d assume d: "minfo_ok d"
  note r = name_okD [OF conjunct1 [OF d [unfolded minfo_ok_def]]] and e = name_okD [OF conjunct2 [OF d [unfolded minfo_ok_def]]]
    and defs = minfo_ops_def minfo_compose_rdata_def minfo_len_def minfo_meaning_def
  show "writes C good cut lim (rd_compose minfo_ops C d) (minfo_len d) (minfo_meaning d)"
    using writes_then [OF writes_data_name [OF r(1,2)] writes_data_name [OF e(1,2)]] by (simp add: defs split: if_splits)
  show "writes C good cut lim (rd_compose minfo_ops C d) (minfo_len d) (sized (minfo_len d) (minfo_meaning d))" if "\<not> co_can_compress C"
    using that writes_sized_then [OF writes_sized_name [OF r(1,2)] writes_sized_name [OF e(1,2)]] by (simp add: defs)
  show "rd_rdlen minfo_ops d c = Ok (if c then None else Some (of_nat (minfo_len d)))" for c
    using r(3) e(3) by (simp add: minfo_ops_def minfo_rdlen_def minfo_len_def r(4) e(4) u16_add_Ok)
  show "puts C good cut lim (rd_compose_canonical minfo_ops C d) (minfo_canon d)"
    unfolding minfo_ops_def minfo_compose_canonical_rdata_def minfo_canon_def by (simp only: rdata_ops.simps, intro puts_intros)
  show "minfo_len d \<le> 65535" using r(3) e(3) by (simp add: minfo_len_def)
qed (simp add: minfo_canon_def minfo_len_def canonical_wire_length)

end

context octseq_parser
begin

lemma minfo_parser: "rdata_parser P (minfo_parse_rdata P) (\<lambda>_. MINFO_RTYPE) minfo_ok minfo_meaning minfo_stands"
  unfolding minfo_parse_rdata_def minfo_parse_def [abs_def] minfo_meaning_def
  by (intro rdata_parser_of [OF octseq_parser_axioms] reads_bind [OF reads_stands] reads_map [OF reads_stands])
    (auto simp: minfo_ok_def minfo_stands_def minfo_view_def minfo_new_def minfo_eq_def name_stands_def)

end

interpretation minfo_canonical: canonical_ord minfo_ok minfo_canon minfo_canonical_cmp
  by unfold_locales (simp add: minfo_ok_def minfo_canonical_cmp_def minfo_canon_def lowercase_composed_cmp_canon list_cmp_name)

interpretation minfo_ord: data_ord minfo_cmp "\<lambda>d. (name_key (rmailbx d), name_key (emailbx d))" minfo_ok minfo_eq minfo_partial_cmp
proof (rule data_ord.intro)
  show "total_cmp minfo_cmp (\<lambda>d. (name_key (rmailbx d), name_key (emailbx d)))"
    unfolding minfo_cmp_def [abs_def] by (intro total_then_cmp total_fields)
qed (unfold_locales, simp_all add: minfo_eq_def minfo_ok_def name_eq_key minfo_partial_cmp_def minfo_cmp_def)

section \<open>SRV\<close>

record 'n srv =
  srv_priority :: u16
  srv_weight :: u16
  srv_port :: u16
  srv_target :: 'n

definition SRV_RTYPE :: u16 where "SRV_RTYPE = 33"

definition srv_new :: "u16 \<Rightarrow> u16 \<Rightarrow> u16 \<Rightarrow> 'n \<Rightarrow> 'n srv" where
  "srv_new pr w po t = \<lparr>srv_priority = pr, srv_weight = w, srv_port = po, srv_target = t\<rparr>"

definition srv_convert :: "('m \<Rightarrow> ('n, 'e) result) \<Rightarrow> 'm srv \<Rightarrow> ('n srv, 'e) result" where
  "srv_convert f d = rmap (srv_new (srv_priority d) (srv_weight d) (srv_port d)) (f (srv_target d))"

definition srv_parse :: "parser_ops \<Rightarrow> parser \<Rightarrow> parsed_name srv parse_result" where
  "srv_parse P p = rbind (parse_u16 P p) (\<lambda>(pr, p). rbind (parse_u16 P p) (\<lambda>(w, p). rbind (parse_u16 P p) (\<lambda>(po, p).
     rbind (parsed_name_parse P p) (\<lambda>(t, p). Ok (srv_new pr w po t, p)))))"

definition srv_parse_rdata :: "parser_ops \<Rightarrow> parsed_name srv rdata_parse" where
  "srv_parse_rdata P = parse_rdata_of SRV_RTYPE (srv_parse P)"

definition srv_eq :: "label_view srv \<Rightarrow> label_view srv \<Rightarrow> bool" where
  "srv_eq a b \<longleftrightarrow> srv_priority a = srv_priority b \<and> srv_weight a = srv_weight b \<and> srv_port a = srv_port b \<and>
     name_eq (srv_target a) (srv_target b)"

definition srv_partial_cmp :: "label_view srv \<Rightarrow> label_view srv \<Rightarrow> ordering option" where
  "srv_partial_cmp a b =
     then_partial (Some (ord_cmp (srv_priority a) (srv_priority b))) (
     then_partial (Some (ord_cmp (srv_weight a) (srv_weight b))) (
     then_partial (Some (ord_cmp (srv_port a) (srv_port b))) (Some (name_cmp (srv_target a) (srv_target b)))))"

definition srv_cmp :: "label_view srv \<Rightarrow> label_view srv \<Rightarrow> ordering" where
  "srv_cmp a b =
     then_cmp (ord_cmp (srv_priority a) (srv_priority b)) (then_cmp (ord_cmp (srv_weight a) (srv_weight b)) (
     then_cmp (ord_cmp (srv_port a) (srv_port b)) (name_cmp (srv_target a) (srv_target b))))"

definition srv_canonical_cmp :: "label_view srv \<Rightarrow> label_view srv \<Rightarrow> (ordering, unit) result" where
  "srv_canonical_cmp a b =
     then_rcmp (Ok (ord_cmp (srv_priority a) (srv_priority b))) (then_rcmp (Ok (ord_cmp (srv_weight a) (srv_weight b))) (
     then_rcmp (Ok (ord_cmp (srv_port a) (srv_port b))) (lowercase_composed_cmp (srv_target a) (srv_target b))))"

definition srv_rdlen :: "label_view srv \<Rightarrow> bool \<Rightarrow> (u16 option, append_error) result" where
  "srv_rdlen d compress = rmap Some (u16_add (runwrap (lv_compose_len (srv_target d))) (Ok 6))"

definition srv_compose_head :: "'b composer_ops \<Rightarrow> label_view srv \<Rightarrow> 'b target_step" where
  "srv_compose_head C d = then_compose (compose_be (co_builder C) (srv_priority d))
     (then_compose (compose_be (co_builder C) (srv_weight d)) (compose_be (co_builder C) (srv_port d)))"

definition srv_compose_rdata :: "'b composer_ops \<Rightarrow> label_view srv \<Rightarrow> 'b target_step" where
  "srv_compose_rdata C d = then_compose (srv_compose_head C d) (name_compose (co_builder C) (srv_target d))"

definition srv_compose_canonical_rdata :: "'b composer_ops \<Rightarrow> label_view srv \<Rightarrow> 'b target_step" where
  "srv_compose_canonical_rdata C d = then_compose (srv_compose_head C d) (name_compose_canonical (co_builder C) (srv_target d))"

definition srv_ops :: "(label_view srv, 'b) rdata_ops" where
  "srv_ops = \<lparr>rd_rtype = (\<lambda>_. SRV_RTYPE), rd_rdlen = srv_rdlen, rd_compose = srv_compose_rdata,
     rd_compose_canonical = srv_compose_canonical_rdata\<rparr>"

definition srv_ok :: "label_view srv \<Rightarrow> bool" where
  "srv_ok d \<longleftrightarrow> name_ok (srv_target d)"

definition srv_head :: "'n srv \<Rightarrow> octets" where
  "srv_head d = to_be_bytes (srv_priority d) @ to_be_bytes (srv_weight d) @ to_be_bytes (srv_port d)"

definition srv_enc :: "label_view srv \<Rightarrow> octets" where
  "srv_enc d = srv_head d @ wire (lv_labels (srv_target d))"

definition srv_canon :: "label_view srv \<Rightarrow> octets" where
  "srv_canon d = srv_head d @ name_canon (srv_target d)"

definition srv_view :: "parsed_name srv \<Rightarrow> label_view srv" where
  "srv_view d = srv_new (srv_priority d) (srv_weight d) (srv_port d) (pn_view (srv_target d))"

definition srv_stands :: "label_view srv \<Rightarrow> parsed_name srv \<Rightarrow> bool" where
  "srv_stands d e \<longleftrightarrow> srv_ok (srv_view e) \<and> srv_eq (srv_view e) d"

context composer
begin

lemma puts_srv_head: "puts C good cut lim (srv_compose_head C d) (srv_head d)"
  unfolding srv_compose_head_def srv_head_def by (intro puts_intros)

lemma srv_data: "octets_data C good cut lim srv_ops srv_ok srv_enc srv_canon"
proof
  fix d assume d: "srv_ok d"
  note n = name_okD [OF d [unfolded srv_ok_def]]
  show "puts C good cut lim (rd_compose srv_ops C d) (srv_enc d)" "puts C good cut lim (rd_compose_canonical srv_ops C d) (srv_canon d)"
    unfolding srv_ops_def srv_compose_rdata_def srv_enc_def srv_compose_canonical_rdata_def srv_canon_def
    by (simp_all only: rdata_ops.simps, intro puts_then puts_srv_head puts_name_compose [OF n(1)], intro puts_then puts_srv_head puts_name_canonical)
  show "rd_rdlen srv_ops d c = Ok (Some (of_nat (length (srv_enc d))))" for c
    using n(3) by (simp add: srv_ops_def srv_rdlen_def srv_enc_def srv_head_def n(4) u16_add_num)
  show "length (srv_enc d) \<le> 65535" using n(3) by (simp add: srv_enc_def srv_head_def)
qed (simp add: srv_enc_def srv_canon_def canonical_wire_length)

end

context octseq_parser
begin

lemma srv_parser: "rdata_parser P (srv_parse_rdata P) (\<lambda>_. SRV_RTYPE) srv_ok (\<lambda>d. octets_meaning (srv_enc d)) srv_stands"
  unfolding srv_parse_rdata_def srv_parse_def [abs_def] srv_enc_def srv_head_def append_assoc
  by (intro rdata_parser_of [OF octseq_parser_axioms] reads_octets [OF reads_bind [OF reads_be(1)]] reads_map [OF reads_wire])
    (auto simp: srv_ok_def srv_stands_def srv_view_def srv_new_def srv_eq_def name_stands_def)

end

interpretation srv_canonical: canonical_ord srv_ok srv_canon srv_canonical_cmp
  by unfold_locales (simp add: srv_ok_def srv_canonical_cmp_def srv_canon_def srv_head_def lowercase_composed_cmp_canon list_cmp_be)

interpretation srv_ord: data_ord srv_cmp "\<lambda>d. (srv_priority d, srv_weight d, srv_port d, name_key (srv_target d))" srv_ok srv_eq srv_partial_cmp
proof (rule data_ord.intro)
  show "total_cmp srv_cmp (\<lambda>d. (srv_priority d, srv_weight d, srv_port d, name_key (srv_target d)))"
    unfolding srv_cmp_def [abs_def] by (intro total_then_cmp total_fields)
qed (unfold_locales, simp_all add: srv_eq_def srv_ok_def name_eq_key srv_partial_cmp_def srv_cmp_def)

section \<open>SOA\<close>

record 'n soa =
  soa_mname :: 'n
  soa_rname :: 'n
  soa_serial :: serial
  soa_refresh :: ttl
  soa_retry :: ttl
  soa_expire :: ttl
  soa_minimum :: ttl

definition SOA_RTYPE :: u16 where "SOA_RTYPE = 6"

definition soa_new :: "'n \<Rightarrow> 'n \<Rightarrow> serial \<Rightarrow> ttl \<Rightarrow> ttl \<Rightarrow> ttl \<Rightarrow> ttl \<Rightarrow> 'n soa" where
  "soa_new mname rname serial refresh retry expire minimum =
     \<lparr>soa_mname = mname, soa_rname = rname, soa_serial = serial, soa_refresh = refresh, soa_retry = retry, soa_expire = expire,
      soa_minimum = minimum\<rparr>"

definition soa_convert :: "('m \<Rightarrow> ('n, 'e) result) \<Rightarrow> 'm soa \<Rightarrow> ('n soa, 'e) result" where
  "soa_convert f d =
     rbind (f (soa_mname d)) (\<lambda>mname. rbind (f (soa_rname d)) (\<lambda>rname.
       Ok (soa_new mname rname (soa_serial d) (soa_refresh d) (soa_retry d) (soa_expire d) (soa_minimum d))))"

definition soa_parse :: "parser_ops \<Rightarrow> parser \<Rightarrow> parsed_name soa parse_result" where
  "soa_parse P p =
     rbind (parsed_name_parse P p) (\<lambda>(mname, p). rbind (parsed_name_parse P p) (\<lambda>(rname, p).
     rbind (serial_parse P p) (\<lambda>(serial, p). rbind (ttl_parse P p) (\<lambda>(refresh, p). rbind (ttl_parse P p) (\<lambda>(retry, p).
     rbind (ttl_parse P p) (\<lambda>(expire, p). rbind (ttl_parse P p) (\<lambda>(minimum, p).
       Ok (soa_new mname rname serial refresh retry expire minimum, p))))))))"

definition soa_parse_rdata :: "parser_ops \<Rightarrow> parsed_name soa rdata_parse" where
  "soa_parse_rdata P = parse_rdata_of SOA_RTYPE (soa_parse P)"

definition soa_eq :: "label_view soa \<Rightarrow> label_view soa \<Rightarrow> bool" where
  "soa_eq a b \<longleftrightarrow> name_eq (soa_mname a) (soa_mname b) \<and> name_eq (soa_rname a) (soa_rname b) \<and> soa_serial a = soa_serial b \<and>
     soa_refresh a = soa_refresh b \<and> soa_retry a = soa_retry b \<and> soa_expire a = soa_expire b \<and> soa_minimum a = soa_minimum b"

definition soa_partial_cmp :: "label_view soa \<Rightarrow> label_view soa \<Rightarrow> ordering option" where
  "soa_partial_cmp a b =
     then_partial (Some (name_cmp (soa_mname a) (soa_mname b))) (then_partial (Some (name_cmp (soa_rname a) (soa_rname b))) (
     then_partial (Some (ord_cmp (into_int (soa_serial a)) (into_int (soa_serial b)))) (
     then_partial (Some (ord_cmp (soa_refresh a) (soa_refresh b))) (then_partial (Some (ord_cmp (soa_retry a) (soa_retry b))) (
     then_partial (Some (ord_cmp (soa_expire a) (soa_expire b))) (Some (ord_cmp (soa_minimum a) (soa_minimum b))))))))"

definition soa_cmp :: "label_view soa \<Rightarrow> label_view soa \<Rightarrow> ordering" where
  "soa_cmp a b =
     then_cmp (name_cmp (soa_mname a) (soa_mname b)) (then_cmp (name_cmp (soa_rname a) (soa_rname b)) (
     then_cmp (ord_cmp (into_int (soa_serial a)) (into_int (soa_serial b))) (
     then_cmp (ord_cmp (soa_refresh a) (soa_refresh b)) (then_cmp (ord_cmp (soa_retry a) (soa_retry b)) (
     then_cmp (ord_cmp (soa_expire a) (soa_expire b)) (ord_cmp (soa_minimum a) (soa_minimum b)))))))"

definition soa_canonical_cmp :: "label_view soa \<Rightarrow> label_view soa \<Rightarrow> (ordering, unit) result" where
  "soa_canonical_cmp a b =
     then_rcmp (lowercase_composed_cmp (soa_mname a) (soa_mname b)) (then_rcmp (lowercase_composed_cmp (soa_rname a) (soa_rname b)) (
     then_rcmp (Ok (serial_canonical_cmp (soa_serial a) (soa_serial b))) (
     then_rcmp (Ok (ord_cmp (soa_refresh a) (soa_refresh b))) (then_rcmp (Ok (ord_cmp (soa_retry a) (soa_retry b))) (
     then_rcmp (Ok (ord_cmp (soa_expire a) (soa_expire b))) (Ok (ord_cmp (soa_minimum a) (soa_minimum b))))))))"

definition soa_rdlen :: "label_view soa \<Rightarrow> bool \<Rightarrow> (u16 option, append_error) result" where
  "soa_rdlen d compress = (if compress then Ok None
     else rmap Some (u16_add (u16_add (u16_add (runwrap (lv_compose_len (soa_mname d))) (runwrap (lv_compose_len (soa_rname d)))) (Ok 4))
       (Ok (4 * 4))))"

definition soa_compose_fixed :: "'b composer_ops \<Rightarrow> label_view soa \<Rightarrow> 'b target_step" where
  "soa_compose_fixed C d =
     then_compose (serial_compose (co_builder C) (soa_serial d)) (then_compose (ttl_compose (co_builder C) (soa_refresh d)) (
     then_compose (ttl_compose (co_builder C) (soa_retry d)) (then_compose (ttl_compose (co_builder C) (soa_expire d))
       (ttl_compose (co_builder C) (soa_minimum d)))))"

definition soa_compose_rdata :: "'b composer_ops \<Rightarrow> label_view soa \<Rightarrow> 'b target_step" where
  "soa_compose_rdata C d =
     then_compose
       (if co_can_compress C then then_compose (co_append_name C (soa_mname d)) (co_append_name C (soa_rname d))
        else then_compose (name_compose (co_builder C) (soa_mname d)) (name_compose (co_builder C) (soa_rname d)))
       (soa_compose_fixed C d)"

definition soa_compose_canonical_rdata :: "'b composer_ops \<Rightarrow> label_view soa \<Rightarrow> 'b target_step" where
  "soa_compose_canonical_rdata C d =
     then_compose (name_compose_canonical (co_builder C) (soa_mname d))
       (then_compose (name_compose_canonical (co_builder C) (soa_rname d)) (soa_compose_fixed C d))"

definition soa_ops :: "(label_view soa, 'b) rdata_ops" where
  "soa_ops = \<lparr>rd_rtype = (\<lambda>_. SOA_RTYPE), rd_rdlen = soa_rdlen, rd_compose = soa_compose_rdata,
     rd_compose_canonical = soa_compose_canonical_rdata\<rparr>"

definition soa_ok :: "label_view soa \<Rightarrow> bool" where
  "soa_ok d \<longleftrightarrow> name_ok (soa_mname d) \<and> name_ok (soa_rname d)"

definition soa_len :: "label_view soa \<Rightarrow> nat" where
  "soa_len d = name_len (soa_mname d) + name_len (soa_rname d) + 20"

definition soa_fixed :: "'n soa \<Rightarrow> octets" where
  "soa_fixed d = to_be_bytes (serial_int (soa_serial d)) @ to_be_bytes (soa_refresh d) @ to_be_bytes (soa_retry d) @ to_be_bytes (soa_expire d) @
     to_be_bytes (soa_minimum d)"

definition soa_meaning :: "label_view soa \<Rightarrow> meaning" where
  "soa_meaning d = seq_meaning (seq_meaning (name_meaning (soa_mname d)) (name_meaning (soa_rname d))) (octets_meaning (soa_fixed d))"

definition soa_canon :: "label_view soa \<Rightarrow> octets" where
  "soa_canon d = name_canon (soa_mname d) @ name_canon (soa_rname d) @ soa_fixed d"

definition soa_view :: "parsed_name soa \<Rightarrow> label_view soa" where
  "soa_view d = soa_new (pn_view (soa_mname d)) (pn_view (soa_rname d)) (soa_serial d) (soa_refresh d) (soa_retry d) (soa_expire d)
     (soa_minimum d)"

definition soa_stands :: "label_view soa \<Rightarrow> parsed_name soa \<Rightarrow> bool" where
  "soa_stands d e \<longleftrightarrow> soa_ok (soa_view e) \<and> soa_eq (soa_view e) d"

context composer
begin

lemma puts_soa_fixed: "puts C good cut lim (soa_compose_fixed C d) (soa_fixed d)"
  unfolding soa_compose_fixed_def soa_fixed_def serial_compose_be ttl_compose_be by (intro puts_intros)

lemma soa_data: "record_data C good cut lim soa_ops soa_ok soa_len soa_meaning soa_canon"
proof (rule compressible_data)
  fix d assume d: "soa_ok d"
  note r = name_okD [OF conjunct1 [OF d [unfolded soa_ok_def]]] and e = name_okD [OF conjunct2 [OF d [unfolded soa_ok_def]]]
    and defs = soa_ops_def soa_compose_rdata_def soa_len_def soa_meaning_def
  have len: "length (soa_fixed d) = 20" by (simp add: soa_fixed_def)
  show "writes C good cut lim (rd_compose soa_ops C d) (soa_len d) (soa_meaning d)"
    using writes_then [OF writes_then [OF writes_data_name [OF r(1,2)] writes_data_name [OF e(1,2)]] puts_soa_fixed [of d]]
    by (simp add: defs len split: if_splits)
  show "writes C good cut lim (rd_compose soa_ops C d) (soa_len d) (sized (soa_len d) (soa_meaning d))" if "\<not> co_can_compress C"
    using that writes_sized_then [OF writes_sized_then [OF writes_sized_name [OF r(1,2)] writes_sized_name [OF e(1,2)]]
        puts_sized [OF puts_soa_fixed [of d]]] by (simp add: defs len)
  show "rd_rdlen soa_ops d c = Ok (if c then None else Some (of_nat (soa_len d)))" for c
  proof -
    have "u16_add (u16_add (Ok (of_nat n)) (Ok 4)) (Ok (4 * 4)) = (Ok (of_nat (n + 20)) :: (u16, append_error) result)" if "n \<le> 510" for n
      using that by (simp add: u16_add_def unat_word_ariths unat_of_nat)
    from this [of "name_len (soa_mname d) + name_len (soa_rname d)"] r(3) e(3) show ?thesis
      unfolding soa_ops_def soa_rdlen_def soa_len_def rdata_ops.simps r(4) e(4) by (simp only: u16_add_Ok) simp
  qed
  show "puts C good cut lim (rd_compose_canonical soa_ops C d) (soa_canon d)"
    unfolding soa_ops_def soa_compose_canonical_rdata_def soa_canon_def by (simp only: rdata_ops.simps, intro puts_then puts_name_canonical puts_soa_fixed)
  show "soa_len d \<le> 65535" using r(3) e(3) by (simp add: soa_len_def)
  show "length (soa_canon d) = soa_len d" by (simp add: soa_canon_def soa_len_def canonical_wire_length len)
qed

end

context octseq_parser
begin

lemma soa_parser: "rdata_parser P (soa_parse_rdata P) (\<lambda>_. SOA_RTYPE) soa_ok soa_meaning soa_stands"
  unfolding soa_parse_rdata_def soa_parse_def [abs_def] soa_meaning_def soa_fixed_def append_assoc
  by (intro rdata_parser_of [OF octseq_parser_axioms] reads_assoc [OF reads_bind [OF reads_stands]] reads_bind [OF reads_stands]
      reads_octets [OF reads_bind [OF reads_serial]] reads_octets [OF reads_bind [OF reads_ttl]] reads_map [OF reads_ttl])
    (auto simp: soa_ok_def soa_stands_def soa_view_def soa_new_def soa_eq_def name_stands_def)

end

interpretation soa_canonical: canonical_ord soa_ok soa_canon soa_canonical_cmp
  by unfold_locales (simp add: soa_ok_def soa_canonical_cmp_def soa_canon_def soa_fixed_def lowercase_composed_cmp_canon list_cmp_name
      list_cmp_be list_cmp_be_last serial_canonical_cmp_def)

interpretation soa_ord: data_ord soa_cmp
    "\<lambda>d. (name_key (soa_mname d), name_key (soa_rname d), into_int (soa_serial d), soa_refresh d, soa_retry d, soa_expire d, soa_minimum d)"
    soa_ok soa_eq soa_partial_cmp
proof (rule data_ord.intro)
  show "total_cmp soa_cmp (\<lambda>d. (name_key (soa_mname d), name_key (soa_rname d), into_int (soa_serial d), soa_refresh d, soa_retry d,
      soa_expire d, soa_minimum d))"
    unfolding soa_cmp_def [abs_def] by (intro total_then_cmp total_fields)
qed (unfold_locales, simp_all add: soa_eq_def soa_ok_def name_eq_key soa_partial_cmp_def soa_cmp_def into_int_def split: serial.splits)

section \<open>NULL\<close>

definition NULL_RTYPE :: u16 where "NULL_RTYPE = 10"

definition null_from_octets :: "octets \<Rightarrow> (octets, long_record_data) result" where
  "null_from_octets data = rbind (check_rdata_len (length data)) (\<lambda>_. Ok data)"

definition null_parse :: "parser_ops \<Rightarrow> parser \<Rightarrow> octets parse_result" where
  "null_parse P p = rmap_err parse_error_from_short (ps_parse_octets P p (p_remaining p))"

definition null_parse_rdata :: "parser_ops \<Rightarrow> octets rdata_parse" where
  "null_parse_rdata P = parse_rdata_of NULL_RTYPE (null_parse P)"

definition null_canonical_cmp :: "octets \<Rightarrow> octets \<Rightarrow> ordering" where
  "null_canonical_cmp a b = list_cmp ord_cmp a b"

definition null_rdlen :: "octets \<Rightarrow> bool \<Rightarrow> (u16 option, append_error) result" where
  "null_rdlen d compress = (if length d > 65535 then Panic else Ok (Some (of_nat (length d))))"

definition null_compose_rdata :: "'b composer_ops \<Rightarrow> octets \<Rightarrow> 'b target_step" where
  "null_compose_rdata C d t = bo_append (co_builder C) t d"

definition null_ops :: "(octets, 'b) rdata_ops" where
  "null_ops = \<lparr>rd_rtype = (\<lambda>_. NULL_RTYPE), rd_rdlen = null_rdlen, rd_compose = null_compose_rdata,
     rd_compose_canonical = null_compose_rdata\<rparr>"

definition null_ok :: "octets \<Rightarrow> bool" where
  "null_ok d \<longleftrightarrow> length d \<le> 65535"

lemma null_from_octets_ok: "null_from_octets data = Ok d \<longleftrightarrow> d = data \<and> null_ok data"
  by (auto simp: null_from_octets_def check_rdata_len_def null_ok_def)

context composer
begin

lemma null_data: "octets_data C good cut lim null_ops null_ok (\<lambda>d. d) (\<lambda>d. d)"
proof
  fix d :: octets assume d: "null_ok d"
  show "puts C good cut lim (rd_compose null_ops C d) d" "puts C good cut lim (rd_compose_canonical null_ops C d) d"
    using puts_append [of d] by (simp_all add: null_ops_def null_compose_rdata_def [abs_def])
qed (simp_all add: null_ops_def null_ok_def null_rdlen_def)

end

context octseq_parser
begin

lemma null_parser: "rdata_parser P (null_parse_rdata P) (\<lambda>_. NULL_RTYPE) null_ok octets_meaning (=)"
proof (rule rdata_parser.intro [OF octseq_parser_axioms], unfold_locales)
  fix d :: octets and p
  assume "parser_wf p" "written (p_octets p) (p_pos p) (p_len p) (octets_meaning d)"
  then have "take (p_remaining p) (p_rest p) = d" "p_forward p (p_remaining p) = p\<lparr>p_pos := p_len p\<rparr>"
    by (auto simp: written_octets p_remaining_def p_rest_def p_forward_def parser_wf_def drop_take)
  then show "\<exists>e. null_parse_rdata P NULL_RTYPE p = Ok (Some e, p\<lparr>p_pos := p_len p\<rparr>) \<and> d = e"
    by (simp add: null_parse_rdata_def parse_rdata_of_def null_parse_def ps_parse_octets)
qed

end

interpretation null_canonical: canonical_ord null_ok "\<lambda>d. d" "\<lambda>a b. Ok (null_canonical_cmp a b)"
  by unfold_locales (simp add: null_canonical_cmp_def)

end
