(* ===== verification/CharStr.thy ===== *)
theory CharStr
  imports RfcData
begin

text \<open>
  \<^verbatim>\<open>src/base/charstr.rs\<close>: character strings of up to 255 octets, and the record data made of them, \<^verbatim>\<open>src/rdata/rfc1035/hinfo.rs\<close> and
  \<^verbatim>\<open>src/rdata/rfc1035/txt.rs\<close>.  A character string is its content, the octets without the length.
\<close>

section \<open>Character strings\<close>

definition CHARSTR_MAX_LEN :: nat where "CHARSTR_MAX_LEN = 255"

datatype charstr_error = CharStrError

definition charstr_check_slice :: "octets \<Rightarrow> (unit, charstr_error) result" where
  "charstr_check_slice s = (if length s > CHARSTR_MAX_LEN then Err CharStrError else Ok ())"

definition charstr_from_octets :: "octets \<Rightarrow> (octets, charstr_error) result" where
  "charstr_from_octets octs = rbind (charstr_check_slice octs) (\<lambda>_. Ok octs)"

definition charstr_parse :: "parser_ops \<Rightarrow> parser \<Rightarrow> octets parse_result" where
  "charstr_parse P p =
     rbind (rmap_err parse_error_from_short (ps_parse_u8 P p)) (\<lambda>(len, p).
       rmap_err parse_error_from_short (ps_parse_octets P p (unat len)))"

definition charstr_skip :: "parser_ops \<Rightarrow> parser \<Rightarrow> (parser, parse_error) result" where
  "charstr_skip P p =
     rbind (rmap_err parse_error_from_short (ps_parse_u8 P p)) (\<lambda>(len, p).
       rmap_err parse_error_from_short (ps_advance P p (unat len)))"

definition charstr_compose_len :: "octets \<Rightarrow> (u16, 'e) result" where
  "charstr_compose_len s = (if length s + 1 > 65535 then Panic else Ok (of_nat (length s + 1)))"

definition charstr_compose :: "'b builder_ops \<Rightarrow> octets \<Rightarrow> 'b target_step" where
  "charstr_compose B s t =
     (if length s > 255 then (Panic, t)
      else then_compose (compose_u8 B (of_nat (length s))) (\<lambda>t. bo_append B t s) t)"

definition charstr_eq :: "octets \<Rightarrow> octets \<Rightarrow> bool" where
  "charstr_eq a b = eq_ignore_ascii_case a b"

definition charstr_partial_cmp :: "octets \<Rightarrow> octets \<Rightarrow> ordering option" where
  "charstr_partial_cmp a b = Some (list_cmp ord_cmp (map to_ascii_lowercase a) (map to_ascii_lowercase b))"

definition charstr_cmp :: "octets \<Rightarrow> octets \<Rightarrow> ordering" where
  "charstr_cmp a b = list_cmp ord_cmp (map to_ascii_lowercase a) (map to_ascii_lowercase b)"

definition charstr_canonical_cmp :: "octets \<Rightarrow> octets \<Rightarrow> ordering" where
  "charstr_canonical_cmp a b = then_cmp (ord_cmp (length a) (length b)) (list_cmp ord_cmp a b)"

text \<open>\<open>Display\<close>, \<open>DisplayQuoted\<close> and \<open>DisplayUnquoted\<close>.\<close>

definition charstr_display :: "octets \<Rightarrow> uchar list" where
  "charstr_display s = concat (map (\<lambda>ch. symbol_display (symbol_display_from_octet ch)) s)"

definition charstr_display_quoted :: "octets \<Rightarrow> uchar list" where
  "charstr_display_quoted s = [34] @ concat (map (\<lambda>ch. symbol_display (symbol_quoted_from_octet ch)) s) @ [34]"

definition charstr_display_unquoted :: "octets \<Rightarrow> uchar list" where
  "charstr_display_unquoted s = concat (map (\<lambda>ch. symbol_display (symbol_from_octet ch)) s)"

section \<open>The builder of character strings\<close>

text \<open>\<open>CharStrBuilder\<close>: a builder around another that does not grow beyond the limit.\<close>

definition charstr_builder :: "'b builder_ops \<Rightarrow> 'b builder_ops" where
  "charstr_builder B = B\<lparr>bo_append := (\<lambda>b s.
     if length (bo_as_ref B b) + length s > CHARSTR_MAX_LEN then (Err AppendError, b) else bo_append B b s)\<rparr>"

definition charstr_from_builder :: "'b builder_ops \<Rightarrow> 'b \<Rightarrow> ('b, charstr_error) result" where
  "charstr_from_builder B b = (if length (bo_as_ref B b) > CHARSTR_MAX_LEN then Err CharStrError else Ok b)"

datatype charstr_presentation_error = LongString | CharStrSymbolChars symbol_chars_error | CharStrBadSymbol bad_symbol

datatype charstr_from_str_error = CharStrPresentation charstr_presentation_error | CharStrShortBuf

fun append_from_symbols :: "'b builder_ops \<Rightarrow> octet \<Rightarrow> symbol list \<Rightarrow> ('b, octet, charstr_from_str_error) step" where
  "append_from_symbols B len [] b = (Ok len, b)"
| "append_from_symbols B len (s # ss) b =
     (if len = 255 then (Err (CharStrPresentation LongString), b)
      else case into_octet s of
        Ok ch \<Rightarrow>
          (case bo_append B b [ch] of
             (Ok _, b) \<Rightarrow> append_from_symbols B (len + 1) ss b
           | (Err _, b) \<Rightarrow> (Err CharStrShortBuf, b)
           | (Panic, b) \<Rightarrow> (Panic, b))
      | Err e \<Rightarrow> (Err (CharStrPresentation (CharStrBadSymbol e)), b)
      | Panic \<Rightarrow> (Panic, b))"

definition append_from_str :: "'b builder_ops \<Rightarrow> uchar list \<Rightarrow> ('b, octet, charstr_from_str_error) step" where
  "append_from_str B chars =
     (let (ss, err) = symbols chars in
      sbind (append_from_symbols B 0 ss) (\<lambda>len b.
        case err of
          None \<Rightarrow> (Ok len, b)
        | Some e \<Rightarrow> (Err (CharStrPresentation (CharStrSymbolChars e)), b)))"

definition charstr_from_str :: "'b builder_ops \<Rightarrow> uchar list \<Rightarrow> (octets, charstr_from_str_error) result" where
  "charstr_from_str B s =
     (case append_from_str (charstr_builder B) s (bo_empty B) of (r, b) \<Rightarrow> rmap (\<lambda>_. bo_as_ref B b) r)"

section \<open>Laws of character strings\<close>

definition charstr_ok :: "octets \<Rightarrow> bool" where
  "charstr_ok s \<longleftrightarrow> length s \<le> 255"

definition charstr_wire :: "octets \<Rightarrow> octets" where
  "charstr_wire s = of_nat (length s) # s"

lemma length_charstr_wire [simp]: "length (charstr_wire s) = Suc (length s)"
  by (simp add: charstr_wire_def)

lemma charstr_len: "charstr_ok s \<Longrightarrow> unat (of_nat (length s) :: octet) = length s"
  by (simp add: charstr_ok_def unat_of_nat)

lemma charstr_from_octets_ok: "charstr_from_octets octs = Ok s \<longleftrightarrow> s = octs \<and> charstr_ok octs"
  by (auto simp: charstr_from_octets_def charstr_check_slice_def charstr_ok_def CHARSTR_MAX_LEN_def)

sublocale octseq_parser \<subseteq> charstr: wire_codec P charstr_wire "charstr_parse P" charstr_ok
proof unfold_locales
  fix s p ys
  assume s: "charstr_ok s" "parser_wf p" "p_rest p = charstr_wire s @ ys"
  have rem: "p_remaining p = Suc (length s + length ys)" using length_p_rest [OF s(2)] s(3) by simp
  have "p_rest (p_forward p 1) = s @ ys" "p_remaining (p_forward p 1) = length s + length ys"
    using s(2,3) rem by (simp_all add: p_rest_forward charstr_wire_def p_remaining_forward)
  with rem s charstr_len [OF s(1)] show "charstr_parse P p = Ok (s, p_forward p (length (charstr_wire s)))"
    by (simp add: charstr_parse_def ps_parse_u8 ps_parse_octets charstr_wire_def p_forward_def)
qed

context composer
begin

lemma puts_charstr [puts_intros]: "charstr_ok s \<Longrightarrow> puts C good cut lim (charstr_compose (co_builder C) s) (charstr_wire s)"
  using puts_then [OF puts_u8 [of "of_nat (length s)"] puts_append [of s]]
  by (simp add: charstr_compose_def [abs_def] charstr_ok_def charstr_wire_def)

end

lemma list_cmp_charstr:
  assumes "charstr_ok a" "charstr_ok b"
  shows "list_cmp ord_cmp (charstr_wire a @ xs) (charstr_wire b @ ys) = then_cmp (charstr_canonical_cmp a b) (list_cmp ord_cmp xs ys)"
proof -
  have eq: "ord_cmp (of_nat (length a) :: octet) (of_nat (length b)) = ord_cmp (length a) (length b)"
    using charstr_len [OF assms(1)] charstr_len [OF assms(2)] unsigned_word_eqI [of "of_nat (length a) :: octet" "of_nat (length b)"]
    by (auto simp: ord_cmp_def word_less_nat_alt)
  show ?thesis
  proof (cases "length a = length b")
    case True
    then show ?thesis by (simp add: charstr_wire_def charstr_canonical_cmp_def ord_cmp_def list_cmp_octets)
  next
    case False
    then have "ord_cmp (length a) (length b) \<noteq> Equal" by simp
    then show ?thesis
      by (cases "ord_cmp (length a) (length b)")
        (simp_all add: charstr_wire_def charstr_canonical_cmp_def eq del: ord_cmp_Less ord_cmp_Equal ord_cmp_Greater)
  qed
qed

lemma list_cmp_charstr_last:
  "charstr_ok a \<Longrightarrow> charstr_ok b \<Longrightarrow> list_cmp ord_cmp (charstr_wire a) (charstr_wire b) = charstr_canonical_cmp a b"
  using list_cmp_charstr [of a b "[]" "[]"] by (cases "charstr_canonical_cmp a b") simp_all

interpretation charstr_ord: data_ord charstr_cmp "map to_ascii_lowercase" "\<lambda>_. True" charstr_eq charstr_partial_cmp
proof (rule data_ord.intro)
  show "total_cmp charstr_cmp (map to_ascii_lowercase)"
    using total_cmp_image [OF ord_cmp.total_list_cmp, of "map to_ascii_lowercase"]
    by (simp add: charstr_cmp_def [abs_def])
qed (unfold_locales, simp_all add: charstr_eq_def eq_ignore_ascii_case_def charstr_partial_cmp_def charstr_cmp_def)

text \<open>Reading symbols that stand for octets appends the octets.\<close>

lemma append_from_symbols_vec:
  assumes "\<And>ch. into_octet (symb ch) = Ok ch" "unat len + length s \<le> 255" "length b = unat len"
  shows "append_from_symbols (charstr_builder vec_builder) len (map symb s) b = (Ok (len + of_nat (length s)), b @ s)"
  using assms(2,3)
proof (induction s arbitrary: len b)
  case (Cons ch s)
  have "unat (len + 1) = unat len + 1" using Cons.prems(1) by (simp add: unat_word_ariths)
  moreover have "len \<noteq> 255" using Cons.prems(1) by auto
  ultimately show ?case
    using Cons.IH [of "len + 1" "b @ [ch]"] Cons.prems assms(1) by (simp add: charstr_builder_def vec_builder_def CHARSTR_MAX_LEN_def)
qed simp

lemma append_from_symbols_long:
  assumes "\<And>ch. into_octet (symb ch) = Ok ch" "unat len + length s > 255" "length b = unat len"
  shows "fst (append_from_symbols (charstr_builder vec_builder) len (map symb s) b) = Err (CharStrPresentation LongString)"
  using assms(2,3)
proof (induction s arbitrary: len b)
  case Nil
  then show ?case using unat_octet_less [of len] by simp
next
  case (Cons ch s)
  show ?case
  proof (cases "len = 255")
    case False
    then have "unat len \<noteq> 255" using unsigned_word_eqI [of len 255] by auto
    then have "unat len < 255" using unat_octet_less [of len] by linarith
    then have "unat (len + 1) = unat len + 1" by (simp add: unat_word_ariths)
    then show ?thesis
      using False Cons.IH [of "len + 1" "b @ [ch]"] Cons.prems assms(1) \<open>unat len < 255\<close>
      by (simp add: charstr_builder_def vec_builder_def CHARSTR_MAX_LEN_def)
  qed simp
qed

lemma charstr_from_display:
  assumes "\<And>ch. into_octet (symb ch) = Ok ch" "\<And>ch. valid_symbol (symb ch)"
  shows "charstr_from_str vec_builder (concat (map (\<lambda>ch. symbol_display (symb ch)) s)) =
    (if length s \<le> 255 then Ok s else Err (CharStrPresentation LongString))"
proof -
  have "symbols (concat (map (\<lambda>ch. symbol_display (symb ch)) s)) = (map symb s, None)"
    using symbols_display [of "map symb s" "[]"] assms(2) by (simp add: list_all_iff comp_def)
  moreover have "fst (append_from_symbols (charstr_builder vec_builder) 0 (map symb s) []) = Err (CharStrPresentation LongString)"
    if "\<not> length s \<le> 255" using append_from_symbols_long [OF assms(1), of 0 s "[]"] that by simp
  moreover have "append_from_symbols (charstr_builder vec_builder) 0 (map symb s) [] = (Ok (of_nat (length s)), s)" if "length s \<le> 255"
    using append_from_symbols_vec [OF assms(1), of 0 s "[]"] that by simp
  moreover have "bo_empty vec_builder = []" "bo_as_ref vec_builder = (\<lambda>b. b)" by (simp_all add: vec_builder_def)
  ultimately show ?thesis
    by (cases "append_from_symbols (charstr_builder vec_builder) 0 (map symb s) []")
      (auto simp: charstr_from_str_def append_from_str_def sbind_def split: prod.splits result.splits)
qed

section \<open>HINFO\<close>

record hinfo =
  hinfo_cpu :: octets
  hinfo_os :: octets

definition HINFO_RTYPE :: u16 where "HINFO_RTYPE = 13"

definition hinfo_new :: "octets \<Rightarrow> octets \<Rightarrow> hinfo" where
  "hinfo_new cpu os = \<lparr>hinfo_cpu = cpu, hinfo_os = os\<rparr>"

definition hinfo_parse :: "parser_ops \<Rightarrow> parser \<Rightarrow> hinfo parse_result" where
  "hinfo_parse P p = rbind (charstr_parse P p) (\<lambda>(cpu, p). rbind (charstr_parse P p) (\<lambda>(os, p). Ok (hinfo_new cpu os, p)))"

definition hinfo_parse_rdata :: "parser_ops \<Rightarrow> hinfo rdata_parse" where
  "hinfo_parse_rdata P = parse_rdata_of HINFO_RTYPE (hinfo_parse P)"

definition hinfo_eq :: "hinfo \<Rightarrow> hinfo \<Rightarrow> bool" where
  "hinfo_eq a b \<longleftrightarrow> charstr_eq (hinfo_cpu a) (hinfo_cpu b) \<and> charstr_eq (hinfo_os a) (hinfo_os b)"

definition hinfo_partial_cmp :: "hinfo \<Rightarrow> hinfo \<Rightarrow> ordering option" where
  "hinfo_partial_cmp a b =
     then_partial (charstr_partial_cmp (hinfo_cpu a) (hinfo_cpu b)) (charstr_partial_cmp (hinfo_os a) (hinfo_os b))"

definition hinfo_cmp :: "hinfo \<Rightarrow> hinfo \<Rightarrow> ordering" where
  "hinfo_cmp a b = then_cmp (charstr_cmp (hinfo_cpu a) (hinfo_cpu b)) (charstr_cmp (hinfo_os a) (hinfo_os b))"

definition hinfo_canonical_cmp :: "hinfo \<Rightarrow> hinfo \<Rightarrow> ordering" where
  "hinfo_canonical_cmp a b =
     then_cmp (charstr_canonical_cmp (hinfo_cpu a) (hinfo_cpu b)) (charstr_canonical_cmp (hinfo_os a) (hinfo_os b))"

definition hinfo_rdlen :: "hinfo \<Rightarrow> bool \<Rightarrow> (u16 option, append_error) result" where
  "hinfo_rdlen d compress = rmap Some (u16_add (charstr_compose_len (hinfo_cpu d)) (charstr_compose_len (hinfo_os d)))"

definition hinfo_compose_rdata :: "'b composer_ops \<Rightarrow> hinfo \<Rightarrow> 'b target_step" where
  "hinfo_compose_rdata C d = then_compose (charstr_compose (co_builder C) (hinfo_cpu d)) (charstr_compose (co_builder C) (hinfo_os d))"

definition hinfo_ops :: "(hinfo, 'b) rdata_ops" where
  "hinfo_ops = \<lparr>rd_rtype = (\<lambda>_. HINFO_RTYPE), rd_rdlen = hinfo_rdlen, rd_compose = hinfo_compose_rdata,
     rd_compose_canonical = hinfo_compose_rdata\<rparr>"

definition hinfo_display :: "hinfo \<Rightarrow> uchar list" where
  "hinfo_display d = charstr_display_quoted (hinfo_cpu d) @ [32] @ charstr_display_quoted (hinfo_os d)"

definition hinfo_ok :: "hinfo \<Rightarrow> bool" where
  "hinfo_ok d \<longleftrightarrow> charstr_ok (hinfo_cpu d) \<and> charstr_ok (hinfo_os d)"

definition hinfo_enc :: "hinfo \<Rightarrow> octets" where
  "hinfo_enc d = charstr_wire (hinfo_cpu d) @ charstr_wire (hinfo_os d)"

context composer
begin

lemma hinfo_data: "octets_data C good cut lim hinfo_ops hinfo_ok hinfo_enc hinfo_enc"
proof
  fix d assume d: "hinfo_ok d"
  show p: "puts C good cut lim (rd_compose hinfo_ops C d) (hinfo_enc d)"
    using d puts_then [OF puts_charstr puts_charstr] by (simp add: hinfo_ops_def hinfo_compose_rdata_def hinfo_enc_def hinfo_ok_def)
  then show "puts C good cut lim (rd_compose_canonical hinfo_ops C d) (hinfo_enc d)" by (simp add: hinfo_ops_def)
  show "rd_rdlen hinfo_ops d c = Ok (Some (of_nat (length (hinfo_enc d))))" for c
  proof -
    have "length (hinfo_cpu d) \<le> 255" "length (hinfo_os d) \<le> 255" using d by (simp_all add: hinfo_ok_def charstr_ok_def)
    then show ?thesis
      unfolding hinfo_ops_def hinfo_rdlen_def charstr_compose_len_def rdata_ops.simps
      using u16_add_Ok [of "length (hinfo_cpu d) + 1" "length (hinfo_os d) + 1"] by (simp add: hinfo_enc_def u16_add_Ok del: of_nat_add of_nat_Suc)
  qed
  show "length (hinfo_enc d) \<le> 65535" using d by (simp add: hinfo_enc_def hinfo_ok_def charstr_ok_def)
qed simp

end

context octseq_parser
begin

lemma hinfo_parser: "rdata_parser P (hinfo_parse_rdata P) (\<lambda>_. HINFO_RTYPE) hinfo_ok (\<lambda>d. octets_meaning (hinfo_enc d)) (=)"
  unfolding hinfo_parse_rdata_def hinfo_parse_def [abs_def] hinfo_enc_def
  by (intro rdata_parser_of [OF octseq_parser_axioms] reads_octets [OF reads_bind [OF charstr.reads_codec]] reads_map [OF charstr.reads_codec])
    (auto simp: hinfo_ok_def hinfo_new_def)

end

interpretation hinfo_canonical: canonical_ord hinfo_ok hinfo_enc "\<lambda>a b. Ok (hinfo_canonical_cmp a b)"
  by unfold_locales (simp add: hinfo_ok_def hinfo_canonical_cmp_def hinfo_enc_def list_cmp_charstr list_cmp_charstr_last)

interpretation hinfo_ord: data_ord hinfo_cmp "\<lambda>d. (map to_ascii_lowercase (hinfo_cpu d), map to_ascii_lowercase (hinfo_os d))"
    "\<lambda>_. True" hinfo_eq hinfo_partial_cmp
proof (rule data_ord.intro)
  show "total_cmp hinfo_cmp (\<lambda>d. (map to_ascii_lowercase (hinfo_cpu d), map to_ascii_lowercase (hinfo_os d)))"
    unfolding hinfo_cmp_def [abs_def] by (intro total_then_cmp total_cmp_image [OF charstr_ord.total_cmp_axioms])
qed (unfold_locales, simp_all add: hinfo_eq_def charstr_eq_def eq_ignore_ascii_case_def hinfo_partial_cmp_def hinfo_cmp_def
    charstr_partial_cmp_def charstr_cmp_def)

section \<open>TXT\<close>

definition TXT_RTYPE :: u16 where "TXT_RTYPE = 16"

datatype txt_error = TxtEmpty | TxtLong long_record_data | TxtShortInput

function txt_check_loop :: "octets \<Rightarrow> (unit, txt_error) result" where
  "txt_check_loop s =
     (case s of
        [] \<Rightarrow> Ok ()
      | len # _ \<Rightarrow> if length s \<le> unat len then Err TxtShortInput else txt_check_loop (drop (unat len + 1) s))"
  by pat_completeness auto
termination
  by (relation "measure length") auto

declare txt_check_loop.simps [simp del]

definition txt_check_slice :: "octets \<Rightarrow> (unit, txt_error) result" where
  "txt_check_slice s =
     (if s = [] then Err TxtEmpty else rbind (rmap_err TxtLong (check_rdata_len (length s))) (\<lambda>_. txt_check_loop s))"

definition txt_from_octets :: "octets \<Rightarrow> (octets, txt_error) result" where
  "txt_from_octets octs = rbind (txt_check_slice octs) (\<lambda>_. Ok octs)"

text \<open>
  The loop of \<open>parse\<close> over the strings: every turn takes at least an octet, so a bound on the turns of the length of the data is never
  reached.
\<close>

fun txt_parse_loop :: "parser_ops \<Rightarrow> nat \<Rightarrow> parser \<Rightarrow> (unit, parse_error) result" where
  "txt_parse_loop P n tmp =
     (if p_remaining tmp = 0 then Ok ()
      else case n of 0 \<Rightarrow> Panic | Suc n \<Rightarrow> rbind (charstr_skip P tmp) (\<lambda>tmp. txt_parse_loop P n tmp))"

declare txt_parse_loop.simps [simp del]

definition txt_parse :: "parser_ops \<Rightarrow> parser \<Rightarrow> octets parse_result" where
  "txt_parse P p =
     rbind (rmap_err parse_error_from_short (ps_parse_octets P p (p_remaining p))) (\<lambda>(txt, p).
       rbind (txt_parse_loop P (length txt) (ps_from_ref P txt)) (\<lambda>_. Ok (txt, p)))"

definition txt_parse_rdata :: "parser_ops \<Rightarrow> octets rdata_parse" where
  "txt_parse_rdata P = parse_rdata_of TXT_RTYPE (txt_parse P)"

text \<open>\<open>iter_charstrs\<close>: \<open>next\<close> unwraps a parsed string.\<close>

fun txt_charstrs_loop :: "parser_ops \<Rightarrow> nat \<Rightarrow> parser \<Rightarrow> (octets list, 'e) result" where
  "txt_charstrs_loop P n p =
     (if p_remaining p = 0 then Ok []
      else case n of
        0 \<Rightarrow> Panic
      | Suc n \<Rightarrow> rbind (runwrap (charstr_parse P p)) (\<lambda>(s, p). rmap (\<lambda>ss. s # ss) (txt_charstrs_loop P n p)))"

declare txt_charstrs_loop.simps [simp del]

definition txt_iter_charstrs :: "parser_ops \<Rightarrow> octets \<Rightarrow> (octets list, 'e) result" where
  "txt_iter_charstrs P txt = txt_charstrs_loop P (length txt) (ps_from_ref P txt)"

definition txt_as_flat_slice :: "octets \<Rightarrow> (octets option, 'e) result" where
  "txt_as_flat_slice txt =
     (case txt of
        [] \<Rightarrow> Panic
      | len # content \<Rightarrow> Ok (if unat len = length txt - 1 then Some content else None))"

definition txt_try_text :: "'b builder_ops \<Rightarrow> parser_ops \<Rightarrow> octets \<Rightarrow> (octets, append_error) result" where
  "txt_try_text B P txt =
     rbind (txt_iter_charstrs P txt) (\<lambda>items.
       case compose_all (\<lambda>item b. bo_append B b item) items (bo_empty B) of (r, b) \<Rightarrow> rmap (\<lambda>_. bo_as_ref B b) r)"

definition txt_eq :: "octets \<Rightarrow> octets \<Rightarrow> bool" where
  "txt_eq a b \<longleftrightarrow> a = b"

definition txt_partial_cmp :: "octets \<Rightarrow> octets \<Rightarrow> ordering option" where
  "txt_partial_cmp a b = Some (list_cmp ord_cmp a b)"

definition txt_cmp :: "octets \<Rightarrow> octets \<Rightarrow> ordering" where
  "txt_cmp a b = list_cmp ord_cmp a b"

definition txt_canonical_cmp :: "octets \<Rightarrow> octets \<Rightarrow> ordering" where
  "txt_canonical_cmp a b = list_cmp ord_cmp a b"

definition txt_rdlen :: "octets \<Rightarrow> bool \<Rightarrow> (u16 option, append_error) result" where
  "txt_rdlen d compress = (if length d > 65535 then Panic else Ok (Some (of_nat (length d))))"

definition txt_compose_rdata :: "'b composer_ops \<Rightarrow> octets \<Rightarrow> 'b target_step" where
  "txt_compose_rdata C d t = bo_append (co_builder C) t d"

definition txt_ops :: "(octets, 'b) rdata_ops" where
  "txt_ops = \<lparr>rd_rtype = (\<lambda>_. TXT_RTYPE), rd_rdlen = txt_rdlen, rd_compose = txt_compose_rdata,
     rd_compose_canonical = txt_compose_rdata\<rparr>"

fun txt_display_loop :: "bool \<Rightarrow> octets list \<Rightarrow> uchar list" where
  "txt_display_loop first [] = []"
| "txt_display_loop first (s # ss) = (if first then [] else [32]) @ charstr_display_quoted s @ txt_display_loop False ss"

definition txt_display :: "parser_ops \<Rightarrow> octets \<Rightarrow> (uchar list, 'e) result" where
  "txt_display P txt = rmap (txt_display_loop True) (txt_iter_charstrs P txt)"

subsection \<open>The strings of the data\<close>

definition charstrs_wire :: "octets list \<Rightarrow> octets" where
  "charstrs_wire ss = concat (map charstr_wire ss)"

lemma charstrs_wire_simps [simp]:
  "charstrs_wire [] = []" "charstrs_wire (s # ss) = charstr_wire s @ charstrs_wire ss"
  "charstrs_wire (ss @ ts) = charstrs_wire ss @ charstrs_wire ts"
  by (simp_all add: charstrs_wire_def)

definition txt_ok :: "octets \<Rightarrow> bool" where
  "txt_ok d \<longleftrightarrow> txt_check_slice d = Ok ()"

lemma txt_check_loop_wire: "list_all charstr_ok ss \<Longrightarrow> txt_check_loop (charstrs_wire ss) = Ok ()"
proof (induction ss)
  case Nil
  then show ?case by (simp add: txt_check_loop.simps)
next
  case (Cons s ss)
  then have "txt_check_loop (charstrs_wire (s # ss)) = txt_check_loop (charstrs_wire ss)"
    by (subst txt_check_loop.simps) (simp add: charstr_wire_def charstr_len)
  with Cons show ?case by simp
qed

lemma txt_check_loop_Ok: "txt_check_loop s = Ok () \<Longrightarrow> \<exists>ss. s = charstrs_wire ss \<and> list_all charstr_ok ss"
proof (induction s rule: txt_check_loop.induct)
  case (1 s)
  show ?case
  proof (cases s)
    case Nil
    then show ?thesis by (intro exI [of _ "[]"]) simp
  next
    case (Cons len rest)
    with 1(2) have len: "unat len < length s" "txt_check_loop (drop (unat len + 1) s) = Ok ()"
      by (simp_all add: txt_check_loop.simps [of "len # rest"] split: if_splits)
    with 1(1) Cons obtain ss where ss: "drop (unat len) rest = charstrs_wire ss" "list_all charstr_ok ss" by auto
    let ?s = "take (unat len) rest"
    have l: "length ?s = unat len" using len(1) Cons by simp
    have "charstr_ok ?s" using l unat_octet_less [of len] unfolding charstr_ok_def by linarith
    moreover have "s = charstr_wire ?s @ charstrs_wire ss"
      using Cons l ss(1) [symmetric] by (simp add: charstr_wire_def del: ss)
    ultimately show ?thesis using ss(2) by (intro exI [of _ "?s # ss"]) simp
  qed
qed

lemma txt_ok_iff: "txt_ok d \<longleftrightarrow> d \<noteq> [] \<and> length d \<le> 65535 \<and> (\<exists>ss. d = charstrs_wire ss \<and> list_all charstr_ok ss)"
proof -
  have "txt_ok d \<longleftrightarrow> d \<noteq> [] \<and> length d \<le> 65535 \<and> txt_check_loop d = Ok ()"
    by (auto simp: txt_ok_def txt_check_slice_def check_rdata_len_def)
  then show ?thesis using txt_check_loop_Ok txt_check_loop_wire by blast
qed

context octseq_parser
begin

lemma charstr_skip_wire:
  assumes "charstr_ok s" "parser_wf p" "p_rest p = charstr_wire s @ ys"
  shows "charstr_skip P p = Ok (p_forward p (Suc (length s)))"
proof -
  have "p_remaining p = Suc (length s + length ys)" using length_p_rest [OF assms(2)] assms(3) by simp
  then show ?thesis
    using assms charstr_len [OF assms(1)] by (simp add: charstr_skip_def ps_parse_u8 ps_advance charstr_wire_def)
qed

lemma txt_loops:
  assumes "list_all charstr_ok ss" "parser_wf p" "p_rest p = charstrs_wire ss" "length (charstrs_wire ss) \<le> n"
  shows "txt_parse_loop P n p = Ok ()" "txt_charstrs_loop P n p = Ok ss"
  using assms
proof (induction ss arbitrary: n p)
  case Nil
  {
    case 1
    then have "p_remaining p = 0" using length_p_rest [of p] by simp
    then show ?case by (simp add: txt_parse_loop.simps)
  next
    case 2
    then have "p_remaining p = 0" using length_p_rest [of p] by simp
    then show ?case by (simp add: txt_charstrs_loop.simps)
  }
next
  case (Cons s ss)
  have step: "p_remaining p = Suc (length s + length (charstrs_wire ss))" "charstr_ok s" "list_all charstr_ok ss" "0 < n"
    "parser_wf (p_forward p (Suc (length s)))" "p_rest (p_forward p (Suc (length s))) = charstrs_wire ss"
    "length (charstrs_wire ss) \<le> n - 1"
    if "list_all charstr_ok (s # ss)" "parser_wf p" "p_rest p = charstrs_wire (s # ss)" "length (charstrs_wire (s # ss)) \<le> n" for p n
    using that length_p_rest [OF that(2)] by simp_all
  {
    case 1
    note st = step [OF 1]
    have "charstr_skip P p = Ok (p_forward p (Suc (length s)))" using charstr_skip_wire [OF st(2) 1(2)] 1(3) by simp
    with Cons.IH(1) [OF st(3,5-7)] st(1,4) show ?case by (subst txt_parse_loop.simps) (auto split: nat.split)
  next
    case 2
    note st = step [OF 2]
    have "charstr_parse P p = Ok (s, p_forward p (Suc (length s)))" using charstr.dec_enc [OF st(2) 2(2)] 2(3) by simp
    with Cons.IH(2) [OF st(3,5-7)] st(1,4) show ?case by (subst txt_charstrs_loop.simps) (auto split: nat.split)
  }
qed

lemma txt_iter_wire: "list_all charstr_ok ss \<Longrightarrow> txt_iter_charstrs P (charstrs_wire ss) = Ok ss"
  unfolding txt_iter_charstrs_def ps_from_ref by (rule txt_loops) (simp_all add: parser_wf_def p_rest_def)

lemma txt_parser: "rdata_parser P (txt_parse_rdata P) (\<lambda>_. TXT_RTYPE) txt_ok octets_meaning (=)"
proof (rule rdata_parser.intro [OF octseq_parser_axioms], unfold_locales)
  fix d :: octets and p
  assume d: "txt_ok d" "parser_wf p" "written (p_octets p) (p_pos p) (p_len p) (octets_meaning d)"
  then have p: "take (p_remaining p) (p_rest p) = d" "p_forward p (p_remaining p) = p\<lparr>p_pos := p_len p\<rparr>"
    by (auto simp: written_octets p_remaining_def p_rest_def p_forward_def parser_wf_def drop_take)
  from d(1) obtain ss where ss: "d = charstrs_wire ss" "list_all charstr_ok ss" by (auto simp: txt_ok_iff)
  have "txt_parse_loop P (length d) (ps_from_ref P d) = Ok ()"
    unfolding ss(1) ps_from_ref by (rule txt_loops(1) [OF ss(2) _ _ order_refl]) (simp_all add: parser_wf_def p_rest_def)
  with p show "\<exists>e. txt_parse_rdata P TXT_RTYPE p = Ok (Some e, p\<lparr>p_pos := p_len p\<rparr>) \<and> d = e"
    by (simp add: txt_parse_rdata_def parse_rdata_of_def txt_parse_def ps_parse_octets)
qed

end

context octseq_parser
begin

lemma txt_parse_loop_check:
  assumes "parser_wf p" "p_remaining p \<le> n"
  shows "txt_parse_loop P n p = (if txt_check_loop (p_rest p) = Ok () then Ok () else Err ShortInputError)"
  using assms
proof (induction n arbitrary: p)
  case 0
  then have "p_remaining p = 0" "p_rest p = []" using length_p_rest [of p] by simp_all
  then show ?case by (simp add: txt_parse_loop.simps txt_check_loop.simps)
next
  case (Suc n)
  note len = length_p_rest [OF Suc.prems(1)]
  show ?case
  proof (cases "p_rest p")
    case Nil
    with len show ?thesis by (simp add: txt_parse_loop.simps txt_check_loop.simps)
  next
    case (Cons c rest)
    with len have rem: "p_remaining p = Suc (length rest)" by simp
    then have skip: "charstr_skip P p = (if length rest < unat c then Err ShortInputError else Ok (p_forward p (Suc (unat c))))"
      using Cons by (simp add: charstr_skip_def ps_parse_u8 ps_advance)
    have check: "txt_check_loop (p_rest p) = (if length rest < unat c then Err TxtShortInput else txt_check_loop (drop (unat c) rest))"
      unfolding Cons by (subst txt_check_loop.simps) auto
    show ?thesis
    proof (cases "length rest < unat c")
      case True
      with skip check rem show ?thesis by (subst txt_parse_loop.simps) simp
    next
      case False
      then have "parser_wf (p_forward p (Suc (unat c)))" "p_remaining (p_forward p (Suc (unat c))) \<le> n"
        "p_rest (p_forward p (Suc (unat c))) = drop (unat c) rest"
        using Suc.prems rem Cons by simp_all
      from Suc.IH [OF this(1,2)] this(3) skip check rem False show ?thesis by (subst txt_parse_loop.simps) simp
    qed
  qed
qed

lemma txt_parse_check:
  assumes "parser_wf p"
  shows "txt_parse P p =
    (if txt_check_loop (p_rest p) = Ok () then Ok (p_rest p, p_forward p (p_remaining p)) else Err ShortInputError)"
proof -
  have "take (p_remaining p) (p_rest p) = p_rest p" by (simp add: length_p_rest [OF assms, symmetric])
  moreover have "txt_parse_loop P (length (p_rest p)) (ps_from_ref P (p_rest p)) =
      (if txt_check_loop (p_rest p) = Ok () then Ok () else Err ShortInputError)"
    using txt_parse_loop_check [of "ps_from_ref P (p_rest p)" "length (p_rest p)"]
    by (simp add: ps_from_ref parser_wf_def p_remaining_def p_rest_def)
  ultimately show ?thesis by (simp add: txt_parse_def ps_parse_octets)
qed

end

context composer
begin

lemma txt_data: "octets_data C good cut lim txt_ops txt_ok (\<lambda>d. d) (\<lambda>d. d)"
proof
  fix d :: octets assume d: "txt_ok d"
  show "puts C good cut lim (rd_compose txt_ops C d) d" "puts C good cut lim (rd_compose_canonical txt_ops C d) d"
    using puts_append [of d] by (simp_all add: txt_ops_def txt_compose_rdata_def [abs_def])
qed (auto simp: txt_ops_def txt_ok_iff txt_rdlen_def)

end

interpretation txt_canonical: canonical_ord txt_ok "\<lambda>d. d" "\<lambda>a b. Ok (txt_canonical_cmp a b)"
  by unfold_locales (simp add: txt_canonical_cmp_def)

interpretation txt_ord: data_ord txt_cmp "\<lambda>d. map (\<lambda>ch. ch) d" "\<lambda>_. True" txt_eq txt_partial_cmp
proof (rule data_ord.intro)
  show "total_cmp txt_cmp (\<lambda>d. map (\<lambda>ch. ch) d)" using ord_cmp.total_list_cmp by (simp add: txt_cmp_def [abs_def])
qed (unfold_locales, simp_all add: txt_eq_def txt_partial_cmp_def txt_cmp_def)

section \<open>Building TXT data\<close>

record 'b txt_builder =
  tb_builder :: 'b
  tb_start :: "nat option"

datatype txt_append_error = TxtLongRecordData | TxtShortBuf

definition txt_builder_new :: "'b builder_ops \<Rightarrow> 'b txt_builder" where
  "txt_builder_new B = \<lparr>tb_builder = bo_empty B, tb_start = None\<rparr>"

definition builder_append_slice :: "'b builder_ops \<Rightarrow> octets \<Rightarrow> ('b txt_builder, unit, txt_append_error) step" where
  "builder_append_slice B s tb =
     (case check_append_len (length (bo_as_ref B (tb_builder tb))) (length s) of
        Ok _ \<Rightarrow>
          (case bo_append B (tb_builder tb) s of
             (r, b) \<Rightarrow> (rmap_err (\<lambda>_. TxtShortBuf) r, tb\<lparr>tb_builder := b\<rparr>))
      | Err _ \<Rightarrow> (Err TxtLongRecordData, tb)
      | Panic \<Rightarrow> (Panic, tb))"

text \<open>\<open>builder.as_mut()[start] = ch\<close>.\<close>

definition tb_set :: "'b builder_ops \<Rightarrow> nat \<Rightarrow> octet \<Rightarrow> ('b txt_builder, unit, txt_append_error) step" where
  "tb_set B start ch tb =
     (let s = bo_as_ref B (tb_builder tb) in
      if length s \<le> start then (Panic, tb) else (Ok (), tb\<lparr>tb_builder := bo_as_mut B (tb_builder tb) (s[start := ch])\<rparr>))"

text \<open>\<open>slice::chunks(255)\<close>.\<close>

function chunks255 :: "octets \<Rightarrow> octets list" where
  "chunks255 s = (if s = [] then [] else take 255 s # chunks255 (drop 255 s))"
  by pat_completeness auto
termination
  by (relation "measure length") auto

declare chunks255.simps [simp del]

definition txt_append_chunk :: "'b builder_ops \<Rightarrow> octets \<Rightarrow> ('b txt_builder, unit, txt_append_error) step" where
  "txt_append_chunk B chunk tb =
     sbind (builder_append_slice B [of_nat (length chunk)]) (\<lambda>_. builder_append_slice B chunk)
       (tb\<lparr>tb_start := if length chunk = 255 then None else Some (length (bo_as_ref B (tb_builder tb)))\<rparr>)"

definition txt_append_slice :: "'b builder_ops \<Rightarrow> octets \<Rightarrow> ('b txt_builder, unit, txt_append_error) step" where
  "txt_append_slice B s tb =
     (case tb_start tb of
        Some start \<Rightarrow>
          let len = length (bo_as_ref B (tb_builder tb)) in
          if len < start + 1 \<or> 255 < len - (start + 1) then (Panic, tb)
          else
            let left = 255 - (len - (start + 1)) in
            if length s < left then builder_append_slice B s tb
            else sbind (builder_append_slice B (take left s)) (\<lambda>_. sbind (tb_set B start 255) (\<lambda>_.
              sfor (txt_append_chunk B) (chunks255 (drop left s)))) tb
      | None \<Rightarrow> sfor (txt_append_chunk B) (chunks255 s) tb)"

definition txt_append_u8 :: "'b builder_ops \<Rightarrow> octet \<Rightarrow> ('b txt_builder, unit, txt_append_error) step" where
  "txt_append_u8 B ch = txt_append_slice B [ch]"

definition txt_close_charstr :: "'b builder_ops \<Rightarrow> ('b txt_builder, unit, txt_append_error) step" where
  "txt_close_charstr B tb =
     (case tb_start tb of
        Some start \<Rightarrow>
          let len = length (bo_as_ref B (tb_builder tb)) in
          if len < start + 1 then (Panic, tb)
          else sbind (tb_set B start (of_nat (len - (start + 1)))) (\<lambda>_ tb. (Ok (), tb\<lparr>tb_start := None\<rparr>)) tb
      | None \<Rightarrow> (Ok (), tb))"

definition txt_append_charstr :: "'b builder_ops \<Rightarrow> octets \<Rightarrow> ('b txt_builder, unit, txt_append_error) step" where
  "txt_append_charstr B s =
     sbind (txt_close_charstr B) (\<lambda>_ tb.
       case (charstr_compose_len s :: (u16, unit) result) of
         Ok n \<Rightarrow>
           (case check_append_len (length (bo_as_ref B (tb_builder tb))) (unat n) of
              Ok _ \<Rightarrow> (case charstr_compose B s (tb_builder tb) of (r, b) \<Rightarrow> (rmap_err (\<lambda>_. TxtShortBuf) r, tb\<lparr>tb_builder := b\<rparr>))
            | Err _ \<Rightarrow> (Err TxtLongRecordData, tb)
            | Panic \<Rightarrow> (Panic, tb))
       | _ \<Rightarrow> (Panic, tb))"

definition txt_finish :: "'b builder_ops \<Rightarrow> 'b txt_builder \<Rightarrow> (octets, txt_append_error) result" where
  "txt_finish B tb =
     (case sbind (txt_close_charstr B) (\<lambda>_ tb.
        if bo_as_ref B (tb_builder tb) = [] then
          (case bo_append B (tb_builder tb) [0] of (r, b) \<Rightarrow> (rmap_err (\<lambda>_. TxtShortBuf) r, tb\<lparr>tb_builder := b\<rparr>))
        else (Ok (), tb)) tb of
      (r, tb) \<Rightarrow> rmap (\<lambda>_. bo_as_ref B (tb_builder tb)) r)"

definition txt_build_from_slice :: "'b builder_ops \<Rightarrow> octets \<Rightarrow> (octets, txt_append_error) result" where
  "txt_build_from_slice B s =
     (case txt_append_slice B s (txt_builder_new B) of (r, tb) \<Rightarrow> rbind r (\<lambda>_. txt_finish B tb))"

subsection \<open>What a builder holds\<close>

text \<open>
  A builder holds complete strings and perhaps one that has been started.  The length octet of that one is only set when it is
  closed or full.
\<close>

definition tb_rel :: "'b builder_ops \<Rightarrow> 'b txt_builder \<Rightarrow> octets list \<Rightarrow> octets option \<Rightarrow> bool" where
  "tb_rel B tb ss cur \<longleftrightarrow> list_all charstr_ok ss \<and> length (bo_as_ref B (tb_builder tb)) \<le> 65535 \<and>
     (case cur of
        None \<Rightarrow> tb_start tb = None \<and> bo_as_ref B (tb_builder tb) = charstrs_wire ss
      | Some c \<Rightarrow> charstr_ok c \<and> tb_start tb = Some (length (charstrs_wire ss)) \<and>
          (\<exists>x. bo_as_ref B (tb_builder tb) = charstrs_wire ss @ x # c))"

definition tb_text :: "octets list \<Rightarrow> octets option \<Rightarrow> octets" where
  "tb_text ss cur = concat ss @ (case cur of None \<Rightarrow> [] | Some c \<Rightarrow> c)"

lemma tb_rel_None:
  "tb_rel B tb ss None \<longleftrightarrow> list_all charstr_ok ss \<and> tb_start tb = None \<and> bo_as_ref B (tb_builder tb) = charstrs_wire ss \<and>
     length (charstrs_wire ss) \<le> 65535"
  by (auto simp: tb_rel_def)

inductive txt_reach :: "'b builder_ops \<Rightarrow> 'b txt_builder \<Rightarrow> octets \<Rightarrow> bool" for B where
  new: "txt_reach B (txt_builder_new B) []"
| append_slice: "txt_reach B tb text \<Longrightarrow> txt_append_slice B s tb = (Ok u, tb') \<Longrightarrow> txt_reach B tb' (text @ s)"
| append_u8: "txt_reach B tb text \<Longrightarrow> txt_append_u8 B ch tb = (Ok u, tb') \<Longrightarrow> txt_reach B tb' (text @ [ch])"
| append_charstr: "txt_reach B tb text \<Longrightarrow> charstr_ok s \<Longrightarrow> txt_append_charstr B s tb = (Ok u, tb') \<Longrightarrow> txt_reach B tb' (text @ s)"
| close_charstr: "txt_reach B tb text \<Longrightarrow> txt_close_charstr B tb = (Ok u, tb') \<Longrightarrow> txt_reach B tb' text"

lemma check_append_len_Ok: "check_append_len n k = Ok u \<Longrightarrow> n + k \<le> 65535"
  by (simp add: check_append_len_def check_rdata_len_def split: if_splits)

lemma sfor_chunks:
  assumes "sfor f (chunks255 s) t = (Ok u, t')" "s \<noteq> []"
  shows "\<exists>t1. f (take 255 s) t = (Ok (), t1) \<and> sfor f (chunks255 (drop 255 s)) t1 = (Ok u, t')"
  using assms by (subst (asm) chunks255.simps) (auto simp: sbind_Ok)

context octets_builder
begin

lemma builder_append_slice_Ok:
  assumes "builder_append_slice B s tb = (Ok u, tb')"
  shows "bo_as_ref B (tb_builder tb') = bo_as_ref B (tb_builder tb) @ s" "tb_start tb' = tb_start tb"
    "length (bo_as_ref B (tb_builder tb')) \<le> 65535"
proof -
  obtain b u' where b: "bo_append B (tb_builder tb) s = (Ok u', b)" "tb' = tb\<lparr>tb_builder := b\<rparr>"
    and len: "length (bo_as_ref B (tb_builder tb)) + length s \<le> 65535"
    using assms by (auto simp: builder_append_slice_def split: result.splits prod.splits dest: check_append_len_Ok)
  with append_Ok show "bo_as_ref B (tb_builder tb') = bo_as_ref B (tb_builder tb) @ s" by simp
  with len b(2) show "tb_start tb' = tb_start tb" "length (bo_as_ref B (tb_builder tb')) \<le> 65535" by simp_all
qed

lemma tb_set_Ok:
  assumes "tb_set B n ch tb = (Ok u, tb')"
  shows "bo_as_ref B (tb_builder tb') = (bo_as_ref B (tb_builder tb))[n := ch]" "tb_start tb' = tb_start tb"
  using assms as_mut by (auto simp: tb_set_def Let_def split: if_splits)

lemma txt_append_chunk_rel:
  assumes "tb_rel B tb ss None" "length c \<le> 255" "txt_append_chunk B c tb = (Ok u, tb')"
  shows "if length c = 255 then tb_rel B tb' (ss @ [c]) None else tb_rel B tb' ss (Some c)"
proof -
  obtain t1 where
    t1: "builder_append_slice B [of_nat (length c)] (tb\<lparr>tb_start := if length c = 255 then None else Some (length (bo_as_ref B (tb_builder tb)))\<rparr>) = (Ok (), t1)"
    "builder_append_slice B c t1 = (Ok u, tb')"
    using assms(3) by (auto simp: txt_append_chunk_def sbind_Ok)
  note b = builder_append_slice_Ok [OF t1(1)] builder_append_slice_Ok [OF t1(2)]
  have "bo_as_ref B (tb_builder tb') = charstrs_wire ss @ charstr_wire c"
    using b(1,4) assms(1) by (simp add: tb_rel_def charstr_wire_def)
  then show ?thesis using b(2,5,6) assms(1,2) by (simp add: tb_rel_def charstr_ok_def charstr_wire_def)
qed

lemma txt_chunks_rel:
  assumes "tb_rel B tb ss None" "sfor (txt_append_chunk B) (chunks255 s) tb = (Ok u, tb')"
  shows "\<exists>ss' cur'. tb_rel B tb' ss' cur' \<and> tb_text ss' cur' = tb_text ss None @ s"
  using assms
proof (induction s arbitrary: tb ss rule: chunks255.induct)
  case (1 s)
  show ?case
  proof (cases "s = []")
    case True
    with 1(3) have "tb' = tb" by (simp add: chunks255.simps)
    with True 1(2) show ?thesis by (intro exI [of _ ss] exI [of _ None]) simp
  next
    case False
    from sfor_chunks [OF 1(3) False] obtain t1 where t1: "txt_append_chunk B (take 255 s) tb = (Ok (), t1)"
      "sfor (txt_append_chunk B) (chunks255 (drop 255 s)) t1 = (Ok u, tb')" by blast
    note c = txt_append_chunk_rel [OF 1(2) _ t1(1)]
    show ?thesis
    proof (cases "length s < 255")
      case True
      then have "chunks255 (drop 255 s) = []" by (simp add: chunks255.simps)
      with t1(2) have "tb' = t1" by simp
      with c True show ?thesis by (intro exI [of _ ss] exI [of _ "Some s"]) (simp add: tb_text_def)
    next
      case long: False
      with c have "tb_rel B t1 (ss @ [take 255 s]) None" by simp
      from 1(1) [OF False this t1(2)] show ?thesis by (simp add: tb_text_def)
    qed
  qed
qed

lemma txt_append_slice_rel:
  assumes "tb_rel B tb ss cur" "txt_append_slice B s tb = (Ok u, tb')"
  shows "\<exists>ss' cur'. tb_rel B tb' ss' cur' \<and> tb_text ss' cur' = tb_text ss cur @ s"
proof (cases cur)
  case None
  with assms have "sfor (txt_append_chunk B) (chunks255 s) tb = (Ok u, tb')" by (simp add: tb_rel_None txt_append_slice_def)
  with None assms(1) txt_chunks_rel show ?thesis by blast
next
  case (Some c)
  let ?n = "length (charstrs_wire ss)"
  from assms(1) Some obtain x where x: "tb_start tb = Some ?n" "bo_as_ref B (tb_builder tb) = charstrs_wire ss @ x # c"
    and c: "length c \<le> 255" "list_all charstr_ok ss" by (auto simp: tb_rel_def charstr_ok_def)
  show ?thesis
  proof (cases "length s < 255 - length c")
    case True
    with assms(2) x c(1) have "builder_append_slice B s tb = (Ok u, tb')" by (simp add: txt_append_slice_def Let_def)
    note b = builder_append_slice_Ok [OF this]
    have "tb_rel B tb' ss (Some (c @ s))" using b x c True by (simp add: tb_rel_def charstr_ok_def)
    with Some show ?thesis by (intro exI [of _ ss] exI [of _ "Some (c @ s)"]) (simp add: tb_text_def)
  next
    case False
    let ?l = "255 - length c"
    from assms(2) x c(1) False obtain t1 t2 where t: "builder_append_slice B (take ?l s) tb = (Ok (), t1)" "tb_set B ?n 255 t1 = (Ok (), t2)"
      "sfor (txt_append_chunk B) (chunks255 (drop ?l s)) t2 = (Ok u, tb')" by (auto simp: txt_append_slice_def Let_def sbind_Ok)
    note b = builder_append_slice_Ok [OF t(1)] tb_set_Ok [OF t(2)]
    let ?c = "c @ take ?l s"
    have len: "length ?c = 255" using False c(1) by simp
    have ref: "bo_as_ref B (tb_builder t2) = charstrs_wire ss @ charstr_wire ?c"
      using b(1,4) x(2) len by (simp add: charstr_wire_def)
    show ?thesis
    proof (cases "drop ?l s = []")
      case True
      with t(3) have "tb' = t2" by (simp add: chunks255.simps)
      then have "tb_rel B tb' ss (Some ?c)" using ref b x c(2) len by (simp add: tb_rel_def charstr_ok_def charstr_wire_def)
      with Some True show ?thesis by (intro exI [of _ ss] exI [of _ "Some ?c"]) (simp add: tb_text_def)
    next
      case more: False
      let ?t = "t2\<lparr>tb_start := None\<rparr>"
      have "txt_append_chunk B (take 255 (drop ?l s)) ?t = txt_append_chunk B (take 255 (drop ?l s)) t2"
        by (simp add: txt_append_chunk_def)
      with t(3) more have "sfor (txt_append_chunk B) (chunks255 (drop ?l s)) ?t = (Ok u, tb')"
        by (simp add: chunks255.simps [of "drop ?l s"] sbind_def)
      moreover have "length (bo_as_ref B (tb_builder t2)) \<le> 65535" using b(3,4) by simp
      then have "tb_rel B ?t (ss @ [?c]) None" using ref c(2) len by (simp add: tb_rel_None charstr_ok_def)
      ultimately obtain ss' cur' where "tb_rel B tb' ss' cur'" "tb_text ss' cur' = tb_text (ss @ [?c]) None @ drop ?l s"
        using txt_chunks_rel by blast
      with Some show ?thesis by (intro exI [of _ ss'] exI [of _ cur']) (simp add: tb_text_def)
    qed
  qed
qed

lemma txt_close_charstr_rel:
  assumes "tb_rel B tb ss cur"
  shows "\<exists>tb'. txt_close_charstr B tb = (Ok (), tb') \<and>
    tb_rel B tb' (ss @ (case cur of None \<Rightarrow> [] | Some c \<Rightarrow> [c])) None"
proof (cases cur)
  case None
  with assms show ?thesis by (simp add: txt_close_charstr_def tb_rel_None)
next
  case (Some c)
  let ?n = "length (charstrs_wire ss)"
  from assms Some obtain x where x: "tb_start tb = Some ?n" "bo_as_ref B (tb_builder tb) = charstrs_wire ss @ x # c"
    and c: "charstr_ok c" "list_all charstr_ok ss" "length (bo_as_ref B (tb_builder tb)) \<le> 65535" by (auto simp: tb_rel_def)
  obtain t1 where t1: "tb_set B ?n (of_nat (length c)) tb = (Ok (), t1)" using x(2) by (simp add: tb_set_def Let_def)
  note b = tb_set_Ok [OF t1]
  have "txt_close_charstr B tb = (Ok (), t1\<lparr>tb_start := None\<rparr>)"
    using x t1 by (simp add: txt_close_charstr_def Let_def)
  moreover have "tb_rel B (t1\<lparr>tb_start := None\<rparr>) (ss @ [c]) None"
    using b x(2) c by (simp add: tb_rel_def charstr_wire_def)
  ultimately show ?thesis using Some by simp
qed

lemma txt_append_charstr_rel:
  assumes "tb_rel B tb ss cur" "charstr_ok s" "txt_append_charstr B s tb = (Ok u, tb')"
  shows "\<exists>ss' cur'. tb_rel B tb' ss' cur' \<and> tb_text ss' cur' = tb_text ss cur @ s"
proof -
  let ?ss = "ss @ (case cur of None \<Rightarrow> [] | Some c \<Rightarrow> [c])"
  from txt_close_charstr_rel [OF assms(1)] obtain t1 where t1: "txt_close_charstr B tb = (Ok (), t1)" "tb_rel B t1 ?ss None" by blast
  have n: "unat (of_nat (length s + 1) :: u16) = Suc (length s)" "\<not> length s > 255" "\<not> length s + 1 > 65535"
    using assms(2) by (simp_all add: charstr_ok_def unat_of_nat del: of_nat_add of_nat_Suc)
  from assms(3) t1(1) n obtain b u' where len: "length (bo_as_ref B (tb_builder t1)) + Suc (length s) \<le> 65535"
    and b: "charstr_compose B s (tb_builder t1) = (Ok u', b)" "tb' = t1\<lparr>tb_builder := b\<rparr>"
    by (auto simp: txt_append_charstr_def charstr_compose_len_def split: result.splits prod.splits dest: check_append_len_Ok)
  have "charstr_compose B s = then_compose (compose_u8 B (of_nat (length s))) (\<lambda>t. bo_append B t s)"
    using n(2) by (simp add: charstr_compose_def [abs_def])
  moreover have "appends B (compose_u8 B (of_nat (length s))) [of_nat (length s)]"
    using appends_append by (simp add: compose_u8_def [abs_def])
  ultimately have "appends B (charstr_compose B s) (charstr_wire s)"
    using appends_then [OF _ appends_append [of s]] by (fastforce simp: charstr_wire_def)
  from appends_Ok [OF this b(1)] t1(2) b(2) len assms(2) have "tb_rel B tb' (?ss @ [s]) None" by (simp add: tb_rel_def)
  moreover have "tb_text (?ss @ [s]) None = tb_text ss cur @ s" by (cases cur) (simp_all add: tb_text_def)
  ultimately show ?thesis by blast
qed

lemma txt_reach_rel: "txt_reach B tb text \<Longrightarrow> \<exists>ss cur. tb_rel B tb ss cur \<and> tb_text ss cur = text"
proof (induction rule: txt_reach.induct)
  case new
  show ?case
    by (intro exI [of _ "[]"] exI [of _ None]) (simp add: tb_rel_def txt_builder_new_def empty_ref tb_text_def)
next
  case (append_slice tb w s u tb')
  then show ?case using txt_append_slice_rel by blast
next
  case (append_u8 tb w ch u tb')
  then show ?case using txt_append_slice_rel unfolding txt_append_u8_def by blast
next
  case (append_charstr tb w s u tb')
  then show ?case using txt_append_charstr_rel by blast
next
  case (close_charstr tb w u tb')
  then obtain ss cur where r: "tb_rel B tb ss cur" "tb_text ss cur = w" by blast
  from txt_close_charstr_rel [OF r(1)] close_charstr(2)
  have "tb_rel B tb' (ss @ (case cur of None \<Rightarrow> [] | Some c \<Rightarrow> [c])) None" by auto
  with r(2) show ?case
    by (intro exI [of _ "ss @ (case cur of None \<Rightarrow> [] | Some c \<Rightarrow> [c])"] exI [of _ None]) (auto simp: tb_text_def split: option.split)
qed

lemma txt_finish_reach:
  assumes "txt_reach B tb text" "txt_finish B tb = Ok txt"
  shows "txt_ok txt \<and> (\<exists>ss. txt = charstrs_wire ss \<and> list_all charstr_ok ss \<and> concat ss = text)"
proof -
  from txt_reach_rel [OF assms(1)] obtain ss cur where r: "tb_rel B tb ss cur" "tb_text ss cur = text" by blast
  let ?ss = "ss @ (case cur of None \<Rightarrow> [] | Some c \<Rightarrow> [c])"
  from txt_close_charstr_rel [OF r(1)] obtain t1 where t1: "txt_close_charstr B tb = (Ok (), t1)" "tb_rel B t1 ?ss None" by blast
  from t1(2) have ref: "bo_as_ref B (tb_builder t1) = charstrs_wire ?ss" "list_all charstr_ok ?ss" "length (charstrs_wire ?ss) \<le> 65535"
    unfolding tb_rel_None by blast+
  have flat: "concat ?ss = text" using r(2) by (cases cur) (simp_all add: tb_text_def)
  show ?thesis
  proof (cases "charstrs_wire ?ss = []")
    case True
    then have nil: "?ss = []" by (cases ?ss) (simp_all add: charstr_wire_def)
    from True ref(1) assms(2) t1(1) obtain b u' where "bo_append B (tb_builder t1) [0] = (Ok u', b)" "txt = bo_as_ref B b"
      by (auto simp: txt_finish_def rmap_Ok_iff split: prod.splits)
    with append_Ok True ref(1) have "txt = [0]" by fastforce
    then have "txt = charstrs_wire [[]]" by (simp add: charstr_wire_def)
    moreover have "list_all charstr_ok [[]]" by (simp add: charstr_ok_def)
    moreover have "concat [[]] = text" using flat nil by simp
    moreover have "txt_ok txt" unfolding txt_ok_iff using calculation(1,2) \<open>txt = [0]\<close> by fastforce
    ultimately show ?thesis by blast
  next
    case False
    then have "bo_as_ref B (tb_builder t1) \<noteq> []" unfolding ref(1) .
    with assms(2) t1(1) have "txt = bo_as_ref B (tb_builder t1)" by (simp add: txt_finish_def)
    then have "txt = charstrs_wire ?ss" unfolding ref(1) .
    moreover from this have "txt \<noteq> []" "length txt \<le> 65535" using False ref(3) by simp_all
    ultimately show ?thesis unfolding txt_ok_iff using ref(2) flat by blast
  qed
qed

end

text \<open>A vector takes every slice whose strings fit into record data.\<close>

lemma vec_append_chunk:
  assumes "length (tb_builder tb) + Suc (length c) \<le> 65535"
  shows "txt_append_chunk vec_builder c tb = (Ok (), \<lparr>tb_builder = tb_builder tb @ of_nat (length c) # c,
    tb_start = if length c = 255 then None else Some (length (tb_builder tb))\<rparr>)"
proof -
  have "65535 < usize_MAX" by (simp add: usize_MAX_def)
  with assms show ?thesis
    by (simp add: txt_append_chunk_def builder_append_slice_def vec_builder_def check_append_len_def check_rdata_len_def sbind_def)
qed

lemma vec_append_chunks:
  assumes "length (tb_builder tb) + length (charstrs_wire (chunks255 s)) \<le> 65535"
  shows "\<exists>tb'. sfor (txt_append_chunk vec_builder) (chunks255 s) tb = (Ok (), tb')"
  using assms
proof (induction s arbitrary: tb rule: chunks255.induct)
  case (1 s)
  show ?case
  proof (cases "s = []")
    case True
    then show ?thesis by (simp add: chunks255.simps sreturn_def)
  next
    case False
    let ?c = "take 255 s"
    have chunks: "chunks255 s = ?c # chunks255 (drop 255 s)" using False by (simp add: chunks255.simps [of s])
    with 1(2) have len: "length (tb_builder tb) + Suc (length ?c) + length (charstrs_wire (chunks255 (drop 255 s))) \<le> 65535" by simp
    then have "length (tb_builder tb) + Suc (length ?c) \<le> 65535" by simp
    note st = vec_append_chunk [OF this]
    let ?tb = "\<lparr>tb_builder = tb_builder tb @ of_nat (length ?c) # ?c, tb_start = if length ?c = 255 then None else Some (length (tb_builder tb))\<rparr>"
    from 1(1) [OF False, of ?tb] len
    obtain tb' where "sfor (txt_append_chunk vec_builder) (chunks255 (drop 255 s)) ?tb = (Ok (), tb')" by auto
    with st show ?thesis unfolding chunks by (simp add: sbind_def)
  qed
qed

lemma length_chunks255: "length (charstrs_wire (chunks255 s)) = length s + (length s + 254) div 255"
proof (induction s rule: chunks255.induct)
  case (1 s)
  show ?case
  proof (cases "s = []")
    case True
    then show ?thesis by (simp add: chunks255.simps)
  next
    case False
    with 1 have "length (charstrs_wire (chunks255 s)) =
        Suc (min (length s) 255) + (length s - 255 + (length s - 255 + 254) div 255)" by (subst chunks255.simps) simp
    moreover have "0 < length s" using False by simp
    ultimately show ?thesis by (cases "length s \<le> 255") (auto simp: div_if)
  qed
qed

lemma txt_finish_text:
  assumes "octets_builder B" "octseq_parser P" "txt_reach B tb content" "txt_finish B tb = Ok txt"
  shows "txt_check_slice txt = Ok () \<and> txt_try_text vec_builder P txt = Ok content"
proof -
  from octets_builder.txt_finish_reach [OF assms(1,3,4)] obtain ss where
    ss: "txt_ok txt" "txt = charstrs_wire ss" "list_all charstr_ok ss" "concat ss = content" by blast
  have "compose_all (\<lambda>item b. bo_append vec_builder b item) ss b = (Ok (), b @ concat ss)" for b
    by (induction ss arbitrary: b) (simp_all add: vec_builder_def)
  with ss show ?thesis
    by (simp add: txt_ok_def txt_try_text_def octseq_parser.txt_iter_wire [OF assms(2) ss(3)] vec_builder_def)
qed

section \<open>Properties\<close>

text \<open>
  C16.  Reading back what \<open>Display\<close> or the unquoted format writes for a sequence of octets gives the octets if they are a character string, and
  otherwise the error that there are more than 255: whatever the octets, escapes included, and never another error.
\<close>

theorem charstr_presentation_roundtrip:
  "charstr_from_str vec_builder (charstr_display s) = (if length s \<le> 255 then Ok s else Err (CharStrPresentation LongString)) \<and>
   charstr_from_str vec_builder (charstr_display_unquoted s) = (if length s \<le> 255 then Ok s else Err (CharStrPresentation LongString))"
  unfolding charstr_display_def charstr_display_unquoted_def by (intro conjI charstr_from_display) simp_all

text \<open>
  C14.  Whatever slices, octets and character strings a \<open>TxtBuilder\<close> was given, and wherever strings were closed, finishing it gives correctly encoded
  TXT data whose text is the concatenation of all that was appended.
\<close>

theorem txt_builder_correct:
  assumes "octets_builder B" "octseq_parser P" "txt_reach B tb content" "txt_finish B tb = Ok txt"
  shows "txt_check_slice txt = Ok () \<and> txt_try_text vec_builder P txt = Ok content"
  by (rule txt_finish_text [OF assms])

theorem txt_builder_correct_witness:
  "txt_check_slice [2, 97, 98, 1, 99] = Ok () \<and> txt_try_text vec_builder slice_parser [2, 97, 98, 1, 99] = Ok [97, 98, 99]"
proof -
  let ?t0 = "txt_builder_new vec_builder"
  let ?t1 = "\<lparr>tb_builder = [1, 97], tb_start = Some 0\<rparr> :: octets txt_builder"
  let ?t2 = "\<lparr>tb_builder = [1, 97, 98], tb_start = Some 0\<rparr> :: octets txt_builder"
  let ?t3 = "\<lparr>tb_builder = [2, 97, 98, 1, 99], tb_start = None\<rparr> :: octets txt_builder"
  note defs = txt_builder_new_def vec_builder_def txt_append_u8_def txt_append_slice_def txt_append_chunk_def builder_append_slice_def
    check_append_len_def check_rdata_len_def usize_MAX_def chunks255.simps sbind_def sreturn_def Let_def txt_append_charstr_def
    txt_close_charstr_def tb_set_def charstr_compose_def charstr_compose_len_def then_compose_def compose_u8_def charstr_ok_def txt_finish_def
  have "txt_append_slice vec_builder [97] ?t0 = (Ok (), ?t1)" by (simp add: defs)
  with txt_reach.append_slice [OF txt_reach.new] have r1: "txt_reach vec_builder ?t1 [97]" by fastforce
  have "txt_append_u8 vec_builder 98 ?t1 = (Ok (), ?t2)" by (simp add: defs)
  with txt_reach.append_u8 [OF r1] have r2: "txt_reach vec_builder ?t2 [97, 98]" by fastforce
  have "txt_append_charstr vec_builder [99] ?t2 = (Ok (), ?t3)" by (simp add: defs)
  with txt_reach.append_charstr [OF r2, of "[99]"] have r3: "txt_reach vec_builder ?t3 [97, 98, 99]" by (simp add: charstr_ok_def)
  have "txt_finish vec_builder ?t3 = Ok [2, 97, 98, 1, 99]" by (simp add: defs)
  from txt_builder_correct [OF vec_builder.octets_builder_axioms slice_parser.octseq_parser_axioms r3 this] show ?thesis .
qed

text \<open>
  C15.  A slice whose text and length octets fit into record data is made into TXT data, and its text is the slice.
\<close>

theorem txt_build_from_slice_correct:
  assumes "octseq_parser P" "length s + (length s + 254) div 255 \<le> 65535"
  shows "\<exists>txt. txt_build_from_slice vec_builder s = Ok txt \<and> txt_check_slice txt = Ok () \<and> txt_try_text vec_builder P txt = Ok s"
proof -
  let ?new = "txt_builder_new vec_builder"
  have "length (tb_builder ?new) + length (charstrs_wire (chunks255 s)) \<le> 65535"
    using assms(2) by (simp add: length_chunks255 txt_builder_new_def vec_builder_def)
  from vec_append_chunks [OF this] obtain tb where tb: "txt_append_slice vec_builder s ?new = (Ok (), tb)"
    by (auto simp: txt_append_slice_def txt_builder_new_def)
  from txt_reach.append_slice [OF txt_reach.new tb] have r: "txt_reach vec_builder tb s" by simp
  from vec_builder.txt_reach_rel [OF r] vec_builder.txt_close_charstr_rel obtain t1 where "txt_close_charstr vec_builder tb = (Ok (), t1)"
    by blast
  moreover have "bo_append vec_builder b s = (Ok (), b @ s)" for b s by (simp add: vec_builder_def)
  ultimately obtain d where d: "txt_finish vec_builder tb = Ok d"
    by (cases "bo_as_ref vec_builder (tb_builder t1) = []") (simp_all add: txt_finish_def)
  with tb d txt_finish_text [OF vec_builder.octets_builder_axioms assms(1) r d] show ?thesis by (simp add: txt_build_from_slice_def)
qed

theorem txt_build_from_slice_correct_witness:
  "\<exists>txt. txt_build_from_slice vec_builder (replicate 300 7) = Ok txt \<and> txt_check_slice txt = Ok () \<and>
     txt_try_text vec_builder slice_parser txt = Ok (replicate 300 7)"
  by (rule txt_build_from_slice_correct [OF slice_parser.octseq_parser_axioms]) simp

text \<open>
  C38.  \<open>Txt::parse\<close> takes all that is left of the record data if it is a sequence of character strings, which are the ones that are then
  iterated over, and fails for short input otherwise; it never panics.  So it accepts what \<open>Txt::from_octets\<close> accepts and in addition
  the empty data, which \<open>from_octets\<close> and the documentation do not allow and on which, of all data, \<open>as_flat_slice\<close> panics.
\<close>

theorem txt_parse_correct:
  assumes "octseq_parser P" "parser_wf p"
  shows "txt_parse P p = (if \<exists>ss. list_all charstr_ok ss \<and> p_rest p = charstrs_wire ss
      then Ok (p_rest p, p_forward p (p_remaining p)) else Err ShortInputError) \<and>
    (\<forall>ss. list_all charstr_ok ss \<and> p_rest p = charstrs_wire ss \<longrightarrow> txt_iter_charstrs P (p_rest p) = (Ok ss :: (octets list, 'e) result)) \<and>
    (length (p_rest p) \<le> 65535 \<longrightarrow>
      ((\<exists>t p'. txt_parse P p = Ok (t, p')) \<longleftrightarrow> txt_from_octets (p_rest p) = Ok (p_rest p) \<or> p_rest p = [])) \<and>
    txt_from_octets [] = Err TxtEmpty \<and>
    (txt_as_flat_slice (p_rest p) = (Panic :: (octets option, 'e) result) \<longleftrightarrow> p_rest p = [])"
proof -
  let ?t = "p_rest p"
  note parse = octseq_parser.txt_parse_check [OF assms]
  have loop: "txt_check_loop ?t = Ok () \<longleftrightarrow> (\<exists>ss. list_all charstr_ok ss \<and> ?t = charstrs_wire ss)"
    using txt_check_loop_Ok [of ?t] txt_check_loop_wire by auto
  have "txt_from_octets ?t = Ok ?t \<longleftrightarrow> ?t \<noteq> [] \<and> txt_check_loop ?t = Ok ()" if "length ?t \<le> 65535"
    using that by (auto simp: txt_from_octets_def txt_check_slice_def check_rdata_len_def rbind_Ok_iff)
  moreover have "txt_check_loop [] = Ok ()" by (simp add: txt_check_loop.simps)
  ultimately have "length ?t \<le> 65535 \<Longrightarrow>
      (\<exists>t p'. txt_parse P p = Ok (t, p')) \<longleftrightarrow> txt_from_octets ?t = Ok ?t \<or> ?t = []"
    unfolding parse by auto
  moreover have "txt_as_flat_slice ?t = (Panic :: (octets option, 'e) result) \<longleftrightarrow> ?t = []"
    by (simp add: txt_as_flat_slice_def split: list.splits)
  moreover have "txt_from_octets [] = Err TxtEmpty" by (simp add: txt_from_octets_def txt_check_slice_def)
  moreover have "\<forall>ss. list_all charstr_ok ss \<and> ?t = charstrs_wire ss \<longrightarrow> txt_iter_charstrs P ?t = (Ok ss :: (octets list, 'e) result)"
    using octseq_parser.txt_iter_wire [OF assms(1)] by auto
  ultimately show ?thesis using parse [unfolded loop] by (intro conjI impI) simp_all
qed

theorem txt_parse_correct_witness:
  "txt_parse slice_parser \<lparr>p_octets = [9, 1, 97, 0], p_pos = 1, p_len = 4\<rparr> =
     Ok ([1, 97, 0], \<lparr>p_octets = [9, 1, 97, 0], p_pos = 4, p_len = 4\<rparr>) \<and>
   txt_iter_charstrs slice_parser [1, 97, 0] = (Ok [[97], []] :: (octets list, unit) result)"
proof -
  let ?p = "\<lparr>p_octets = [9, 1, 97, 0], p_pos = 1, p_len = 4\<rparr> :: parser"
  have rest: "parser_wf ?p" "p_rest ?p = charstrs_wire [[97], []]" "list_all charstr_ok [[97], []]"
    "p_forward ?p (p_remaining ?p) = ?p\<lparr>p_pos := 4\<rparr>"
    by (simp_all add: parser_wf_def p_rest_def charstr_wire_def charstr_ok_def p_forward_def p_remaining_def)
  then have "\<exists>ss. list_all charstr_ok ss \<and> p_rest ?p = charstrs_wire ss" by blast
  note c = txt_parse_correct [OF slice_parser.octseq_parser_axioms rest(1), where 'e = unit, unfolded if_P [OF this]]
  from conjunct1 [OF c] spec [OF conjunct1 [OF conjunct2 [OF c]], of "[[97], []]"] rest show ?thesis by (simp add: charstr_wire_def)
qed

end
