(* ===== verification/HashCompress.thy ===== *)
theory HashCompress
  imports Writing
begin

text \<open>
  \<open>HashCompressor\<close> of \<^verbatim>\<open>src/base/message_builder.rs\<close>, the compressor that keeps the names in a hash table and looks for
  them from the root outward.
\<close>

section \<open>The hash compressor\<close>

record hash_entry =
  he_head :: u16
  he_tail :: u16

text \<open>
  The hash table is \<open>hashbrown::HashTable\<close>, whose operations are parameters here, as is the hash
  that the hasher computes.  The closures passed to the table may panic.
\<close>

record 'h hash_table_ops =
  ht_new :: 'h
  ht_find :: "'h \<Rightarrow> 64 word \<Rightarrow> (hash_entry \<Rightarrow> (bool, unit) result) \<Rightarrow> (hash_entry option, unit) result"
  ht_insert_unique :: "64 word \<Rightarrow> hash_entry \<Rightarrow> (hash_entry \<Rightarrow> (64 word, unit) result) \<Rightarrow> ('h, unit, unit) step"
  ht_retain :: "(hash_entry \<Rightarrow> bool) \<Rightarrow> 'h \<Rightarrow> 'h"

type_synonym label_hasher = "label \<times> u16 \<Rightarrow> 64 word"

definition hash_entry_new :: "nat \<Rightarrow> nat \<Rightarrow> hash_entry option" where
  "hash_entry_new head tail =
     (if head < 0xC000 then Some \<lparr>he_head = of_nat head, he_tail = of_nat tail\<rparr> else None)"

definition hash_entry_head :: "hash_entry \<Rightarrow> octets \<Rightarrow> (label, unit) result" where
  "hash_entry_head e message =
     (if unat (he_head e) > length message then Panic
      else case split_from (drop (unat (he_head e)) message) of Ok (label, _) \<Rightarrow> Ok label | _ \<Rightarrow> Panic)"

definition hash_entry_hash :: "label_hasher \<Rightarrow> octets \<Rightarrow> hash_entry \<Rightarrow> (64 word, unit) result" where
  "hash_entry_hash hasher message e = rmap (\<lambda>head. hasher (head, he_tail e)) (hash_entry_head e message)"

definition hash_entry_eq :: "octets \<Rightarrow> label \<times> u16 \<Rightarrow> hash_entry \<Rightarrow> (bool, unit) result" where
  "hash_entry_eq message query e =
     rmap (\<lambda>head. label_eq head (fst query) \<and> he_tail e = snd query) (hash_entry_head e message)"

text \<open>
  The first loop goes through the labels from the back, as long as the name they make up is known.  It gives its position, the
  labels not looked at, still from the back, and the one that was not found.
\<close>

fun hash_lookup ::
    "'h hash_table_ops \<Rightarrow> label_hasher \<Rightarrow> octets \<Rightarrow> 'h \<Rightarrow> u16 \<Rightarrow> label list \<Rightarrow>
     (u16 \<times> label list \<times> label option, unit) result" where
  "hash_lookup H hasher message names position [] = Ok (position, [], None)"
| "hash_lookup H hasher message names position (label # name) =
     (case ht_find H names (hasher (label, position)) (hash_entry_eq message (label, position)) of
        Ok (Some entry) \<Rightarrow> hash_lookup H hasher message names (he_head entry) name
      | Ok None \<Rightarrow> Ok (position, name, Some label)
      | _ \<Rightarrow> Panic)"

definition hash_remember ::
    "'h hash_table_ops \<Rightarrow> label_hasher \<Rightarrow> 'b builder_ops \<Rightarrow> hash_entry \<Rightarrow> ('b, 'h) compressor target_step" where
  "hash_remember H hasher B entry s =
     (case hash_entry_hash hasher (bo_as_ref B (cp_target s)) entry of
        Ok hash \<Rightarrow>
          (case ht_insert_unique H hash entry (hash_entry_hash hasher (bo_as_ref B (cp_target s))) (cp_table s) of
             (Ok u, names) \<Rightarrow> (Ok (), s\<lparr>cp_table := names\<rparr>)
           | (_, names) \<Rightarrow> (Panic, s\<lparr>cp_table := names\<rparr>))
      | _ \<Rightarrow> (Panic, s))"

definition hash_truncate :: "'h hash_table_ops \<Rightarrow> nat \<Rightarrow> 'h \<Rightarrow> 'h" where
  "hash_truncate H len names =
     (if len < 0xC000 then ht_retain H (\<lambda>name. he_head name < of_nat len) names else names)"

text \<open>The second loop writes the labels that were not found.\<close>

fun hash_write ::
    "'h hash_table_ops \<Rightarrow> label_hasher \<Rightarrow> 'b builder_ops \<Rightarrow> u16 \<Rightarrow> label list \<Rightarrow> ('b, 'h) compressor target_step" where
  "hash_write H hasher B position [] s = (Ok (), s)"
| "hash_write H hasher B position (label # labels) s =
     (let S = compressor_builder (ht_new H) (hash_truncate H) B; head = length (bo_as_ref S s) in
      case (label_compose_len label :: (u16, unit) result) of
        Ok len \<Rightarrow>
          then_compose (label_compose S label)
            (then_compose
              (case hash_entry_new head (head + unat len) of
                 Some entry \<Rightarrow> hash_remember H hasher B (if labels = [] then entry\<lparr>he_tail := position\<rparr> else entry)
               | None \<Rightarrow> (\<lambda>s. (Ok (), s)))
              (hash_write H hasher B position labels)) s
      | _ \<Rightarrow> (Panic, s))"

declare hash_write.simps(2) [simp del]

definition hash_append_name ::
    "'h hash_table_ops \<Rightarrow> label_hasher \<Rightarrow> 'b builder_ops \<Rightarrow> label_view \<Rightarrow> ('b, 'h) compressor target_step" where
  "hash_append_name H hasher B name s =
     (let S = compressor_builder (ht_new H) (hash_truncate H) B in
      case lv_back name of
        [] \<Rightarrow> (Panic, s)
      | root # name \<Rightarrow>
          if \<not> label_is_root root then (Panic, s)
          else (case hash_lookup H hasher (bo_as_ref S s) (cp_table s) 0xFFFF name of
              Ok (position, name, last_label) \<Rightarrow>
                then_compose
                  (hash_write H hasher B position (rev name @ (case last_label of Some label \<Rightarrow> [label] | None \<Rightarrow> [])))
                  (if position \<noteq> 0xFFFF then compose_be S (position OR 0xC000) else label_compose S []) s
            | _ \<Rightarrow> (Panic, s)))"

definition hash_compressor ::
    "'h hash_table_ops \<Rightarrow> label_hasher \<Rightarrow> 'b builder_ops \<Rightarrow> ('b, 'h) compressor composer_ops" where
  "hash_compressor H hasher B =
     \<lparr>co_builder = compressor_builder (ht_new H) (hash_truncate H) B,
      co_append_name = hash_append_name H hasher B, co_can_compress = True\<rparr>"

section \<open>Names in the hash table\<close>

text \<open>
  The contract of the table: a search finds an entry of the table that the closure accepts, if any, and the other operations
  add or remove entries as they are told.
\<close>

locale hash_table =
  fixes H :: "'h hash_table_ops" and elems :: "'h \<Rightarrow> hash_entry set"
  assumes elems_new: "elems (ht_new H) = {}"
    and find_elem: "(\<And>e. e \<in> elems h \<Longrightarrow> \<exists>b. eq e = Ok b) \<Longrightarrow>
      ht_find H h hash eq = Ok None \<or> (\<exists>e. ht_find H h hash eq = Ok (Some e) \<and> e \<in> elems h \<and> eq e = Ok True)"
    and insert_elem: "(\<And>e. e \<in> Set.insert x (elems h) \<Longrightarrow> \<exists>k. hasher e = Ok k) \<Longrightarrow>
      \<exists>h'. ht_insert_unique H hash x hasher h = (Ok (), h') \<and> elems h' \<subseteq> Set.insert x (elems h)"
    and retain_elems: "elems (ht_retain H P h) \<subseteq> {e \<in> elems h. P e}"

text \<open>An entry has a label at its head; it is right if the name it stands for is there.\<close>

definition entry_label :: "nat set \<Rightarrow> octets \<Rightarrow> hash_entry \<Rightarrow> label \<Rightarrow> bool" where
  "entry_label W m e l \<longleftrightarrow> valid_label l \<and> W \<inter> {unat (he_head e)..<unat (he_head e) + Suc (length l)} = {} \<and>
     unat (he_head e) \<le> length m \<and> (\<exists>rest. drop (unat (he_head e)) m = wire_label l @ rest)"

definition entry_right :: "nat set \<Rightarrow> octets \<Rightarrow> hash_entry \<Rightarrow> bool" where
  "entry_right W m e \<longleftrightarrow> (\<exists>l ls. entry_label W m e l \<and> named W m (unat (he_head e)) (l # ls) \<and>
     (if he_tail e = 0xFFFF then ls = [[]] else named W m (unat (he_tail e)) ls))"

definition hash_tidy :: "('h \<Rightarrow> hash_entry set) \<Rightarrow> 'h \<Rightarrow> bool" where
  "hash_tidy elems h \<longleftrightarrow> (\<forall>e \<in> elems h. he_head e < 0xC000)"

lemma entry_label_free:
  assumes "entry_label W m e l" "W' \<inter> {..<length m} \<subseteq> W"
  shows "entry_label W' (m @ ys) e l"
proof -
  from assms(1) obtain rest where "drop (unat (he_head e)) m = wire_label l @ rest" by (auto simp: entry_label_def)
  from arg_cong [OF this, of length] assms(1) have "unat (he_head e) + Suc (length l) \<le> length m"
    by (auto simp: entry_label_def)
  then have "{unat (he_head e)..<unat (he_head e) + Suc (length l)} \<subseteq> {..<length m}" by auto
  with assms(2) have "W' \<inter> {unat (he_head e)..<unat (he_head e) + Suc (length l)} \<subseteq>
      W \<inter> {unat (he_head e)..<unat (he_head e) + Suc (length l)}" by blast
  with assms(1) show ?thesis by (auto simp: entry_label_def)
qed

lemma entry_label_mono: "entry_label W m e l \<Longrightarrow> entry_label W (m @ ys) e l"
  by (erule entry_label_free) simp

lemma entry_label_agree:
  assumes "entry_label W m e l" "agree W m m'"
  shows "entry_label W m' e l"
proof -
  let ?h = "unat (he_head e)" and ?k = "Suc (length l)"
  from assms(1) obtain rest where "drop ?h m = wire_label l @ rest" by (auto simp: entry_label_def)
  then have "take ?k (drop ?h m') = wire_label l"
    using agree_slice [OF assms(2), of ?h ?k] assms(1) by (simp add: entry_label_def)
  then have "drop ?h m' = wire_label l @ drop ?k (drop ?h m')" by (metis append_take_drop_id)
  with assms show ?thesis by (auto simp: entry_label_def agree_def)
qed

lemma entry_head: "entry_label W m e l \<Longrightarrow> hash_entry_head e m = Ok l"
  by (auto simp: entry_label_def hash_entry_head_def)

lemma entry_right_free: "entry_right W m e \<Longrightarrow> W' \<inter> {..<length m} \<subseteq> W \<Longrightarrow> entry_right W' (m @ ys) e"
  unfolding entry_right_def by (meson entry_label_free named_free)

lemma entry_right_mono: "entry_right W m e \<Longrightarrow> entry_right W (m @ ys) e"
  by (erule entry_right_free) simp

lemma entry_right_pos: "entry_right W m e \<Longrightarrow> unat (he_head e) < length m"
  by (auto simp: entry_right_def dest: named_bound)

lemma entry_right_agree: "entry_right W m e \<Longrightarrow> agree W m m' \<Longrightarrow> entry_right W m' e"
  unfolding entry_right_def by (meson entry_label_agree named_agree)

locale hash_on = target_on B J + hash_table H elems
  for B :: "'b builder_ops" and J and H :: "'h hash_table_ops" and elems

sublocale hash_on \<subseteq> compressor_on B J "hash_truncate H" "ht_new H" "hash_tidy elems" elems
    "\<lambda>e. unat (he_head e)" entry_right
proof unfold_locales
  fix T n
  show "hash_tidy elems T \<Longrightarrow> hash_tidy elems (hash_truncate H n T) \<and>
      elems (hash_truncate H n T) \<subseteq> {c \<in> elems T. unat (he_head c) < n}"
    using retain_elems [of "\<lambda>e. he_head e < of_nat n" T]
    by (cases "n < 0xC000") (auto simp: hash_truncate_def hash_tidy_def word_less_nat_alt unat_of_nat)
qed (fact entry_right_free entry_right_pos entry_right_agree | simp add: elems_new hash_tidy_def)+

text \<open>The position of the labels found so far: their name is there, or they are just the root.\<close>

definition position_of :: "nat set \<Rightarrow> octets \<Rightarrow> u16 \<Rightarrow> label list \<Rightarrow> bool" where
  "position_of W m position ls \<longleftrightarrow>
     (if position = 0xFFFF then ls = [[]]
      else \<exists>ls'. named W m (unat position) ls' \<and> canonical_labels ls' = canonical_labels ls)"

context hash_on
begin

lemma find_entry:
  assumes "\<And>e. e \<in> elems h \<Longrightarrow> entry_right W m e" "position_of W m position ls" "length m \<le> 0xFFFF"
  shows "ht_find H h hash (hash_entry_eq m (l, position)) = Ok None \<or>
    (\<exists>e. ht_find H h hash (hash_entry_eq m (l, position)) = Ok (Some e) \<and> position_of W m (he_head e) (l # ls))"
proof -
  have "\<exists>b. hash_entry_eq m (l, position) e = Ok b" if "e \<in> elems h" for e
    using assms(1) [OF that] entry_head by (fastforce simp: entry_right_def hash_entry_eq_def)
  from find_elem [where h = h and hash = hash and eq = "hash_entry_eq m (l, position)", OF this] consider
    (none) "ht_find H h hash (hash_entry_eq m (l, position)) = Ok None"
    | (some) e where "ht_find H h hash (hash_entry_eq m (l, position)) = Ok (Some e)" "e \<in> elems h"
      "hash_entry_eq m (l, position) e = Ok True"
    by blast
  then show ?thesis
  proof cases
    case some
    from assms(1) [OF some(2)] obtain l' ns where e: "entry_label W m e l'" "named W m (unat (he_head e)) (l' # ns)"
      "if he_tail e = 0xFFFF then ns = [[]] else named W m (unat (he_tail e)) ns" by (auto simp: entry_right_def)
    with some(3) have "label_eq l' l" "he_tail e = position" by (simp_all add: hash_entry_eq_def entry_head)
    with e(3) assms(2) have "canonical_labels ns = canonical_labels ls" "label_make_canonical l' = label_make_canonical l"
      by (auto simp: position_of_def label_eq_canonical dest: named_unique split: if_splits)
    moreover have "he_head e \<noteq> 0xFFFF" using named_bound [OF e(2)] assms(3) by auto
    ultimately show ?thesis using some(1) e(2) by (auto simp: position_of_def)
  qed simp
qed

lemma hash_lookup_correct:
  assumes "\<And>e. e \<in> elems h \<Longrightarrow> entry_right W m e" "position_of W m position ls" "length m \<le> 0xFFFF"
  shows "\<exists>pos js last done. hash_lookup H hasher m h position name = Ok (pos, js, last) \<and>
    name = done @ (case last of Some l \<Rightarrow> [l] | None \<Rightarrow> []) @ js \<and> position_of W m pos (rev done @ ls) \<and>
    (done = [] \<longrightarrow> pos = position)"
  using assms(2)
proof (induction name arbitrary: position ls)
  case (Cons l name)
  from find_entry [OF assms(1) Cons.prems assms(3), where h = h and hash = "hasher (l, position)" and l = l] consider
    (none) "ht_find H h (hasher (l, position)) (hash_entry_eq m (l, position)) = Ok None"
    | (some) e where "ht_find H h (hasher (l, position)) (hash_entry_eq m (l, position)) = Ok (Some e)"
      "position_of W m (he_head e) (l # ls)" by blast
  then show ?case
  proof cases
    case none
    then show ?thesis using Cons.prems by (intro exI [of _ position] exI [of _ name] exI [of _ "Some l"] exI [of _ "[]"]) simp
  next
    case (some e)
    from Cons.IH [OF some(2)] obtain pos js last "done" where
      "hash_lookup H hasher m h (he_head e) name = Ok (pos, js, last)"
      "name = done @ (case last of Some l \<Rightarrow> [l] | None \<Rightarrow> []) @ js" "position_of W m pos (rev done @ l # ls)"
      by blast
    with some(1) show ?thesis
      by (intro exI [of _ pos] exI [of _ js] exI [of _ last] exI [of _ "l # done"]) simp
  qed
qed (auto intro: exI [of _ "[]"])

lemma hash_remember_ok:
  assumes "\<And>e'. e' \<in> Set.insert e (elems (cp_table s)) \<Longrightarrow> \<exists>l. entry_label W (bo_as_ref B (cp_target s)) e' l"
  shows "\<exists>h. hash_remember H hasher B e s = (Ok (), s\<lparr>cp_table := h\<rparr>) \<and> elems h \<subseteq> Set.insert e (elems (cp_table s))"
proof -
  let ?m = "bo_as_ref B (cp_target s)"
  have ok: "\<exists>k. hash_entry_hash hasher ?m e' = Ok k" if "e' \<in> Set.insert e (elems (cp_table s))" for e'
    using assms [OF that] by (auto simp: hash_entry_hash_def entry_head)
  then obtain k where "hash_entry_hash hasher ?m e = Ok k" by blast
  with insert_elem [where x = e and h = "cp_table s" and hash = k and hasher = "hash_entry_hash hasher ?m", OF ok]
  show ?thesis by (auto simp: hash_remember_def)
qed

end

text \<open>The entry that the second loop adds for a label.\<close>

definition new_entry :: "nat \<Rightarrow> label \<Rightarrow> u16 \<Rightarrow> label list \<Rightarrow> hash_entry" where
  "new_entry head l position js =
     \<lparr>he_head = of_nat head, he_tail = if js = [] then position else of_nat (head + Suc (length l))\<rparr>"

definition tail_named :: "nat set \<Rightarrow> octets \<Rightarrow> u16 \<Rightarrow> label list \<Rightarrow> bool" where
  "tail_named W m position ns \<longleftrightarrow>
     (if position = 0xFFFF then ns = [[]] else named W m (unat position) ns \<and> unat position < 0x4000)"

lemma tail_named_mono: "tail_named W m position ns \<Longrightarrow> tail_named W (m @ ys) position ns"
  by (auto simp: tail_named_def intro: named_mono)

lemma new_entry_label:
  assumes "valid_label l" "length m < 0xC000" "W \<subseteq> {..<length m}"
  shows "entry_label W (m @ wire_label l) (new_entry (length m) l position js) l"
  using assms below_disjoint [OF assms(3)] by (simp add: entry_label_def new_entry_def unat_of_nat)

lemma new_entry_right:
  assumes "named W (m @ wire_label l @ ys) (length m + Suc (length l)) (js @ ns)" "tail_named W m position ns"
    and "valid_label l" "l \<noteq> []" "W \<subseteq> {..<length m}" "length m + Suc (length l) \<le> 0x4000"
  shows "entry_right W (m @ wire_label l @ ys) (new_entry (length m) l position js)"
proof -
  let ?e = "new_entry (length m) l position js" and ?m = "m @ wire_label l @ ys"
  have head: "unat (he_head ?e) = length m" using assms(6) by (simp add: new_entry_def unat_of_nat)
  have "entry_label W ?m ?e l"
    using entry_label_mono [OF new_entry_label [OF assms(3) _ assms(5), where position = position and js = js], where ys = ys]
      assms(6) by simp
  moreover have "named W ?m (unat (he_head ?e)) (l # js @ ns)"
    unfolding head using assms(1,3-5) by (intro named_label) (simp_all add: below_disjoint)
  moreover have "if he_tail ?e = 0xFFFF then js @ ns = [[]] else named W ?m (unat (he_tail ?e)) (js @ ns)"
  proof (cases "js = []")
    case True
    with tail_named_mono [OF assms(2), of "wire_label l @ ys"] show ?thesis
      by (simp add: tail_named_def new_entry_def split: if_splits)
  next
    case False
    have "unat (of_nat x :: u16) = x" if "x \<le> 0x4000" for x using that by (simp add: unat_of_nat)
    from this [OF assms(6)] False have "unat (he_tail ?e) = length m + Suc (length l)"
      unfolding new_entry_def by (simp del: of_nat_add of_nat_Suc)
    moreover from this assms(6) have "he_tail ?e \<noteq> 0xFFFF" by auto
    ultimately show ?thesis using assms(1) by simp
  qed
  ultimately show ?thesis unfolding entry_right_def by blast
qed

text \<open>What writing the labels and then the end of the name, \<open>bs\<close>, leaves.\<close>

definition hash_post ::
    "'b builder_ops \<Rightarrow> ('b \<Rightarrow> bool) \<Rightarrow> ('h \<Rightarrow> hash_entry set) \<Rightarrow> nat set \<Rightarrow> octets \<Rightarrow> label list \<Rightarrow> ('b, 'h) compressor \<Rightarrow> label list \<Rightarrow>
     (unit, append_error) result \<Rightarrow> ('b, 'h) compressor \<Rightarrow> bool" where
  "hash_post B J elems W bs ns s js r s' \<longleftrightarrow> J (cp_target s') \<and> hash_tidy elems (cp_table s') \<and> r \<noteq> Panic \<and>
     (\<forall>e \<in> elems (cp_table s').
       e \<in> elems (cp_table s) \<or> length (bo_as_ref B (cp_target s)) \<le> unat (he_head e)) \<and>
     (\<exists>ys. bo_as_ref B (cp_target s') = bo_as_ref B (cp_target s) @ ys \<and>
       (\<forall>u. r = Ok u \<longrightarrow> ys = wire js @ bs \<and>
         named W (bo_as_ref B (cp_target s')) (length (bo_as_ref B (cp_target s))) (js @ ns) \<and>
         (\<forall>e \<in> elems (cp_table s'). e \<in> elems (cp_table s) \<or> entry_right W (bo_as_ref B (cp_target s')) e)))"

context hash_on
begin

abbreviation hash_builder :: "('b, 'h) compressor builder_ops" where
  "hash_builder \<equiv> compressor_builder (ht_new H) (hash_truncate H) B"

lemma hash_write_Cons:
  assumes "valid_label l" "length (bo_as_ref B (cp_target s)) < 0xC000"
  shows "hash_write H hasher B position (l # js) s =
    then_compose (label_compose hash_builder l)
      (then_compose (hash_remember H hasher B (new_entry (length (bo_as_ref B (cp_target s))) l position js))
        (hash_write H hasher B position js)) s"
  using assms label_compose_len_valid(1) [where 'a = unit, OF assms(1)] label_compose_len_valid(2) [OF assms(1)]
  by (simp add: hash_write.simps(2) Let_def hash_entry_new_def new_entry_def)

lemma hash_post_Cons:
  assumes post: "hash_post B J elems W bs ns s2 js r s'"
    and s2: "bo_as_ref B (cp_target s2) = bo_as_ref B (cp_target s) @ wire_label l"
      "elems (cp_table s2) \<subseteq> Set.insert (new_entry (length (bo_as_ref B (cp_target s))) l position js) (elems (cp_table s))"
    and s: "tail_named W (bo_as_ref B (cp_target s)) position ns" "valid_label l" "l \<noteq> []"
      "W \<subseteq> {..<length (bo_as_ref B (cp_target s))}" "length (bo_as_ref B (cp_target s)) + Suc (length l) \<le> 0x4000"
  shows "hash_post B J elems W bs ns s (l # js) r s'"
proof -
  let ?m = "bo_as_ref B (cp_target s)" and ?e = "new_entry (length (bo_as_ref B (cp_target s))) l position js"
  from post obtain ys where ys: "bo_as_ref B (cp_target s') = ?m @ wire_label l @ ys"
    and ok: "\<And>u. r = Ok u \<Longrightarrow> ys = wire js @ bs \<and>
         named W (bo_as_ref B (cp_target s')) (length ?m + Suc (length l)) (js @ ns) \<and>
         (\<forall>e \<in> elems (cp_table s'). e \<in> elems (cp_table s2) \<or> entry_right W (bo_as_ref B (cp_target s')) e)"
    unfolding hash_post_def s2 by auto
  have head: "unat (he_head ?e) = length ?m" using s(5) by (simp add: new_entry_def unat_of_nat)
  have "entry_right W (bo_as_ref B (cp_target s')) ?e" if "r = Ok u" for u
    using conjunct1 [OF conjunct2 [OF ok [OF that]]] s unfolding ys by (intro new_entry_right)
  moreover have "named W (bo_as_ref B (cp_target s')) (length ?m) (l # js @ ns)" if "r = Ok u" for u
    using conjunct1 [OF conjunct2 [OF ok [OF that]]] s(2-4) by (intro named_label) (simp_all add: ys below_disjoint)
  moreover have "e \<in> elems (cp_table s) \<or> length ?m \<le> unat (he_head e)" if "e \<in> elems (cp_table s')" for e
    using post that s2 head unfolding hash_post_def by fastforce
  ultimately show ?thesis
    using post ok ys s2(2) unfolding hash_post_def by (intro conjI ballI exI [of _ "wire_label l @ ys"] allI impI) fastforce+
qed

lemma hash_write_correct:
  assumes fin: "\<And>T. appends_on hash_builder (\<lambda>s. J (cp_target s) \<and> cp_table s = T) fin bs"
    and bs: "\<And>m. W \<subseteq> {..<length m} \<Longrightarrow> tail_named W m position ns \<Longrightarrow> named W (m @ bs) (length m) ns"
    and s: "J (cp_target s)" "hash_tidy elems (cp_table s)" "rel_labels js" "W \<subseteq> {..<length (bo_as_ref B (cp_target s))}"
      "length (bo_as_ref B (cp_target s)) + length (wire js) \<le> 0x4000" "tail_named W (bo_as_ref B (cp_target s)) position ns"
      "\<And>e. e \<in> elems (cp_table s) \<Longrightarrow> \<exists>l. entry_label W (bo_as_ref B (cp_target s)) e l"
    and run: "then_compose (hash_write H hasher B position js) fin s = (r, s')"
  shows "hash_post B J elems W bs ns s js r s'"
  using s run
proof (induction js arbitrary: s)
  case Nil
  then have "fin s = (r, s')" by (simp add: then_compose_def)
  from appends_onD [OF fin [of "cp_table s"] _ this] Nil.prems bs show ?case by (auto simp: hash_post_def)
next
  case (Cons l js)
  let ?m = "bo_as_ref B (cp_target s)"
  let ?e = "new_entry (length ?m) l position js"
  have l: "valid_label l" "l \<noteq> []" "rel_labels js" using Cons.prems(3) by simp_all
  have len: "length ?m + Suc (length l) + length (wire js) \<le> 0x4000" using Cons.prems(5) by simp
  obtain r1 s1 where s1: "label_compose hash_builder l s = (r1, s1)" by fastforce
  note d = appends_onD [OF append_on.appends_on_label [OF compressor_append_on [of "cp_table s"]] _ s1, simplified,
      OF Cons.prems(1)]
  show ?case
  proof (cases r1)
    case (Ok u)
    with d have ref: "bo_as_ref B (cp_target s1) = ?m @ wire_label l" and tab: "cp_table s1 = cp_table s" by auto
    have lab: "\<exists>l'. entry_label W (bo_as_ref B (cp_target s1)) e' l'" if "e' \<in> Set.insert ?e (elems (cp_table s1))" for e'
      using that Cons.prems(7) [of e'] new_entry_label [OF l(1) _ Cons.prems(4), of position js] entry_label_mono len
      unfolding ref tab by fastforce
    from hash_remember_ok [OF lab] obtain h where
      h: "hash_remember H hasher B ?e s1 = (Ok (), s1\<lparr>cp_table := h\<rparr>)" "elems h \<subseteq> Set.insert ?e (elems (cp_table s))"
      unfolding tab by blast
    have "then_compose (hash_write H hasher B position js) fin (s1\<lparr>cp_table := h\<rparr>) = (r, s')"
      using Cons.prems(8) Ok s1 h(1) len by (simp add: then_compose_def [abs_def] hash_write_Cons l)
    moreover have "hash_tidy elems h"
      using h(2) Cons.prems(2) len by (fastforce simp: hash_tidy_def new_entry_def word_less_nat_alt unat_of_nat)
    ultimately have "hash_post B J elems W bs ns (s1\<lparr>cp_table := h\<rparr>) js r s'"
      using d Ok ref len l Cons.prems(4) tail_named_mono [OF Cons.prems(6)] lab h(2) unfolding tab
      by (intro Cons.IH) auto
    then show ?thesis by (rule hash_post_Cons) (use ref h(2) Cons.prems(4,6) l len in simp_all)
  next
    case (Err e)
    with Cons.prems(8) s1 len have "r = Err e" "s' = s1" by (simp_all add: hash_write_Cons l then_compose_def)
    with d Cons.prems(2) show ?thesis by (auto simp: hash_post_def)
  qed (use d in simp)
qed

lemma position_tail:
  assumes "position_of W m position (rs @ [[]])" "rs = [] \<longrightarrow> position = 0xFFFF" "length m \<le> 0x4000" "rel_labels rs"
  obtains ns bs where "tail_named W m position ns" "canonical_labels ns = canonical_labels (rs @ [[]])"
    "length bs \<le> length (wire (rs @ [[]]))" "name_octets bs"
    "\<And>m'. W \<subseteq> {..<length m'} \<Longrightarrow> tail_named W m' position ns \<Longrightarrow> named W (m' @ bs) (length m') ns"
    "\<And>T. appends_on hash_builder (\<lambda>s. J (cp_target s) \<and> cp_table s = T)
      (if position \<noteq> 0xFFFF then compose_be hash_builder (position OR 0xC000) else label_compose hash_builder []) bs"
proof (cases "position = 0xFFFF")
  case True
  have "rs = []" using assms(1) True by (simp add: position_of_def)
  then show thesis
    using that [of "[[]]" "[0]"] True append_on.appends_on_label [OF compressor_append_on, where l = "[]"]
      name_octets_wire [of "[[]]"] named_root [of W _ "[]"] by (simp add: tail_named_def abs_labels_Cons)
next
  case False
  with assms(1) obtain ns where ns: "named W m (unat position) ns" "canonical_labels ns = canonical_labels (rs @ [[]])"
    by (auto simp: position_of_def)
  from False assms(2) obtain r rs' where "rs = r # rs'" by (cases rs) auto
  then have "2 \<le> length (wire (rs @ [[]]))" by simp
  moreover have "named W (m' @ to_be_bytes (position OR 0xC000)) (length m') ns"
    if "W \<subseteq> {..<length m'}" "tail_named W m' position ns" for m'
    using that named_pointer [of W m' "unat position" ns] False by (simp add: tail_named_def)
  ultimately show thesis
    using that [of ns "to_be_bytes (position OR 0xC000)"] False ns assms(3)
      append_on.appends_on_be [OF compressor_append_on, where v = "position OR 0xC000"] name_octets_pointer
    using named_bound [OF ns(1)] by (simp add: tail_named_def)
qed

lemma hash_post_compress:
  assumes post: "hash_post B J elems W bs ns s ws r s'"
    and right: "\<And>e. e \<in> elems (cp_table s) \<Longrightarrow> entry_right W (bo_as_ref B (cp_target s)) e"
    and ws: "rel_labels ws" "name_octets bs" "length (wire ws @ bs) \<le> length (wire ls)"
      "canonical_labels (ws @ ns) = canonical_labels ls"
  shows "compress_post B J (hash_tidy elems) elems (\<lambda>e. unat (he_head e)) entry_right W s ls r s'"
proof -
  from post obtain ys where ys: "bo_as_ref B (cp_target s') = bo_as_ref B (cp_target s) @ ys"
    and ok: "\<And>u. r = Ok u \<Longrightarrow> ys = wire ws @ bs \<and>
      named W (bo_as_ref B (cp_target s')) (length (bo_as_ref B (cp_target s))) (ws @ ns) \<and>
      (\<forall>e \<in> elems (cp_table s'). e \<in> elems (cp_table s) \<or> entry_right W (bo_as_ref B (cp_target s')) e)"
    unfolding hash_post_def by blast
  have "length ys \<le> length (wire ls) \<and> name_octets ys \<and>
      (\<forall>e \<in> elems (cp_table s'). entry_right W (bo_as_ref B (cp_target s')) e) \<and>
      (\<exists>ls'. named W (bo_as_ref B (cp_target s')) (length (bo_as_ref B (cp_target s))) ls' \<and>
        canonical_labels ls' = canonical_labels ls)" if "r = Ok u" for u
    using ok [OF that] ws name_octets_labels [OF ws(1,2)] entry_right_mono [OF right] unfolding ys by blast
  with post ys show ?thesis unfolding hash_post_def compress_post_def by blast
qed

lemma hash_append_name_correct:
  assumes v: "view_ok v" "abs_labels (lv_labels v)" and good: "compressor_good B J (hash_tidy elems) elems entry_right W s"
    and len: "W \<subseteq> {..<length (bo_as_ref B (cp_target s))}"
      "length (bo_as_ref B (cp_target s)) + length (wire (lv_labels v)) \<le> 0x4000"
    and run: "hash_append_name H hasher B v s = (r, s')"
  shows "compress_post B J (hash_tidy elems) elems (\<lambda>e. unat (he_head e)) entry_right W s (lv_labels v) r s'"
proof -
  let ?m = "bo_as_ref B (cp_target s)"
  from v(2) obtain ms where ms: "lv_labels v = ms @ [[]]" "rel_labels ms" by (auto simp: abs_labels_iff)
  have right: "entry_right W ?m e" if "e \<in> elems (cp_table s)" for e using good that by (simp add: compressor_good_def)
  have "position_of W ?m 0xFFFF [[]]" "length ?m \<le> 0xFFFF" using len(2) by (simp_all add: position_of_def)
  from hash_lookup_correct [OF right this, where hasher = hasher and name = "rev ms"] obtain pos js last "done" where
    look: "hash_lookup H hasher ?m (cp_table s) 0xFFFF (rev ms) = Ok (pos, js, last)"
    and rev: "rev ms = done @ (case last of Some l \<Rightarrow> [l] | None \<Rightarrow> []) @ js"
    and pos: "position_of W ?m pos (rev done @ [[]])" "done = [] \<longrightarrow> pos = 0xFFFF" by blast
  define ws where "ws = rev js @ (case last of Some l \<Rightarrow> [l] | None \<Rightarrow> [])"
  have ws: "ms = ws @ rev done" using arg_cong [OF rev, of List.rev] by (simp add: ws_def split: option.splits)
  then have rel: "rel_labels ws" "rel_labels (rev done)" using ms(2) by simp_all
  obtain ns bs where ns: "tail_named W ?m pos ns" "canonical_labels ns = canonical_labels (rev done @ [[]])"
    "length bs \<le> length (wire (rev done @ [[]]))" "name_octets bs"
    and bs: "\<And>m'. W \<subseteq> {..<length m'} \<Longrightarrow> tail_named W m' pos ns \<Longrightarrow> named W (m' @ bs) (length m') ns"
      "\<And>T. appends_on hash_builder (\<lambda>s. J (cp_target s) \<and> cp_table s = T)
        (if pos \<noteq> 0xFFFF then compose_be hash_builder (pos OR 0xC000) else label_compose hash_builder []) bs"
    using position_tail [OF pos(1) _ _ rel(2)] pos(2) len(2) by auto
  have "lv_back v = [] # rev ms" using view_okD(2) [OF v(1)] ms(1) by simp
  then have "then_compose (hash_write H hasher B pos ws)
      (if pos \<noteq> 0xFFFF then compose_be hash_builder (pos OR 0xC000) else label_compose hash_builder []) s = (r, s')"
    using run look by (simp add: hash_append_name_def Let_def label_is_root_def ws_def)
  then have "hash_post B J elems W bs ns s ws r s'"
    using good len ns(1) rel(1) right ms(1) ws
    by (intro hash_write_correct [OF bs(2,1)]) (auto simp: compressor_good_def entry_right_def)
  then show ?thesis by (rule hash_post_compress) (use right rel(1) ns ms(1) ws in simp_all)
qed

lemma hash_composer_on:
  "composer (hash_compressor H hasher B) (compressor_good B J (hash_tidy elems) elems entry_right)
     (compressor_cut B J (hash_tidy elems) elems (\<lambda>e. unat (he_head e)) entry_right) 0x4000"
  unfolding hash_compressor_def by (rule compressor_composer) (rule hash_append_name_correct)

end

context octets_target
begin

lemma target_on_True: "target_on B (\<lambda>_. True)"
  by (rule on.target_on_axioms)

end

section \<open>A hash table\<close>

text \<open>
  The entries in a list, searched from the front: a table that satisfies the contract, whatever the hashes.
\<close>

fun list_find :: "(hash_entry \<Rightarrow> (bool, unit) result) \<Rightarrow> hash_entry list \<Rightarrow> (hash_entry option, unit) result" where
  "list_find eq [] = Ok None"
| "list_find eq (e # es) =
     (case eq e of Ok True \<Rightarrow> Ok (Some e) | Ok False \<Rightarrow> list_find eq es | Err _ \<Rightarrow> Panic | Panic \<Rightarrow> Panic)"

definition list_table :: "hash_entry list hash_table_ops" where
  "list_table = \<lparr>ht_new = [], ht_find = (\<lambda>es hash eq. list_find eq es),
     ht_insert_unique = (\<lambda>hash e hasher es. (Ok (), e # es)), ht_retain = filter\<rparr>"

interpretation list_table: hash_table list_table set
proof
  fix es :: "hash_entry list" and eq :: "hash_entry \<Rightarrow> (bool, unit) result" and hash
  assume "\<And>e. e \<in> set es \<Longrightarrow> \<exists>b. eq e = Ok b"
  then have "list_find eq es = Ok None \<or> (\<exists>e. list_find eq es = Ok (Some e) \<and> e \<in> set es \<and> eq e = Ok True)"
  proof (induction es)
    case (Cons e es)
    from Cons.prems [of e] obtain b where "eq e = Ok b" by auto
    with Cons show ?case by (cases b) auto
  qed simp
  then show "ht_find list_table es hash eq = Ok None \<or>
      (\<exists>e. ht_find list_table es hash eq = Ok (Some e) \<and> e \<in> set es \<and> eq e = Ok True)"
    by (simp add: list_table_def)
qed (auto simp: list_table_def)

interpretation vec_hash: hash_on vec_builder "\<lambda>_. True" list_table set
  by (rule hash_on.intro [OF vec_builder.on.target_on_axioms list_table.hash_table_axioms])

section \<open>Properties\<close>

text \<open>
  C4.  Appending names to a message through a hash compressor does not panic, and if it succeeds the names are read back from where
  they were written, one after the other and up to the end of the message.  This holds for every hash table that satisfies the contract
  and whatever the hasher: the entries refer to their labels and tails in the message, and a pointer is only written to a name
  that is equal up to the case of letters.  It holds for messages of up to 0x4000 octets.
\<close>

theorem hash_compressor_reads_back:
  assumes "octseq_parser P" "octets_target B" "hash_table H elems"
    and "\<And>v. v \<in> set vs \<Longrightarrow> view_ok v \<and> abs_labels (lv_labels v)"
    and "length (bo_as_ref B t) + (\<Sum>v\<leftarrow>vs. length (wire (lv_labels v))) \<le> 0x4000"
    and "compose_all (co_append_name (hash_compressor H hasher B)) vs \<lparr>cp_target = t, cp_table = ht_new H\<rparr> = (r, s)"
  shows "r \<noteq> Panic \<and> (r = Ok () \<longrightarrow> reads_back P (bo_as_ref B t) (bo_as_ref B (cp_target s)) vs)"
proof -
  have on: "hash_on B (\<lambda>_. True) H elems"
    by (rule hash_on.intro [OF octets_target.target_on_True [OF assms(2)] assms(3)])
  have "co_ref (hash_compressor H hasher B) s = bo_as_ref B (cp_target s)" for s
    by (simp add: hash_compressor_def compressor_builder_def)
  with composer.names_read_back [OF hash_on.hash_composer_on [OF on] assms(1) _ assms(4) _ assms(6)] assms(5)
  show ?thesis using hash_table.elems_new [OF assms(3)] by (simp add: compressor_good_def hash_tidy_def)
qed

lemma hash_example:
  "compose_all (co_append_name (hash_compressor list_table (\<lambda>_. 0) vec_builder)) [example_view, example_view]
     \<lparr>cp_target = replicate 12 0, cp_table = ht_new list_table\<rparr> =
   (Ok (), \<lparr>cp_target = replicate 12 0 @ [1, 97, 0, 0xC0, 12],
      cp_table = [\<lparr>he_head = 12, he_tail = 0xFFFF\<rparr>]\<rparr>)"
  by (simp add: hash_compressor_def hash_append_name_def Let_def example_view_def label_is_root_def hash_write.simps(2)
      list_table_def label_compose_len_def compressor_builder_def vec_builder_def label_compose_def then_compose_def
      compose_be_def to_be_bytes_u16 hash_entry_new_def hash_remember_def hash_entry_hash_def hash_entry_head_def
      hash_entry_eq_def split_from_def label_eq_def)

theorem hash_compressor_reads_back_witness:
  "reads_back slice_parser (replicate 12 0) (replicate 12 0 @ [1, 97, 0, 0xC0, 12]) [example_view, example_view]"
  using hash_compressor_reads_back [OF slice_parser.octseq_parser_axioms vec_builder.octets_target_axioms
      list_table.hash_table_axioms _ _ hash_example]
    example_view_ok by (simp add: vec_builder_def example_view_def)

end
