(* ===== verification/Records.thy ===== *)
theory Records
  imports CharStr HashCompress
begin

text \<open>
  \<^verbatim>\<open>src/base/record.rs\<close>: resource records, their headers, and records whose data is still in the message.  A record is generic over its
  owner and its data: what is composed or compared has a view of labels as its owner, what is parsed a parsed name; the data comes with
  its operations.
\<close>

section \<open>Records\<close>

record ('n, 'd) dns_record =
  rec_owner :: 'n
  rec_class :: u16
  rec_ttl :: ttl
  rec_data :: 'd

definition record_new :: "'n \<Rightarrow> u16 \<Rightarrow> ttl \<Rightarrow> 'd \<Rightarrow> ('n, 'd) dns_record" where
  "record_new owner class ttl data = \<lparr>rec_owner = owner, rec_class = class, rec_ttl = ttl, rec_data = data\<rparr>"

text \<open>\<open>OctetsFrom\<close> and \<open>FlattenInto\<close> convert the owner first.\<close>

definition record_convert ::
    "('m \<Rightarrow> ('n, 'e) result) \<Rightarrow> ('c \<Rightarrow> ('d, 'e) result) \<Rightarrow> ('m, 'c) dns_record \<Rightarrow> (('n, 'd) dns_record, 'e) result" where
  "record_convert owner data r =
     rbind (owner (rec_owner r)) (\<lambda>owner. rbind (data (rec_data r)) (\<lambda>data. Ok (record_new owner (rec_class r) (rec_ttl r) data)))"

definition record_compose :: "('d, 'b) rdata_ops \<Rightarrow> 'b composer_ops \<Rightarrow> (label_view, 'd) dns_record \<Rightarrow> 'b target_step" where
  "record_compose D C r =
     then_compose (co_append_name C (rec_owner r)) (then_compose (compose_be (co_builder C) (rd_rtype D (rec_data r))) (
     then_compose (compose_be (co_builder C) (rec_class r)) (then_compose (ttl_compose (co_builder C) (rec_ttl r))
       (compose_len_rdata D C (rec_data r)))))"

definition record_compose_canonical :: "('d, 'b) rdata_ops \<Rightarrow> 'b composer_ops \<Rightarrow> (label_view, 'd) dns_record \<Rightarrow> 'b target_step" where
  "record_compose_canonical D C r =
     then_compose (name_compose_canonical (co_builder C) (rec_owner r)) (then_compose (compose_be (co_builder C) (rd_rtype D (rec_data r))) (
     then_compose (compose_be (co_builder C) (rec_class r)) (then_compose (ttl_compose (co_builder C) (rec_ttl r))
       (compose_canonical_len_rdata D C (rec_data r)))))"

definition record_eq :: "('d \<Rightarrow> 'c \<Rightarrow> bool) \<Rightarrow> (label_view, 'd) dns_record \<Rightarrow> (label_view, 'c) dns_record \<Rightarrow> bool" where
  "record_eq data_eq a b \<longleftrightarrow>
     name_eq (rec_owner a) (rec_owner b) \<and> rec_class a = rec_class b \<and> data_eq (rec_data a) (rec_data b)"

definition record_partial_cmp ::
    "('d \<Rightarrow> 'c \<Rightarrow> ordering option) \<Rightarrow> (label_view, 'd) dns_record \<Rightarrow> (label_view, 'c) dns_record \<Rightarrow> ordering option" where
  "record_partial_cmp data_cmp a b =
     then_partial (Some (name_cmp (rec_owner a) (rec_owner b))) (
     then_partial (Some (ord_cmp (rec_class a) (rec_class b))) (data_cmp (rec_data a) (rec_data b)))"

definition record_cmp :: "('d \<Rightarrow> 'd \<Rightarrow> ordering) \<Rightarrow> (label_view, 'd) dns_record \<Rightarrow> (label_view, 'd) dns_record \<Rightarrow> ordering" where
  "record_cmp data_cmp a b =
     then_cmp (name_cmp (rec_owner a) (rec_owner b)) (
     then_cmp (ord_cmp (rec_class a) (rec_class b)) (data_cmp (rec_data a) (rec_data b)))"

definition record_canonical_cmp ::
    "('d \<Rightarrow> u16) \<Rightarrow> ('c \<Rightarrow> u16) \<Rightarrow> ('d \<Rightarrow> 'c \<Rightarrow> (ordering, unit) result) \<Rightarrow>
     (label_view, 'd) dns_record \<Rightarrow> (label_view, 'c) dns_record \<Rightarrow> (ordering, unit) result" where
  "record_canonical_cmp rtype rtype' data_cmp a b =
     then_rcmp (Ok (ord_cmp (rec_class a) (rec_class b))) (then_rcmp (Ok (name_cmp (rec_owner a) (rec_owner b))) (
     then_rcmp (Ok (ord_cmp (rtype (rec_data a)) (rtype' (rec_data b)))) (data_cmp (rec_data a) (rec_data b))))"

text \<open>\<open>Hash\<close> feeds the parts to a hasher; the hasher and what it does with a part are parameters.\<close>

definition record_hash ::
    "('n \<Rightarrow> 's \<Rightarrow> 's) \<Rightarrow> (u16 \<Rightarrow> 's \<Rightarrow> 's) \<Rightarrow> (u32 \<Rightarrow> 's \<Rightarrow> 's) \<Rightarrow> ('d \<Rightarrow> 's \<Rightarrow> 's) \<Rightarrow> ('n, 'd) dns_record \<Rightarrow> 's \<Rightarrow> 's" where
  "record_hash hash_owner hash_u16 hash_u32 hash_data r state =
     hash_data (rec_data r) (hash_u32 (rec_ttl r) (hash_u16 (rec_class r) (hash_owner (rec_owner r) state)))"

definition record_display ::
    "('n \<Rightarrow> (uchar list, 'e) result) \<Rightarrow> ('d \<Rightarrow> u16) \<Rightarrow> ('d \<Rightarrow> (uchar list, 'e) result) \<Rightarrow> ('n, 'd) dns_record \<Rightarrow> (uchar list, 'e) result" where
  "record_display display_owner rtype display_data r =
     rbind (display_owner (rec_owner r)) (\<lambda>owner. rbind (display_data (rec_data r)) (\<lambda>data.
       Ok (owner @ uchars ''. '' @ dec_chars (unat (rec_ttl r)) @ [32] @ class_display (rec_class r) @ [32] @
         rtype_display (rtype (rec_data r)) @ [32] @ data)))"

text \<open>The tuples that implement \<open>ComposeRecord\<close>; with a TTL or with a number of seconds, which is the same value.\<close>

definition compose_record_class_ttl :: "('d, 'b) rdata_ops \<Rightarrow> 'b composer_ops \<Rightarrow> label_view \<times> u16 \<times> ttl \<times> 'd \<Rightarrow> 'b target_step" where
  "compose_record_class_ttl D C = (\<lambda>(owner, class, ttl, data). record_compose D C (record_new owner class ttl data))"

definition compose_record_ttl :: "('d, 'b) rdata_ops \<Rightarrow> 'b composer_ops \<Rightarrow> label_view \<times> ttl \<times> 'd \<Rightarrow> 'b target_step" where
  "compose_record_ttl D C = (\<lambda>(owner, ttl, data). record_compose D C (record_new owner CLASS_IN ttl data))"

section \<open>Record headers\<close>

record 'n record_header =
  rh_owner :: 'n
  rh_rtype :: u16
  rh_class :: u16
  rh_ttl :: ttl
  rh_rdlen :: u16

definition record_header_new :: "'n \<Rightarrow> u16 \<Rightarrow> u16 \<Rightarrow> ttl \<Rightarrow> u16 \<Rightarrow> 'n record_header" where
  "record_header_new owner rtype class ttl rdlen =
     \<lparr>rh_owner = owner, rh_rtype = rtype, rh_class = class, rh_ttl = ttl, rh_rdlen = rdlen\<rparr>"

definition header_into_record :: "'n record_header \<Rightarrow> 'd \<Rightarrow> ('n, 'd) dns_record" where
  "header_into_record h data = record_new (rh_owner h) (rh_class h) (rh_ttl h) data"

definition record_header_parse :: "parser_ops \<Rightarrow> parser \<Rightarrow> parsed_name record_header parse_result" where
  "record_header_parse P p =
     rbind (parsed_name_parse P p) (\<lambda>(owner, p). rbind (parse_u16 P p) (\<lambda>(rtype, p). rbind (parse_u16 P p) (\<lambda>(class, p).
     rbind (ttl_parse P p) (\<lambda>(ttl, p). rbind (rmap_err parse_error_from_short (ps_parse_u16_be P p)) (\<lambda>(rdlen, p).
       Ok (record_header_new owner rtype class ttl rdlen, p))))))"

definition record_header_parse_and_skip :: "parser_ops \<Rightarrow> parser \<Rightarrow> parsed_name record_header parse_result" where
  "record_header_parse_and_skip P p =
     rbind (record_header_parse P p) (\<lambda>(header, p).
       case ps_advance P p (unat (rh_rdlen header)) of
         Ok p \<Rightarrow> Ok (header, p)
       | Err _ \<Rightarrow> Err ShortInputError
       | Panic \<Rightarrow> Panic)"

definition record_header_parse_rdlen :: "parser_ops \<Rightarrow> parser \<Rightarrow> u16 parse_result" where
  "record_header_parse_rdlen P p =
     rbind (parsed_name_skip P p) (\<lambda>p.
     rbind (rmap_err parse_error_from_short (ps_advance P p (2 + 2 + 4))) (\<lambda>p. parse_u16 P p))"

definition header_parse_into_record ::
    "parser_ops \<Rightarrow> 'd rdata_parse \<Rightarrow> 'n record_header \<Rightarrow> parser \<Rightarrow> ('n, 'd) dns_record option parse_result" where
  "header_parse_into_record P parse_rdata h p =
     rbind (rmap_err parse_error_from_short (ps_parse_parser P p (unat (rh_rdlen h)))) (\<lambda>(parser, p).
     rbind (parse_rdata (rh_rtype h) parser) (\<lambda>(data, parser).
       let res = map_option (record_new (rh_owner h) (rh_class h) (rh_ttl h)) data in
       if res \<noteq> None \<and> p_remaining parser > 0 then Err (form_error ''trailing data in option'') else Ok (res, p)))"

definition header_parse_into_any_record ::
    "parser_ops \<Rightarrow> (u16 \<Rightarrow> parser \<Rightarrow> 'd parse_result) \<Rightarrow> 'n record_header \<Rightarrow> parser \<Rightarrow> ('n, 'd) dns_record parse_result" where
  "header_parse_into_any_record P parse_any h p =
     rbind (rmap_err parse_error_from_short (ps_parse_parser P p (unat (rh_rdlen h)))) (\<lambda>(parser, p).
     rbind (parse_any (rh_rtype h) parser) (\<lambda>(data, parser).
       let res = record_new (rh_owner h) (rh_class h) (rh_ttl h) data in
       if p_remaining parser > 0 then Err (form_error ''trailing data in option'') else Ok (res, p)))"

definition record_header_compose :: "'b composer_ops \<Rightarrow> label_view record_header \<Rightarrow> 'b target_step" where
  "record_header_compose C h =
     then_compose (co_append_name C (rh_owner h)) (then_compose (compose_be (co_builder C) (rh_rtype h)) (
     then_compose (compose_be (co_builder C) (rh_class h)) (then_compose (ttl_compose (co_builder C) (rh_ttl h))
       (compose_be (co_builder C) (rh_rdlen h)))))"

definition record_header_compose_canonical :: "'b composer_ops \<Rightarrow> label_view record_header \<Rightarrow> 'b target_step" where
  "record_header_compose_canonical C h =
     then_compose (name_compose_canonical (co_builder C) (rh_owner h)) (then_compose (compose_be (co_builder C) (rh_rtype h)) (
     then_compose (compose_be (co_builder C) (rh_class h)) (then_compose (ttl_compose (co_builder C) (rh_ttl h))
       (compose_be (co_builder C) (rh_rdlen h)))))"

definition record_header_eq :: "label_view record_header \<Rightarrow> label_view record_header \<Rightarrow> bool" where
  "record_header_eq a b \<longleftrightarrow> name_eq (rh_owner a) (rh_owner b) \<and> rh_rtype a = rh_rtype b \<and> rh_class a = rh_class b \<and>
     rh_ttl a = rh_ttl b \<and> rh_rdlen a = rh_rdlen b"

definition record_header_partial_cmp :: "label_view record_header \<Rightarrow> label_view record_header \<Rightarrow> ordering option" where
  "record_header_partial_cmp a b =
     then_partial (Some (name_cmp (rh_owner a) (rh_owner b))) (then_partial (Some (ord_cmp (rh_rtype a) (rh_rtype b))) (
     then_partial (Some (ord_cmp (rh_class a) (rh_class b))) (then_partial (Some (ord_cmp (rh_ttl a) (rh_ttl b)))
       (Some (ord_cmp (rh_rdlen a) (rh_rdlen b))))))"

definition record_header_cmp :: "label_view record_header \<Rightarrow> label_view record_header \<Rightarrow> ordering" where
  "record_header_cmp a b =
     then_cmp (name_cmp (rh_owner a) (rh_owner b)) (then_cmp (ord_cmp (rh_rtype a) (rh_rtype b)) (
     then_cmp (ord_cmp (rh_class a) (rh_class b)) (then_cmp (ord_cmp (rh_ttl a) (rh_ttl b))
       (ord_cmp (rh_rdlen a) (rh_rdlen b)))))"

definition record_parse :: "parser_ops \<Rightarrow> 'd rdata_parse \<Rightarrow> parser \<Rightarrow> (parsed_name, 'd) dns_record option parse_result" where
  "record_parse P parse_rdata p = rbind (record_header_parse P p) (\<lambda>(header, p). header_parse_into_record P parse_rdata header p)"

section \<open>Parsed records\<close>

record parsed_record =
  pr_header :: "parsed_name record_header"
  pr_data :: parser

definition parsed_record_parse :: "parser_ops \<Rightarrow> parser \<Rightarrow> parsed_record parse_result" where
  "parsed_record_parse P p =
     rbind (record_header_parse P p) (\<lambda>(header, p).
       let data = p in
       rbind (rmap_err parse_error_from_short (ps_advance P p (unat (rh_rdlen header)))) (\<lambda>p.
         Ok (\<lparr>pr_header = header, pr_data = data\<rparr>, p)))"

definition parsed_record_skip :: "parser_ops \<Rightarrow> parser \<Rightarrow> (parser, parse_error) result" where
  "parsed_record_skip P p =
     rbind (record_header_parse_rdlen P p) (\<lambda>(rdlen, p). rmap_err parse_error_from_short (ps_advance P p (unat rdlen)))"

definition parsed_to_record :: "parser_ops \<Rightarrow> 'd rdata_parse \<Rightarrow> parsed_record \<Rightarrow> ((parsed_name, 'd) dns_record option, parse_error) result" where
  "parsed_to_record P parse_rdata r = rmap fst (header_parse_into_record P parse_rdata (pr_header r) (pr_data r))"

definition parsed_to_any_record ::
    "parser_ops \<Rightarrow> (u16 \<Rightarrow> parser \<Rightarrow> 'd parse_result) \<Rightarrow> parsed_record \<Rightarrow> ((parsed_name, 'd) dns_record, parse_error) result" where
  "parsed_to_any_record P parse_any r = rmap fst (header_parse_into_any_record P parse_any (pr_header r) (pr_data r))"

text \<open>The header of a parsed record with the labels of its owner.\<close>

definition record_header_view :: "parsed_name record_header \<Rightarrow> label_view record_header" where
  "record_header_view h = record_header_new (pn_view (rh_owner h)) (rh_rtype h) (rh_class h) (rh_ttl h) (rh_rdlen h)"

definition parsed_record_eq :: "parser_ops \<Rightarrow> parsed_record \<Rightarrow> parsed_record \<Rightarrow> bool" where
  "parsed_record_eq P a b \<longleftrightarrow>
     record_header_eq (record_header_view (pr_header a)) (record_header_view (pr_header b)) \<and>
     ps_peek P (pr_data a) (unat (rh_rdlen (pr_header a))) = ps_peek P (pr_data b) (unat (rh_rdlen (pr_header b)))"

section \<open>Parsing does not panic\<close>

text \<open>A parser is safe: on arbitrary input it does not panic, and if it succeeds it has moved forward within its limits.\<close>

definition safe :: "(parser \<Rightarrow> 'a parse_result) \<Rightarrow> bool" where
  "safe f \<longleftrightarrow> (\<forall>p. parser_wf p \<longrightarrow> f p \<noteq> Panic \<and> (\<forall>x p'. f p = Ok (x, p') \<longrightarrow> (\<exists>k\<le>p_remaining p. p' = p_forward p k)))"

named_theorems safe_intros

lemma safeI:
  assumes "\<And>p. parser_wf p \<Longrightarrow> f p \<noteq> Panic" "\<And>p x p'. parser_wf p \<Longrightarrow> f p = Ok (x, p') \<Longrightarrow> \<exists>k\<le>p_remaining p. p' = p_forward p k"
  shows "safe f"
  using assms by (simp add: safe_def)

lemma safeD:
  assumes "safe f" "parser_wf p"
  shows "f p \<noteq> Panic" and "f p = Ok (x, p') \<Longrightarrow> \<exists>k\<le>p_remaining p. p' = p_forward p k" and "f p = Ok (x, p') \<Longrightarrow> parser_wf p'"
proof -
  show "f p \<noteq> Panic" "f p = Ok (x, p') \<Longrightarrow> \<exists>k\<le>p_remaining p. p' = p_forward p k" using assms by (simp_all add: safe_def)
  then show "f p = Ok (x, p') \<Longrightarrow> parser_wf p'" using assms(2) by auto
qed

lemma forwardI: "k \<le> p_remaining p \<Longrightarrow> \<exists>j\<le>p_remaining p. p_forward p k = p_forward p j"
  by blast

lemma safe_return [safe_intros]: "safe (\<lambda>p. Ok (x, p))"
  by (rule safeI) (auto intro: exI [of _ 0])

lemma safe_bind [safe_intros]:
  assumes f: "safe f" and g: "\<And>x. safe (g x)"
  shows "safe (\<lambda>p. rbind (f p) (\<lambda>(x, p). g x p))"
proof (rule safeI)
  fix p assume p: "parser_wf p"
  show "rbind (f p) (\<lambda>(x, p). g x p) \<noteq> Panic"
    using safeD(1,3) [OF f p] safeD(1) [OF g] by (auto simp: rbind_Panic_iff)
  fix y p' assume "rbind (f p) (\<lambda>(x, p). g x p) = Ok (y, p')"
  then obtain x q where x: "f p = Ok (x, q)" "g x q = Ok (y, p')" by (auto simp: rbind_Ok_iff)
  from safeD(2) [OF f p x(1)] obtain k where k: "k \<le> p_remaining p" "q = p_forward p k" by blast
  from safeD(2) [OF g safeD(3) [OF f p x(1)] x(2)] obtain j where "j \<le> p_remaining q" "p' = p_forward q j" by blast
  with k show "\<exists>k\<le>p_remaining p. p' = p_forward p k" by (auto intro!: exI [of _ "k + j"])
qed

lemma name_span_length: "name_span octs pos k \<Longrightarrow> pos + k \<le> length octs"
  by (induction rule: name_span.induct) simp_all

context octseq_parser
begin

lemma safe_u16 [safe_intros]: "safe (parse_u16 P)"
  by (rule safeI) (auto simp: parse_u16_def ps_laws split: if_splits intro!: forwardI)

lemma safe_ttl [safe_intros]: "safe (ttl_parse P)"
  by (rule safeI) (auto simp: ttl_parse_def ps_laws split: if_splits intro!: forwardI)

lemma safe_name [safe_intros]: "safe (parsed_name_parse P)"
proof (rule safeI)
  fix p assume p: "parser_wf p"
  note spec = parsed_name_parse_spec [OF p]
  from spec show "parsed_name_parse P p \<noteq> Panic" by (auto simp: at_spec_def)
  fix pn p' assume "parsed_name_parse P p = Ok (pn, p')"
  with spec obtain k where "name_span (p_data p) (p_pos p) k" "p' = p_forward p k" by (auto simp: at_spec_def)
  moreover from this(1) have "k \<le> p_remaining p" using name_span_length [of "p_data p" "p_pos p" k] p by (simp add: p_remaining_def)
  ultimately show "\<exists>k\<le>p_remaining p. p' = p_forward p k" by blast
qed

lemma safe_record_header [safe_intros]: "safe (record_header_parse P)"
  unfolding record_header_parse_def [abs_def] parse_u16_def [symmetric] by (intro safe_intros)

lemma safe_parsed_record [safe_intros]: "safe (parsed_record_parse P)"
proof (rule safeI)
  fix p assume p: "parser_wf p"
  note h = safeD [OF safe_record_header p]
  show "parsed_record_parse P p \<noteq> Panic"
    using h(1) by (auto simp: parsed_record_parse_def rbind_Panic_iff ps_advance Let_def)
  fix r p' assume "parsed_record_parse P p = Ok (r, p')"
  then obtain hd q where q: "record_header_parse P p = Ok (hd, q)" "unat (rh_rdlen hd) \<le> p_remaining q" "p' = p_forward q (unat (rh_rdlen hd))"
    by (auto simp: parsed_record_parse_def rbind_Ok_iff ps_advance Let_def split: if_splits)
  from h(2) [OF q(1)] obtain k where "k \<le> p_remaining p" "q = p_forward p k" by blast
  with q(2,3) show "\<exists>k\<le>p_remaining p. p' = p_forward p k" by (auto intro!: exI [of _ "k + unat (rh_rdlen hd)"])
qed

lemma skip_loop_forward: "parsed_skip_loop P fuel p n = Ok p' \<Longrightarrow> parser_wf p \<Longrightarrow> \<exists>k\<le>p_remaining p. p' = p_forward p k"
proof (induction fuel arbitrary: p n)
  case (Suc fuel)
  from Suc.prems(1) obtain lt q where lt: "label_type_parse P p = Ok (lt, q)" by (auto simp: rbind_Ok_iff)
  have "\<exists>j\<le>p_remaining p. q = p_forward p j"
    using lt unfolding label_type_parse_at [OF Suc.prems(2)] by (auto simp: p_remaining_def split: if_splits intro: exI [of _ 1] exI [of _ 2])
  then obtain j where j: "j \<le> p_remaining p" "q = p_forward p j" by blast
  show ?case
  proof (cases "\<exists>len. lt = Normal len \<and> len \<noteq> 0")
    case True
    then obtain len where "lt = Normal len" "len \<noteq> 0" by blast
    with Suc.prems(1) lt have len: "len \<le> p_remaining q" "parsed_skip_loop P fuel (p_forward q len) (n + len + 1) = Ok p'"
      by (auto simp: ps_advance split: if_splits)
    from Suc.IH [OF len(2)] len(1) j Suc.prems(2) obtain k where "k \<le> p_remaining (p_forward q len)" "p' = p_forward (p_forward q len) k"
      by auto
    with len(1) j show ?thesis by (intro exI [of _ "j + len + k"]) auto
  next
    case False
    with Suc.prems(1) lt have "p' = q" by (auto split: label_type.splits if_splits)
    with j show ?thesis by blast
  qed
qed simp

lemma parsed_name_skip_parse: "parsed_name_parse P p = Ok (pn, p') \<Longrightarrow> parsed_name_skip P p = Ok p'"
  using phase_one_skip by (simp add: parsed_name_parse_def parsed_name_skip_def)

lemma safe_skip: "safe (\<lambda>p. rmap (\<lambda>p. ((), p)) (parsed_name_skip P p))"
  by (rule safeI) (auto simp: parsed_name_skip_def rmap_Ok_iff skip_loop_no_Panic intro: skip_loop_forward)

lemma safe_record_skip [safe_intros]: "safe (\<lambda>p. rmap (\<lambda>p. ((), p)) (parsed_record_skip P p))"
proof -
  have adv: "safe (\<lambda>p. rmap (\<lambda>p. ((), p)) (rmap_err parse_error_from_short (ps_advance P p n)))" for n
    by (rule safeI) (auto simp: ps_advance rmap_Ok_iff split: if_splits intro!: forwardI)
  have "rmap (\<lambda>p. ((), p)) (parsed_record_skip P p) =
      rbind (rmap (\<lambda>p. ((), p)) (parsed_name_skip P p)) (\<lambda>(_, p).
      rbind (rmap (\<lambda>p. ((), p)) (rmap_err parse_error_from_short (ps_advance P p 8))) (\<lambda>(_, p).
      rbind (parse_u16 P p) (\<lambda>(n, p). rmap (\<lambda>p. ((), p)) (rmap_err parse_error_from_short (ps_advance P p (unat n))))))" for p
    by (simp add: parsed_record_skip_def record_header_parse_rdlen_def rbind_assoc rmap_rbind rbind_rmap case_prod_beta')
  then show ?thesis by (simp only:) (intro safe_intros safe_skip adv)
qed

text \<open>Skipping a record moves as far as parsing it.\<close>

lemma parsed_record_skip_parse:
  assumes "parser_wf p" "parsed_record_parse P p = Ok (r, p')"
  shows "parsed_record_skip P p = Ok p'"
proof -
  from assms(2) obtain pn q where pn: "parsed_name_parse P p = Ok (pn, q)"
    by (auto simp: parsed_record_parse_def record_header_parse_def rbind_Ok_iff)
  with assms(2) parsed_name_skip_parse [OF pn] show ?thesis
    by (auto simp: parsed_record_parse_def record_header_parse_def parsed_record_skip_def record_header_parse_rdlen_def record_header_new_def
        parse_u16_def ttl_parse_def rbind_Ok_iff Let_def ps_laws split: if_splits)
qed

text \<open>Reading a record at once is parsing it and then reading its data.\<close>

lemma record_parse_parsed:
  "record_parse P parse p = rbind (parsed_record_parse P p) (\<lambda>(r, p'). rmap (\<lambda>x. (x, p')) (parsed_to_record P parse r))"
proof (cases "record_header_parse P p")
  case (Ok hq)
  obtain h q where hq: "hq = (h, q)" by fastforce
  show ?thesis
    unfolding record_parse_def parsed_record_parse_def Ok hq
    by (cases "parse (rh_rtype h) (q\<lparr>p_len := p_pos q + unat (rh_rdlen h)\<rparr>)")
      (auto simp: parsed_to_record_def header_parse_into_record_def ps_laws Let_def)
qed (simp_all add: record_parse_def parsed_record_parse_def)

end

section \<open>Writing and reading records\<close>

definition record_ok :: "('d \<Rightarrow> bool) \<Rightarrow> (label_view, 'd) dns_record \<Rightarrow> bool" where
  "record_ok ok r \<longleftrightarrow> name_ok (rec_owner r) \<and> ok (rec_data r)"

definition record_len :: "('d \<Rightarrow> nat) \<Rightarrow> (label_view, 'd) dns_record \<Rightarrow> nat" where
  "record_len len r = name_len (rec_owner r) + 8 + (len (rec_data r) + 2)"

definition record_meaning :: "('d \<Rightarrow> u16) \<Rightarrow> ('d \<Rightarrow> meaning) \<Rightarrow> (label_view, 'd) dns_record \<Rightarrow> meaning" where
  "record_meaning rtype meaning r =
     seq_meaning (name_meaning (rec_owner r)) (seq_meaning (octets_meaning (to_be_bytes (rtype (rec_data r)))) (
     seq_meaning (octets_meaning (to_be_bytes (rec_class r))) (seq_meaning (octets_meaning (to_be_bytes (rec_ttl r)))
       (len_meaning (meaning (rec_data r))))))"

text \<open>The canonical form of RFC 4034.\<close>

definition record_canon :: "('d \<Rightarrow> u16) \<Rightarrow> ('d \<Rightarrow> octets) \<Rightarrow> (label_view, 'd) dns_record \<Rightarrow> octets" where
  "record_canon rtype canon r =
     name_canon (rec_owner r) @ to_be_bytes (rtype (rec_data r)) @ to_be_bytes (rec_class r) @ to_be_bytes (rec_ttl r) @
     to_be_bytes (of_nat (length (canon (rec_data r))) :: u16) @ canon (rec_data r)"

text \<open>A parsed record stands for a record.\<close>

definition record_stands :: "('d \<Rightarrow> 'e \<Rightarrow> bool) \<Rightarrow> (label_view, 'd) dns_record \<Rightarrow> (parsed_name, 'e) dns_record \<Rightarrow> bool" where
  "record_stands same r r' \<longleftrightarrow> name_stands (rec_owner r) (rec_owner r') \<and> rec_class r' = rec_class r \<and> rec_ttl r' = rec_ttl r \<and>
     same (rec_data r) (rec_data r')"

context record_data
begin

lemma writes_record:
  assumes "record_ok data_ok r"
  shows "writes C good cut lim (record_compose D C r) (record_len data_len r) (record_meaning (rd_rtype D) data_meaning r)"
  using writes_then [OF writes_name writes_then [OF writes_be [of "rd_rtype D (rec_data r)"] writes_then [OF writes_be [of "rec_class r"]
      writes_then [OF writes_be [of "rec_ttl r"] writes_len_rdata]]], of "rec_owner r" "rec_data r"] assms
  by (simp add: record_ok_def name_ok_def record_compose_def record_len_def record_meaning_def ttl_compose_be algebra_simps)

lemma puts_record_canonical:
  assumes "record_ok data_ok r"
  shows "puts C good cut lim (record_compose_canonical D C r) (record_canon (rd_rtype D) canon r)"
  unfolding record_compose_canonical_def record_canon_def ttl_compose_be
  using assms by (intro puts_then puts_name_canonical puts_be puts_canonical_len_rdata) (simp add: record_ok_def)

end

context rdata_parser
begin

lemma reads_len_rdata:
  assumes "ok d" "rh_rtype h = rtype d"
  shows "reads (\<lambda>p. rbind (parse_u16 P p) (\<lambda>(rdlen, p). header_parse_into_record P parse (h\<lparr>rh_rdlen := rdlen\<rparr>) p)) (len_meaning (meaning d))
    (\<lambda>x. \<exists>e. x = Some (record_new (rh_owner h) (rh_class h) (rh_ttl h) e) \<and> same d e)"
  unfolding reads_def
proof (intro allI impI)
  fix p c
  assume p: "parser_wf p" "c \<le> p_len p" "written (p_octets p) (p_pos p) c (len_meaning (meaning d))"
  from written_now [OF p(3)] obtain n b where n: "c = p_pos p + 2 + unat n" "written (p_octets p) (p_pos p) b (octets_meaning (to_be_bytes (n :: u16)))"
    "written (p_octets p) b c (meaning d)" by (auto simp: len_meaning_def seq_meaning_def)
  then have b: "b = p_pos p + 2" by (simp add: written_octets)
  with n(1) p(2) have "b \<le> p_len p" by simp
  from readsD [OF reads_be(1) p(1) this n(2)] have u: "parse_u16 P p = Ok (n, p\<lparr>p_pos := b\<rparr>)" by auto
  let ?q = "p\<lparr>p_pos := b, p_len := c\<rparr>"
  have "parser_wf ?q" "written (p_octets ?q) (p_pos ?q) (p_len ?q) (meaning d)"
    using p(1,2) n b by (simp_all add: parser_wf_def)
  from reads_data [OF assms(1) this] obtain e where e: "parse (rtype d) ?q = Ok (Some e, ?q\<lparr>p_pos := p_len ?q\<rparr>)" "same d e" by blast
  have "\<not> p_remaining (p\<lparr>p_pos := b\<rparr>) < unat n" "b + unat n = c" using n(1) b p(2) by (simp_all add: p_remaining_def)
  with u e assms(2) show "\<exists>x. rbind (parse_u16 P p) (\<lambda>(rdlen, p). header_parse_into_record P parse (h\<lparr>rh_rdlen := rdlen\<rparr>) p) =
      Ok (x, p\<lparr>p_pos := c\<rparr>) \<and> (\<exists>e. x = Some (record_new (rh_owner h) (rh_class h) (rh_ttl h) e) \<and> same d e)"
    by (auto simp: header_parse_into_record_def ps_parse_parser p_forward_def Let_def p_remaining_def)
qed

lemma reads_record:
  assumes "record_ok ok r"
  shows "reads (record_parse P parse) (record_meaning rtype meaning r) (\<lambda>x. \<exists>r'. x = Some r' \<and> record_stands same r r')"
proof -
  note r = assms [unfolded record_ok_def]
  have eq: "record_parse P parse = (\<lambda>p. rbind (parsed_name_parse P p) (\<lambda>(owner, p). rbind (parse_u16 P p) (\<lambda>(rtype, p).
      rbind (parse_u16 P p) (\<lambda>(class, p). rbind (ttl_parse P p) (\<lambda>(ttl, p). rbind (parse_u16 P p) (\<lambda>(rdlen, p).
        header_parse_into_record P parse ((record_header_new owner rtype class ttl 0)\<lparr>rh_rdlen := rdlen\<rparr>) p))))))"
    by (rule ext) (simp add: record_parse_def record_header_parse_def parse_u16_def [symmetric] record_header_new_def rbind_assoc case_prod_beta')
  show ?thesis
    unfolding eq record_meaning_def
    by (intro reads_bind [OF reads_stands [OF conjunct1 [OF r]]] reads_bind [OF reads_be(1)] reads_bind [OF reads_ttl]
        reads_weaken [OF reads_len_rdata [OF conjunct2 [OF r]]])
      (auto simp: record_stands_def record_header_new_def record_new_def)
qed

lemma reads_parsed_record:
  assumes "record_ok ok r"
  shows "reads (parsed_record_parse P) (record_meaning rtype meaning r)
    (\<lambda>x. \<exists>r'. parsed_to_record P parse x = Ok (Some r') \<and> record_stands same r r')"
  using reads_record [OF assms] unfolding reads_def record_parse_parsed by (fastforce simp: rbind_Ok_iff rmap_Ok_iff)

end

text \<open>Records are ordered by owner, class and data, and equal exactly if the order says so.\<close>

lemma record_ord:
  assumes "data_ord data_cmp key ok data_eq data_partial_cmp"
  shows "data_ord (record_cmp data_cmp) (\<lambda>r. (name_key (rec_owner r), rec_class r, key (rec_data r))) (record_ok ok) (record_eq data_eq)
    (record_partial_cmp data_partial_cmp)"
proof (rule data_ord.intro)
  show "total_cmp (record_cmp data_cmp) (\<lambda>r. (name_key (rec_owner r), rec_class r, key (rec_data r)))"
    unfolding record_cmp_def [abs_def]
    by (intro total_then_cmp total_fields total_cmp_image [OF data_ord.axioms(1) [OF assms]])
qed (unfold_locales, simp_all add: record_eq_def record_ok_def name_eq_key record_partial_cmp_def record_cmp_def
    data_ord.partial_cmp [OF assms] data_ord.eq_key [OF assms])

interpretation mx_record_ord: data_ord "record_cmp mx_cmp" "\<lambda>r. (name_key (rec_owner r), rec_class r, mx_preference (rec_data r), name_key (mx_exchange (rec_data r)))"
    "record_ok mx_ok" "record_eq mx_eq" "record_partial_cmp mx_partial_cmp"
  by (rule record_ord [OF mx_ord.data_ord_axioms])

interpretation record_header_ord: data_ord record_header_cmp
    "\<lambda>h. (name_key (rh_owner h), rh_rtype h, rh_class h, rh_ttl h, rh_rdlen h)" "\<lambda>h. name_ok (rh_owner h)" record_header_eq record_header_partial_cmp
proof (rule data_ord.intro)
  show "total_cmp record_header_cmp (\<lambda>h. (name_key (rh_owner h), rh_rtype h, rh_class h, rh_ttl h, rh_rdlen h))"
    unfolding record_header_cmp_def [abs_def] by (intro total_then_cmp total_fields)
qed (unfold_locales, simp_all add: record_header_eq_def name_eq_key record_header_partial_cmp_def record_header_cmp_def)

section \<open>Properties\<close>

text \<open>
  C9.  A record that any composer wrote, whatever its data, is read back: \<open>Record::parse\<close> succeeds at its position, moves
  to the end of the message, and gives a record with an equal owner, the same class and TTL, and the data that was written.  So does
  \<open>ParsedRecord::parse\<close> followed by \<open>to_record\<close>.
\<close>

theorem record_roundtrip:
  assumes "record_data C good ct lim D ok len meaning canon" "rdata_parser P parse (rd_rtype D) ok meaning same" "good {} t" "record_ok ok r"
    and "length (co_ref C t) + record_len len r \<le> lim" "record_compose D C r t = (Ok u, t')"
  shows "\<exists>r' pr. let p = \<lparr>p_octets = co_ref C t', p_pos = length (co_ref C t), p_len = length (co_ref C t')\<rparr>; p' = p\<lparr>p_pos := p_len p\<rparr> in
    record_parse P parse p = Ok (Some r', p') \<and> record_stands same r r' \<and>
    parsed_record_parse P p = Ok (pr, p') \<and> parsed_to_record P parse pr = Ok (Some r')"
proof -
  note C = record_data.axioms(1) [OF assms(1)] and w = record_data.writes_record [OF assms(1,4)]
  from composer.write_read [OF C w rdata_parser.reads_record [OF assms(2,4)] assms(3,5,6)] obtain r' where
    "record_parse P parse \<lparr>p_octets = co_ref C t', p_pos = length (co_ref C t), p_len = length (co_ref C t')\<rparr> =
      Ok (Some r', \<lparr>p_octets = co_ref C t', p_pos = length (co_ref C t'), p_len = length (co_ref C t')\<rparr>)" "record_stands same r r'"
    by blast
  then show ?thesis
    unfolding octseq_parser.record_parse_parsed [OF rdata_parser.axioms(1) [OF assms(2)]]
    by (auto simp: rbind_Ok_iff rmap_Ok_iff)
qed

definition example_record :: "(label_view, label_view mx) dns_record" where
  "example_record = record_new example_view CLASS_IN 3600 (mx_new 10 example_view)"

lemma example_record_ok: "record_ok mx_ok example_record"
  using example_view_ok by (simp add: record_ok_def mx_ok_def name_ok_def example_record_def record_new_def mx_new_def)

lemma example_ttl_bytes: "to_be_bytes (3600 :: u32) = [0, 0, 14, 16]"
  by code_simp

lemma record_example:
  "record_compose mx_ops (tree_compressor vec_builder) example_record \<lparr>cp_target = replicate 12 0, cp_table = node_default\<rparr> =
   (Ok (), \<lparr>cp_target = replicate 12 0 @ [1, 97, 0, 0, 15, 0, 1, 0, 0, 14, 16, 0, 4, 0, 10, 192, 12],
      cp_table = Node [[97] \<mapsto> Node Map.empty (Some 12)] None\<rparr>)"
  by (simp add: record_compose_def example_record_def record_new_def CLASS_IN_def mx_new_def tree_compressor_def Let_def example_view_def
      compress_loop.simps label_is_root_def tree_get_def node_default_def tree_insert_def compressor_builder_def vec_builder_def
      label_compose_def then_compose_def compose_be_def to_be_bytes_u16 mx_ops_def MX_RTYPE_def ttl_compose_def compose_len_rdata_def
      mx_rdlen_def compose_prefixed_def mx_compose_rdata_def example_ttl_bytes)

theorem record_roundtrip_witness:
  "\<exists>r' pr. let p = \<lparr>p_octets = replicate 12 0 @ [1, 97, 0, 0, 15, 0, 1, 0, 0, 14, 16, 0, 4, 0, 10, 192, 12], p_pos = 12, p_len = 29\<rparr>;
      p' = p\<lparr>p_pos := p_len p\<rparr> in
    record_parse slice_parser (mx_parse_rdata slice_parser) p = Ok (Some r', p') \<and> record_stands mx_stands example_record r' \<and>
    parsed_record_parse slice_parser p = Ok (pr, p') \<and> parsed_to_record slice_parser (mx_parse_rdata slice_parser) pr = Ok (Some r')"
proof -
  have good: "tree_good vec_builder (\<lambda>_. True) {} \<lparr>cp_target = replicate 12 0, cp_table = node_default\<rparr>"
    using tree_table.new by (simp add: compressor_good_def)
  have parser: "rdata_parser slice_parser (mx_parse_rdata slice_parser) (rd_rtype mx_ops) mx_ok mx_meaning mx_stands"
    using slice_parser.mx_parser by (simp add: mx_ops_def)
  from record_roundtrip [OF vec_tree.mx_data parser good example_record_ok _ record_example]
  show ?thesis
    by (simp add: tree_compressor_def Let_def compressor_builder_def vec_builder_def record_len_def mx_len_def example_record_def
        record_new_def mx_new_def example_view_def)
qed

text \<open>
  C11.  The canonical form of a record that \<open>compose_canonical\<close> writes, to any composer: the owner without
  compression and in lower case, type, class, TTL, and the canonical form of the data behind its true length.
\<close>

theorem record_canonical_form:
  assumes "record_data C good ct lim D ok len meaning canon" "good {} t" "record_ok ok r"
    and "length (co_ref C t) + length (record_canon (rd_rtype D) canon r) \<le> lim" "record_compose_canonical D C r t = (Ok u, t')"
  shows "co_ref C t' = co_ref C t @ record_canon (rd_rtype D) canon r"
proof -
  have w: "wrote C good ct (length (record_canon (rd_rtype D) canon r)) (octets_meaning (record_canon (rd_rtype D) canon r)) {} t (Ok u) t'"
    by (rule writesD [OF record_data.puts_record_canonical [OF assms(1,3)] assms(2) _ assms(4,5)]) simp
  from wrote_ref [OF w] obtain ys where ys: "co_ref C t' = co_ref C t @ ys" by blast
  with keeps_written [OF conjunct2 [OF wrote_Ok [OF w refl]]] have "ys = record_canon (rd_rtype D) canon r"
    by (simp add: written_octets) (metis order_refl take_all)
  with ys show ?thesis by simp
qed

theorem record_canonical_form_witness:
  "fst (record_compose_canonical mx_ops (plain_composer vec_builder) example_record []) = Ok () \<and>
   co_ref (plain_composer vec_builder) (snd (record_compose_canonical mx_ops (plain_composer vec_builder) example_record [])) =
     co_ref (plain_composer vec_builder) [] @ record_canon (rd_rtype (mx_ops :: (label_view mx, octets) rdata_ops)) mx_canon example_record"
proof -
  have "fst (record_compose_canonical mx_ops (plain_composer vec_builder) example_record []) = Ok ()"
    by (simp add: record_compose_canonical_def example_record_def record_new_def mx_new_def plain_composer_def vec_builder_def
        example_view_def label_compose_canonical_def name_compose_canonical_def then_compose_def compose_be_def mx_ops_def
        ttl_compose_def compose_canonical_len_rdata_def mx_rdlen_def u16_add_def mx_compose_canonical_rdata_def)
  then obtain t where run: "record_compose_canonical mx_ops (plain_composer vec_builder) example_record [] = (Ok (), t)"
    by (metis prod.collapse)
  have len: "length (co_ref (plain_composer vec_builder) []) +
      length (record_canon (rd_rtype (mx_ops :: (label_view mx, octets) rdata_ops)) mx_canon example_record) \<le> 100"
    by (simp add: plain_composer_def vec_builder_def record_canon_def mx_canon_def example_record_def record_new_def mx_new_def
        example_view_def canonical_wire_length label_make_canonical_def)
  from record_canonical_form [OF vec_composer.mx_data TrueI example_record_ok len run] run show ?thesis by simp
qed

text \<open>
  C12.  Parsing a record from arbitrary input returns without a panic, moves forward within the message if it succeeds, and then
  \<open>skip\<close>, which does not look at the owner, type, class and TTL, moves to the same position; \<open>skip\<close> does not panic either.  Whatever
  the parser of the data does, \<open>Record::parse\<close> is \<open>ParsedRecord::parse\<close> followed by \<open>to_record\<close>, errors included.
\<close>

theorem parsed_record_correct:
  assumes "octseq_parser P" "parser_wf p"
  shows "parsed_record_parse P p \<noteq> Panic \<and> parsed_record_skip P p \<noteq> Panic \<and>
    (\<forall>r p'. parsed_record_parse P p = Ok (r, p') \<longrightarrow>
       (\<exists>k\<le>p_remaining p. p' = p_forward p k) \<and> parsed_record_skip P p = Ok p') \<and>
    record_parse P parse p = rbind (parsed_record_parse P p) (\<lambda>(r, p'). rmap (\<lambda>x. (x, p')) (parsed_to_record P parse r))"
  using safeD(1,2) [OF octseq_parser.safe_parsed_record [OF assms(1)] assms(2)]
    safeD(1) [OF octseq_parser.safe_record_skip [OF assms(1)] assms(2)] octseq_parser.parsed_record_skip_parse [OF assms]
    octseq_parser.record_parse_parsed [OF assms(1), of parse p]
  by simp

theorem parsed_record_correct_witness:
  "let p = \<lparr>p_octets = [192, 0, 0, 1], p_pos = 0, p_len = 4\<rparr> in
   parsed_record_parse slice_parser p \<noteq> Panic \<and> parsed_record_skip slice_parser p \<noteq> Panic"
  using parsed_record_correct [OF slice_parser.octseq_parser_axioms, of "\<lparr>p_octets = [192, 0, 0, 1], p_pos = 0, p_len = 4\<rparr>"
      "unknown_parse_rdata slice_parser"]
  by (simp add: parser_wf_def)

text \<open>
  Equal records may have different hashes: equality and order leave the TTL out, but \<open>Hash\<close> includes it.
\<close>

theorem record_hash_ttl:
  "let a = record_new example_view CLASS_IN 0 (mx_new 10 example_view); b = record_new example_view CLASS_IN 1 (mx_new 10 example_view);
       hash = record_hash (\<lambda>v s. s @ concat (lv_labels v)) (\<lambda>w s. s @ to_be_bytes w) (\<lambda>w s. s @ to_be_bytes w)
         (\<lambda>d s. s @ to_be_bytes (mx_preference d)) in
   record_eq mx_eq a b \<and> record_cmp mx_cmp a b = Equal \<and> hash a [] \<noteq> hash b []"
proof -
  have "to_be_bytes (0 :: u32) \<noteq> to_be_bytes (1 :: u32)" by code_simp
  then show ?thesis
    using mx_record_ord.eq_cmp [of "record_new example_view CLASS_IN 0 (mx_new 10 example_view)"
        "record_new example_view CLASS_IN 1 (mx_new 10 example_view)"] example_view_ok
    by (auto simp: record_hash_def record_new_def mx_new_def record_ok_def mx_ok_def name_ok_def record_eq_def mx_eq_def name_eq_canonical)
qed

end
