(* ===== verification/Header.thy ===== *)
theory Header
  imports Wire
begin

unbundle bit_operations_syntax

text \<open>
  \<^verbatim>\<open>src/base/header.rs\<close>: the header of a message.  The three structs of the source are arrays of octets
  of a fixed size, which are lists of that length here; the functions \<open>for_message_slice\<close> overlay
  them on the start of a message.
\<close>

section \<open>Header\<close>

type_synonym header = octets

definition header_new :: header where
  "header_new = replicate 4 0"

definition header_for_message_slice :: "octets \<Rightarrow> (header, 'e) result" where
  "header_for_message_slice s = (if length s \<ge> 4 then Ok (take 4 s) else Panic)"

text \<open>Changing the header through the overlay changes the message.\<close>

definition header_for_message_slice_mut :: "(header \<Rightarrow> header) \<Rightarrow> octets \<Rightarrow> (octets, 'e) result" where
  "header_for_message_slice_mut f s = (if length s \<ge> 4 then Ok (f (take 4 s) @ drop 4 s) else Panic)"

definition header_id :: "header \<Rightarrow> u16" where
  "header_id h = from_be_bytes (take 2 h)"

definition set_id :: "u16 \<Rightarrow> header \<Rightarrow> header" where
  "set_id v h = to_be_bytes v @ drop 2 h"

definition get_bit :: "header \<Rightarrow> nat \<Rightarrow> nat \<Rightarrow> bool" where
  "get_bit h offset b \<longleftrightarrow> (h ! offset) AND push_bit b 1 \<noteq> 0"

definition set_header_bit :: "nat \<Rightarrow> nat \<Rightarrow> bool \<Rightarrow> header \<Rightarrow> header" where
  "set_header_bit offset b on h =
     (if on then h[offset := (h ! offset) OR push_bit b 1]
      else h[offset := (h ! offset) AND NOT (push_bit b 1)])"

definition qr :: "header \<Rightarrow> bool" where "qr h = get_bit h 2 7"
definition set_qr :: "bool \<Rightarrow> header \<Rightarrow> header" where "set_qr = set_header_bit 2 7"

definition opcode :: "header \<Rightarrow> octet" where
  "opcode h = drop_bit 3 (h ! 2) AND 0x0F"

definition set_opcode :: "octet \<Rightarrow> header \<Rightarrow> header" where
  "set_opcode v h = h[2 := (h ! 2) AND 0x87 OR push_bit 3 v]"

definition aa :: "header \<Rightarrow> bool" where "aa h = get_bit h 2 2"
definition set_aa :: "bool \<Rightarrow> header \<Rightarrow> header" where "set_aa = set_header_bit 2 2"
definition tc :: "header \<Rightarrow> bool" where "tc h = get_bit h 2 1"
definition set_tc :: "bool \<Rightarrow> header \<Rightarrow> header" where "set_tc = set_header_bit 2 1"
definition rd :: "header \<Rightarrow> bool" where "rd h = get_bit h 2 0"
definition set_rd :: "bool \<Rightarrow> header \<Rightarrow> header" where "set_rd = set_header_bit 2 0"
definition ra :: "header \<Rightarrow> bool" where "ra h = get_bit h 3 7"
definition set_ra :: "bool \<Rightarrow> header \<Rightarrow> header" where "set_ra = set_header_bit 3 7"
definition zbit :: "header \<Rightarrow> bool" where "zbit h = get_bit h 3 6"
definition set_z :: "bool \<Rightarrow> header \<Rightarrow> header" where "set_z = set_header_bit 3 6"
definition ad :: "header \<Rightarrow> bool" where "ad h = get_bit h 3 5"
definition set_ad :: "bool \<Rightarrow> header \<Rightarrow> header" where "set_ad = set_header_bit 3 5"
definition cd :: "header \<Rightarrow> bool" where "cd h = get_bit h 3 4"
definition set_cd :: "bool \<Rightarrow> header \<Rightarrow> header" where "set_cd = set_header_bit 3 4"

definition rcode :: "header \<Rightarrow> octet" where
  "rcode h = (h ! 3) AND 0x0F"

definition set_rcode :: "octet \<Rightarrow> header \<Rightarrow> header" where
  "set_rcode v h = h[3 := (h ! 3) AND 0xF0 OR (v AND 0x0F)]"

section \<open>Flags\<close>

record flags =
  f_qr :: bool
  f_aa :: bool
  f_tc :: bool
  f_rd :: bool
  f_ra :: bool
  f_ad :: bool
  f_cd :: bool

definition flags_new :: flags where
  "flags_new = \<lparr>f_qr = False, f_aa = False, f_tc = False, f_rd = False, f_ra = False, f_ad = False, f_cd = False\<rparr>"

definition header_flags :: "header \<Rightarrow> flags" where
  "header_flags h = \<lparr>f_qr = qr h, f_aa = aa h, f_tc = tc h, f_rd = rd h, f_ra = ra h, f_ad = ad h, f_cd = cd h\<rparr>"

definition set_flags :: "flags \<Rightarrow> header \<Rightarrow> header" where
  "set_flags f h =
     set_cd (f_cd f) (set_ad (f_ad f) (set_ra (f_ra f) (set_rd (f_rd f) (set_tc (f_tc f)
       (set_aa (f_aa f) (set_qr (f_qr f) h))))))"

text \<open>Writing a flag moves the separator on to a space.\<close>

definition write_flag :: "bool \<Rightarrow> string \<Rightarrow> string \<times> string \<Rightarrow> string \<times> string" where
  "write_flag on name st = (case st of (out, sep) \<Rightarrow> if on then (out @ sep @ name, '' '') else (out, sep))"

definition flags_display :: "flags \<Rightarrow> string" where
  "flags_display f =
     fst (write_flag (f_cd f) ''CD'' (write_flag (f_ad f) ''AD'' (write_flag (f_ra f) ''RA''
       (write_flag (f_rd f) ''RD'' (write_flag (f_tc f) ''TC'' (write_flag (f_aa f) ''AA''
         (write_flag (f_qr f) ''QR'' ('''', ''''))))))))"

datatype flags_from_str_error = FlagsFromStrError

text \<open>\<open>str::split\<close> at a character.\<close>

fun split_char :: "char \<Rightarrow> string \<Rightarrow> string list" where
  "split_char c [] = [[]]"
| "split_char c (x # xs) =
     (if x = c then [] # split_char c xs
      else (case split_char c xs of [] \<Rightarrow> [[x]] | t # ts \<Rightarrow> (x # t) # ts))"

definition flag_token :: "string \<Rightarrow> flags \<Rightarrow> (flags, flags_from_str_error) result" where
  "flag_token token f =
     (if token \<in> {''QR'', ''Qr'', ''qR'', ''qr''} then Ok (f\<lparr>f_qr := True\<rparr>)
      else if token \<in> {''AA'', ''Aa'', ''aA'', ''aa''} then Ok (f\<lparr>f_aa := True\<rparr>)
      else if token \<in> {''TC'', ''Tc'', ''tC'', ''tc''} then Ok (f\<lparr>f_tc := True\<rparr>)
      else if token \<in> {''RD'', ''Rd'', ''rD'', ''rd''} then Ok (f\<lparr>f_rd := True\<rparr>)
      else if token \<in> {''RA'', ''Ra'', ''rA'', ''ra''} then Ok (f\<lparr>f_ra := True\<rparr>)
      else if token \<in> {''AD'', ''Ad'', ''aD'', ''ad''} then Ok (f\<lparr>f_ad := True\<rparr>)
      else if token \<in> {''CD'', ''Cd'', ''cD'', ''cd''} then Ok (f\<lparr>f_cd := True\<rparr>)
      else if token = '''' then Ok f
      else Err FlagsFromStrError)"

fun flag_tokens :: "string list \<Rightarrow> flags \<Rightarrow> (flags, flags_from_str_error) result" where
  "flag_tokens [] f = Ok f"
| "flag_tokens (t # ts) f = rbind (flag_token t f) (flag_tokens ts)"

definition flags_from_str :: "string \<Rightarrow> (flags, flags_from_str_error) result" where
  "flags_from_str s = flag_tokens (split_char (CHR '' '') s) flags_new"

section \<open>Header counts\<close>

type_synonym header_counts = octets

definition counts_new :: header_counts where
  "counts_new = replicate 8 0"

definition counts_for_message_slice :: "octets \<Rightarrow> (header_counts, 'e) result" where
  "counts_for_message_slice s = (if length s \<ge> 12 then Ok (take 8 (drop 4 s)) else Panic)"

definition counts_for_message_slice_mut ::
    "(header_counts \<Rightarrow> ('a, 'e) result \<times> header_counts) \<Rightarrow> octets \<Rightarrow> ('a, 'e) result \<times> octets" where
  "counts_for_message_slice_mut f s =
     (if length s \<ge> 12 then (case f (take 8 (drop 4 s)) of (r, c) \<Rightarrow> (r, take 4 s @ c @ drop 12 s))
      else (Panic, s))"

definition get_u16 :: "header_counts \<Rightarrow> nat \<Rightarrow> u16" where
  "get_u16 c offset = from_be_bytes (take 2 (drop offset c))"

definition set_u16 :: "nat \<Rightarrow> u16 \<Rightarrow> header_counts \<Rightarrow> header_counts" where
  "set_u16 offset v c = take offset c @ to_be_bytes v @ drop (offset + 2) c"

definition qdcount :: "header_counts \<Rightarrow> u16" where "qdcount c = get_u16 c 0"
definition set_qdcount :: "u16 \<Rightarrow> header_counts \<Rightarrow> header_counts" where "set_qdcount = set_u16 0"
definition ancount :: "header_counts \<Rightarrow> u16" where "ancount c = get_u16 c 2"
definition set_ancount :: "u16 \<Rightarrow> header_counts \<Rightarrow> header_counts" where "set_ancount = set_u16 2"
definition nscount :: "header_counts \<Rightarrow> u16" where "nscount c = get_u16 c 4"
definition set_nscount :: "u16 \<Rightarrow> header_counts \<Rightarrow> header_counts" where "set_nscount = set_u16 4"
definition arcount :: "header_counts \<Rightarrow> u16" where "arcount c = get_u16 c 6"
definition set_arcount :: "u16 \<Rightarrow> header_counts \<Rightarrow> header_counts" where "set_arcount = set_u16 6"

datatype count_overflow = CountOverflow

definition inc_qdcount :: "(header_counts, unit, count_overflow) step" where
  "inc_qdcount c = (if qdcount c = - 1 then (Err CountOverflow, c) else (Ok (), set_qdcount (qdcount c + 1) c))"

definition dec_qdcount :: "(header_counts, unit, 'e) step" where
  "dec_qdcount c = (if qdcount c > 0 then (Ok (), set_qdcount (qdcount c - 1) c) else (Panic, c))"

definition inc_ancount :: "(header_counts, unit, count_overflow) step" where
  "inc_ancount c = (if ancount c = - 1 then (Err CountOverflow, c) else (Ok (), set_ancount (ancount c + 1) c))"

definition dec_ancount :: "(header_counts, unit, 'e) step" where
  "dec_ancount c = (if ancount c > 0 then (Ok (), set_ancount (ancount c - 1) c) else (Panic, c))"

definition inc_nscount :: "(header_counts, unit, count_overflow) step" where
  "inc_nscount c = (if nscount c = - 1 then (Err CountOverflow, c) else (Ok (), set_nscount (nscount c + 1) c))"

definition dec_nscount :: "(header_counts, unit, 'e) step" where
  "dec_nscount c = (if nscount c > 0 then (Ok (), set_nscount (nscount c - 1) c) else (Panic, c))"

definition inc_arcount :: "(header_counts, unit, count_overflow) step" where
  "inc_arcount c = (if arcount c = - 1 then (Err CountOverflow, c) else (Ok (), set_arcount (arcount c + 1) c))"

definition dec_arcount :: "(header_counts, unit, 'e) step" where
  "dec_arcount c = (if arcount c > 0 then (Ok (), set_arcount (arcount c - 1) c) else (Panic, c))"

section \<open>Header section\<close>

type_synonym header_section = octets

definition section_new :: header_section where
  "section_new = replicate 12 0"

definition section_for_message_slice :: "octets \<Rightarrow> (header_section, 'e) result" where
  "section_for_message_slice s = (if length s \<ge> 12 then Ok (take 12 s) else Panic)"

definition section_header :: "header_section \<Rightarrow> (header, 'e) result" where
  "section_header s = header_for_message_slice s"

definition section_counts :: "header_section \<Rightarrow> (header_counts, 'e) result" where
  "section_counts s = counts_for_message_slice s"

definition header_section_parse :: "parser_ops \<Rightarrow> parser \<Rightarrow> header_section parse_result" where
  "header_section_parse P p = rmap_err parse_error_from_short (ps_parse_buf P p 12)"

definition header_section_compose :: "'b builder_ops \<Rightarrow> header_section \<Rightarrow> 'b target_step" where
  "header_section_compose B s t = bo_append B t s"

section \<open>The fields of a header\<close>

text \<open>What a header means: its fields, independently of where they are kept.\<close>

record header_fields =
  hf_id :: u16
  hf_qr :: bool
  hf_opcode :: octet
  hf_aa :: bool
  hf_tc :: bool
  hf_rd :: bool
  hf_ra :: bool
  hf_z :: bool
  hf_ad :: bool
  hf_cd :: bool
  hf_rcode :: octet

definition fields_of :: "header \<Rightarrow> header_fields" where
  "fields_of h = \<lparr>hf_id = header_id h, hf_qr = qr h, hf_opcode = opcode h, hf_aa = aa h, hf_tc = tc h,
     hf_rd = rd h, hf_ra = ra h, hf_z = zbit h, hf_ad = ad h, hf_cd = cd h, hf_rcode = rcode h\<rparr>"

definition header_ok :: "header \<Rightarrow> bool" where
  "header_ok h \<longleftrightarrow> length h = 4"

lemma get_bit_bit: "get_bit h offset b = bit (h ! offset) b"
  by (simp add: get_bit_def push_bit_eq_mult and_exp_eq_0_iff_not_bit)

lemma bit_0x0F: "bit (0x0F :: int) n \<longleftrightarrow> n < 4"
proof -
  have "mask 4 = (0x0F :: int)" by (simp add: mask_eq_exp_minus_1)
  from arg_cong [OF this, of "\<lambda>w. bit w n"] show ?thesis by (auto simp: bit_mask_iff)
qed

lemma opcode_bit: "bit (opcode h) n \<longleftrightarrow> n < 4 \<and> bit (h ! 2) (n + 3)"
  by (auto simp: opcode_def bit_and_iff bit_drop_bit_eq bit_0x0F add.commute)

lemma rcode_bit: "bit (rcode h) n \<longleftrightarrow> n < 4 \<and> bit (h ! 3) n"
  by (auto simp: rcode_def bit_and_iff bit_0x0F)

lemma octet_eqI: "(\<And>n. n < 8 \<Longrightarrow> bit (v :: octet) n = bit w n) \<Longrightarrow> v = w"
  by (rule bit_word_eqI) simp

lemma fields_eqI:
  assumes "header_id g = header_id h" "\<And>n. n < 8 \<Longrightarrow> bit (g ! 2) n = bit (h ! 2) n"
    "\<And>n. n < 8 \<Longrightarrow> bit (g ! 3) n = bit (h ! 3) n"
  shows "fields_of g = fields_of h"
proof -
  have "g ! 2 = h ! 2" "g ! 3 = h ! 3" using assms by (auto intro: octet_eqI)
  with assms(1) show ?thesis
    by (simp add: fields_of_def qr_def opcode_def aa_def tc_def rd_def ra_def zbit_def ad_def cd_def rcode_def get_bit_def)
qed

lemma set_header_bit_nth:
  "offset < length h \<Longrightarrow> b < 8 \<Longrightarrow>
     bit (set_header_bit offset b on h ! i) n =
       (if i = offset \<and> n = b then on else bit (h ! i) n)"
  by (auto simp: set_header_bit_def nth_list_update bit_or_iff bit_and_iff bit_not_iff bit_exp_iff
      push_bit_eq_mult dest: bit_imp_le_length)

lemma set_header_bit_id [simp]: "2 \<le> offset \<Longrightarrow> header_id (set_header_bit offset b on h) = header_id h"
  by (simp add: header_id_def set_header_bit_def)

lemma set_header_bit_length [simp]: "length (set_header_bit offset b on h) = length h"
  by (simp add: set_header_bit_def)

lemmas header_bit_defs = qr_def aa_def tc_def rd_def ra_def zbit_def ad_def cd_def get_bit_bit

lemmas header_set_bit_defs =
  set_qr_def set_aa_def set_tc_def set_rd_def set_ra_def set_z_def set_ad_def set_cd_def

lemma set_bits_refine:
  assumes "header_ok h"
  shows "fields_of (set_qr v h) = (fields_of h)\<lparr>hf_qr := v\<rparr>"
    "fields_of (set_aa v h) = (fields_of h)\<lparr>hf_aa := v\<rparr>"
    "fields_of (set_tc v h) = (fields_of h)\<lparr>hf_tc := v\<rparr>"
    "fields_of (set_rd v h) = (fields_of h)\<lparr>hf_rd := v\<rparr>"
    "fields_of (set_ra v h) = (fields_of h)\<lparr>hf_ra := v\<rparr>"
    "fields_of (set_z v h) = (fields_of h)\<lparr>hf_z := v\<rparr>"
    "fields_of (set_ad v h) = (fields_of h)\<lparr>hf_ad := v\<rparr>"
    "fields_of (set_cd v h) = (fields_of h)\<lparr>hf_cd := v\<rparr>"
  using assms
  by (auto simp: header_ok_def fields_of_def header_bit_defs header_set_bit_defs set_header_bit_nth
      opcode_bit rcode_bit intro!: octet_eqI)

lemma header_ok_setters [simp]:
  "header_ok h \<Longrightarrow> header_ok (set_header_bit offset b on h)"
  "header_ok h \<Longrightarrow> header_ok (set_id i h)" "header_ok h \<Longrightarrow> header_ok (set_opcode c h)"
  "header_ok h \<Longrightarrow> header_ok (set_rcode c h)"
  by (simp_all add: header_ok_def set_id_def set_opcode_def set_rcode_def)

lemma set_id_refine: "header_ok h \<Longrightarrow> fields_of (set_id v h) = (fields_of h)\<lparr>hf_id := v\<rparr>"
  by (simp add: header_ok_def fields_of_def set_id_def header_id_def header_bit_defs opcode_def rcode_def nth_append)

lemma set_opcode_bit:
  "header_ok h \<Longrightarrow> n < 8 \<Longrightarrow>
     bit (set_opcode v h ! i) n =
       (if i = 2 then n \<in> {0, 1, 2, 7} \<and> bit (h ! 2) n \<or> 3 \<le> n \<and> bit v (n - 3) else bit (h ! i) n)"
proof -
  assume h: "header_ok h" and n: "n < 8"
  from n have "n \<in> {0, 1, 2, 3, 4, 5, 6, 7}" by auto
  then have "bit (0x87 :: int) n \<longleftrightarrow> n \<in> {0, 1, 2, 7}" by auto
  with h n show ?thesis
    by (auto simp: header_ok_def set_opcode_def nth_list_update bit_or_iff bit_and_iff bit_push_bit_iff)
qed

lemma set_rcode_bit:
  "header_ok h \<Longrightarrow> n < 8 \<Longrightarrow>
     bit (set_rcode v h ! i) n =
       (if i = 3 then (if n < 4 then bit v n else bit (h ! 3) n) else bit (h ! i) n)"
proof -
  assume h: "header_ok h" and n: "n < 8"
  from n have "n \<in> {0, 1, 2, 3, 4, 5, 6, 7}" by auto
  then have "bit (0xF0 :: int) n \<longleftrightarrow> 4 \<le> n" by auto
  with h n show ?thesis
    by (auto simp: header_ok_def set_rcode_def nth_list_update bit_or_iff bit_and_iff bit_0x0F)
qed

lemma octet_bit_less: "v < 16 \<Longrightarrow> 4 \<le> n \<Longrightarrow> \<not> bit (v :: octet) n"
proof -
  assume "v < 16" "4 \<le> n"
  then have "take_bit 4 (unat v) = unat v" by (simp add: take_bit_nat_eq_self_iff word_less_nat_alt)
  then have "\<not> bit (unat v) n" using \<open>4 \<le> n\<close> by (metis bit_take_bit_iff not_le)
  then show ?thesis by (auto simp: bit_unsigned_iff dest: bit_imp_le_length)
qed

lemma set_opcode_refine:
  assumes "header_ok h" "v < 16"
  shows "fields_of (set_opcode v h) = (fields_of h)\<lparr>hf_opcode := v\<rparr>"
proof -
  have "header_id (set_opcode v h) = header_id h" by (simp add: header_id_def set_opcode_def)
  moreover have "opcode (set_opcode v h) = v"
  proof (rule octet_eqI)
    fix n
    show "bit (opcode (set_opcode v h)) n = bit v n"
      using octet_bit_less [OF assms(2), of n] set_opcode_bit [OF assms(1), of "n + 3" v 2]
      by (cases "n < 4") (simp_all add: opcode_bit)
  qed
  moreover have "rcode (set_opcode v h) = rcode h" by (simp add: rcode_def set_opcode_def)
  ultimately show ?thesis
    using octet_bit_less [OF assms(2), of 4]
    by (simp add: fields_of_def header_bit_defs set_opcode_bit [OF assms(1)])
qed

lemma set_rcode_refine:
  assumes "header_ok h"
  shows "fields_of (set_rcode v h) = (fields_of h)\<lparr>hf_rcode := v AND 0x0F\<rparr>"
proof -
  have "header_id (set_rcode v h) = header_id h" by (simp add: header_id_def set_rcode_def)
  moreover have "rcode (set_rcode v h) = v AND 0x0F"
    by (intro octet_eqI) (auto simp: rcode_bit bit_and_iff bit_0x0F set_rcode_bit [OF assms])
  moreover have "opcode (set_rcode v h) = opcode h" by (simp add: opcode_def set_rcode_def)
  ultimately show ?thesis
    by (simp add: fields_of_def header_bit_defs set_rcode_bit [OF assms])
qed

lemma fields_inj:
  assumes "header_ok g" "header_ok h" "fields_of g = fields_of h"
  shows "g = h"
proof -
  have id: "from_be_bytes (take 2 g) = (from_be_bytes (take 2 h) :: u16)"
    and rc: "rcode g = rcode h" and oc: "opcode g = opcode h"
    using assms(3) by (simp_all add: fields_of_def header_id_def)
  have "take 2 g = take 2 h"
    using arg_cong [OF id, of to_be_bytes] assms(1,2) by (simp add: to_from_be_bytes header_ok_def)
  moreover have "g ! 2 = h ! 2"
  proof (rule octet_eqI)
    fix n :: nat
    assume "n < 8"
    have flags: "bit (g ! 2) k = bit (h ! 2) k" if "k \<in> {0, 1, 2, 7}" for k
      using assms(3) that by (auto simp: fields_of_def header_bit_defs)
    have op: "bit (g ! 2) (k + 3) = bit (h ! 2) (k + 3)" if "k < 4" for k
      using arg_cong [OF oc, of "\<lambda>w. bit w k"] that by (simp add: opcode_bit)
    from \<open>n < 8\<close> have "n \<in> {0, 1, 2, 7} \<or> 3 \<le> n \<and> n - 3 < 4" by auto
    then show "bit (g ! 2) n = bit (h ! 2) n" using flags [of n] op [of "n - 3"] by auto
  qed
  moreover have "g ! 3 = h ! 3"
  proof (rule octet_eqI)
    fix n :: nat
    assume "n < 8"
    have flags: "bit (g ! 3) k = bit (h ! 3) k" if "k \<in> {4, 5, 6, 7}" for k
      using assms(3) that by (auto simp: fields_of_def header_bit_defs)
    have op: "bit (g ! 3) k = bit (h ! 3) k" if "k < 4" for k
      using arg_cong [OF rc, of "\<lambda>w. bit w k"] that by (simp add: rcode_bit)
    from \<open>n < 8\<close> have "n \<in> {4, 5, 6, 7} \<or> n < 4" by auto
    then show "bit (g ! 3) n = bit (h ! 3) n" using flags op by blast
  qed
  moreover have "x = take 2 x @ [x ! 2, x ! 3]" if "header_ok x" for x
    using that by (auto simp: header_ok_def numeral_eq_Suc length_Suc_conv)
  ultimately show ?thesis using assms(1,2) by metis
qed

section \<open>The counts\<close>

text \<open>A count at an offset is independent of the others.\<close>

definition counts_ok :: "header_counts \<Rightarrow> bool" where
  "counts_ok c \<longleftrightarrow> length c = 8"

lemma set_u16_ok [simp]: "counts_ok c \<Longrightarrow> offset \<le> 6 \<Longrightarrow> counts_ok (set_u16 offset v c)"
  by (simp add: counts_ok_def set_u16_def)

lemma get_set_u16:
  assumes "counts_ok c" "offset \<in> {0, 2, 4, 6}" "offset' \<in> {0, 2, 4, 6}"
  shows "get_u16 (set_u16 offset v c) offset' = (if offset' = offset then v else get_u16 c offset')"
proof -
  obtain x y where v: "to_be_bytes v = [x, y]"
  proof -
    have "length (to_be_bytes v) = Suc (Suc 0)" by simp
    then show thesis using that by (auto simp only: length_Suc_conv length_0_conv)
  qed
  then have "from_be_bytes [x, y] = v" using from_to_be_bytes [of v] by simp
  moreover obtain a0 a1 a2 a3 a4 a5 a6 a7 where "c = [a0, a1, a2, a3, a4, a5, a6, a7]"
  proof -
    have "length c = Suc (Suc (Suc (Suc (Suc (Suc (Suc (Suc 0)))))))" using assms(1) by (simp add: counts_ok_def)
    then show thesis using that by (auto simp only: length_Suc_conv length_0_conv)
  qed
  ultimately show ?thesis using assms(2,3) v by (auto simp: get_u16_def set_u16_def)
qed

lemmas counts_defs = qdcount_def ancount_def nscount_def arcount_def
  set_qdcount_def set_ancount_def set_nscount_def set_arcount_def

definition all_counts :: "header_counts \<Rightarrow> u16 \<times> u16 \<times> u16 \<times> u16" where
  "all_counts c = (qdcount c, ancount c, nscount c, arcount c)"

lemma header_ok_flags [simp]:
  "header_ok h \<Longrightarrow> header_ok (set_qr v h)" "header_ok h \<Longrightarrow> header_ok (set_aa v h)" "header_ok h \<Longrightarrow> header_ok (set_tc v h)"
  "header_ok h \<Longrightarrow> header_ok (set_rd v h)" "header_ok h \<Longrightarrow> header_ok (set_ra v h)" "header_ok h \<Longrightarrow> header_ok (set_z v h)"
  "header_ok h \<Longrightarrow> header_ok (set_ad v h)" "header_ok h \<Longrightarrow> header_ok (set_cd v h)"
  by (simp_all add: header_set_bit_defs)

lemma set_flags_refine:
  assumes "header_ok h"
  shows "fields_of (set_flags f h) = (fields_of h)\<lparr>hf_qr := f_qr f, hf_aa := f_aa f, hf_tc := f_tc f, hf_rd := f_rd f,
    hf_ra := f_ra f, hf_ad := f_ad f, hf_cd := f_cd f\<rparr>"
  using assms by (simp add: set_flags_def set_bits_refine)

section \<open>Properties\<close>

text \<open>
  C27.  The accessors of a header refine independent fields: a header of four octets is determined by its
  fields, and every setter changes its own field to the given value and no other, for operation codes of four bits.
\<close>

theorem header_setters_refine:
  assumes "header_ok h" "oc < 16"
  shows "(header_ok g \<longrightarrow> (fields_of g = fields_of h \<longleftrightarrow> g = h)) \<and>
    fields_of (set_id i h) = (fields_of h)\<lparr>hf_id := i\<rparr> \<and>
    fields_of (set_qr v h) = (fields_of h)\<lparr>hf_qr := v\<rparr> \<and>
    fields_of (set_opcode oc h) = (fields_of h)\<lparr>hf_opcode := oc\<rparr> \<and>
    fields_of (set_aa v h) = (fields_of h)\<lparr>hf_aa := v\<rparr> \<and>
    fields_of (set_tc v h) = (fields_of h)\<lparr>hf_tc := v\<rparr> \<and>
    fields_of (set_rd v h) = (fields_of h)\<lparr>hf_rd := v\<rparr> \<and>
    fields_of (set_ra v h) = (fields_of h)\<lparr>hf_ra := v\<rparr> \<and>
    fields_of (set_z v h) = (fields_of h)\<lparr>hf_z := v\<rparr> \<and>
    fields_of (set_ad v h) = (fields_of h)\<lparr>hf_ad := v\<rparr> \<and>
    fields_of (set_cd v h) = (fields_of h)\<lparr>hf_cd := v\<rparr> \<and>
    fields_of (set_rcode rc h) = (fields_of h)\<lparr>hf_rcode := rc AND 0x0F\<rparr> \<and>
    fields_of (set_flags f h) = (fields_of h)\<lparr>hf_qr := f_qr f, hf_aa := f_aa f, hf_tc := f_tc f, hf_rd := f_rd f,
      hf_ra := f_ra f, hf_ad := f_ad f, hf_cd := f_cd f\<rparr>"
  using fields_inj [of g h] set_id_refine set_bits_refine [OF assms(1), of v] set_opcode_refine [OF assms] set_rcode_refine
    set_flags_refine assms(1)
  by blast

theorem header_setters_refine_witness:
  "fields_of (set_opcode 5 header_new) = (fields_of header_new)\<lparr>hf_opcode := 5\<rparr>"
  using header_setters_refine [of header_new 5 header_new] by (simp add: header_ok_def header_new_def)

text \<open>
  \<open>set_opcode\<close> does not mask the operation code: one with its fifth bit set also sets the QR flag.
\<close>

theorem set_opcode_sets_qr:
  assumes "header_ok h"
  shows "qr (set_opcode v h) \<longleftrightarrow> qr h \<or> bit v 4"
  using set_opcode_bit [OF assms, of 7 v 2] by (simp add: header_bit_defs)

theorem set_opcode_sets_qr_witness: "qr (set_opcode 16 header_new)"
  using set_opcode_sets_qr [of header_new 16] by (simp add: header_ok_def header_new_def)

text \<open>
  C28.  The four counts of a header are independent 16 bit numbers: setting, increasing or decreasing one leaves
  the others alone.  Increasing the largest count is an error, and decreasing zero panics; neither changes anything.
\<close>

theorem counts_independent:
  assumes "counts_ok c" "all_counts c = (qd, an, ns, ar)"
  shows "all_counts (set_qdcount v c) = (v, an, ns, ar) \<and> all_counts (set_ancount v c) = (qd, v, ns, ar) \<and>
    all_counts (set_nscount v c) = (qd, an, v, ar) \<and> all_counts (set_arcount v c) = (qd, an, ns, v) \<and>
    inc_qdcount c = (if qd = - 1 then (Err CountOverflow, c) else (Ok (), set_qdcount (qd + 1) c)) \<and>
    inc_ancount c = (if an = - 1 then (Err CountOverflow, c) else (Ok (), set_ancount (an + 1) c)) \<and>
    inc_nscount c = (if ns = - 1 then (Err CountOverflow, c) else (Ok (), set_nscount (ns + 1) c)) \<and>
    inc_arcount c = (if ar = - 1 then (Err CountOverflow, c) else (Ok (), set_arcount (ar + 1) c)) \<and>
    dec_qdcount c = ((if qd = 0 then Panic else Ok ()) :: (unit, 'e) result, if qd = 0 then c else set_qdcount (qd - 1) c) \<and>
    dec_ancount c = ((if an = 0 then Panic else Ok ()) :: (unit, 'e) result, if an = 0 then c else set_ancount (an - 1) c) \<and>
    dec_nscount c = ((if ns = 0 then Panic else Ok ()) :: (unit, 'e) result, if ns = 0 then c else set_nscount (ns - 1) c) \<and>
    dec_arcount c = ((if ar = 0 then Panic else Ok ()) :: (unit, 'e) result, if ar = 0 then c else set_arcount (ar - 1) c)"
  using assms(2) get_set_u16 [OF assms(1)]
  by (auto simp: all_counts_def counts_defs inc_qdcount_def inc_ancount_def inc_nscount_def inc_arcount_def
      dec_qdcount_def dec_ancount_def dec_nscount_def dec_arcount_def word_gt_0)

theorem counts_independent_witness:
  "all_counts (set_nscount 7 [0, 1, 0, 2, 0, 3, 255, 255]) = (1, 2, 7, - 1) \<and>
   inc_arcount [0, 1, 0, 2, 0, 3, 255, 255] = (Err CountOverflow, [0, 1, 0, 2, 0, 3, 255, 255])"
proof -
  have c: "counts_ok [0, 1, 0, 2, 0, 3, 255, 255]" "all_counts [0, 1, 0, 2, 0, 3, 255, 255] = (1, 2, 3, - 1)"
    by (simp_all add: counts_ok_def all_counts_def counts_defs get_u16_def from_be_bytes_def)
  from counts_independent [where 'e = unit, OF c, of 7] show ?thesis by simp
qed

text \<open>
  The displayed flags read back as the same flags, and flags set in a header are those it has.
\<close>

theorem flags_roundtrip:
  assumes "header_ok h"
  shows "flags_from_str (flags_display f) = Ok f \<and> header_flags (set_flags f h) = f"
proof
  have "\<forall>a b c d e f g. flags_from_str (flags_display
      \<lparr>f_qr = a, f_aa = b, f_tc = c, f_rd = d, f_ra = e, f_ad = f, f_cd = g\<rparr>) =
      Ok \<lparr>f_qr = a, f_aa = b, f_tc = c, f_rd = d, f_ra = e, f_ad = f, f_cd = g\<rparr>"
    by code_simp
  then show "flags_from_str (flags_display f) = Ok f" by (cases f) simp
  have "fields_of (set_flags f h) = (fields_of h)\<lparr>hf_qr := f_qr f, hf_aa := f_aa f, hf_tc := f_tc f, hf_rd := f_rd f,
      hf_ra := f_ra f, hf_ad := f_ad f, hf_cd := f_cd f\<rparr>" using assms by (rule set_flags_refine)
  then show "header_flags (set_flags f h) = f" by (simp add: fields_of_def header_flags_def)
qed

theorem flags_roundtrip_witness:
  "header_flags (set_flags (flags_new\<lparr>f_aa := True\<rparr>) header_new) = flags_new\<lparr>f_aa := True\<rparr>"
  using flags_roundtrip [of header_new "flags_new\<lparr>f_aa := True\<rparr>"] by (simp add: header_ok_def header_new_def)

end
