(* ===== verification/Message.thy ===== *)
theory Message
  imports Records Header
begin

text \<open>
  \<^verbatim>\<open>src/base/message.rs\<close>: messages, their sections, and the iterators over questions and records.  An iterator is a state and a function
  that returns the next item, if there is one, and the new state; an item is a result.  The parser of a section whose count is an error is
  not used any more: it stays where it was.
\<close>

section \<open>Messages\<close>

type_synonym message = octets

datatype short_message = ShortMessage

definition message_check_slice :: "octets \<Rightarrow> (unit, short_message) result" where
  "message_check_slice octs = (if length octs < 12 then Err ShortMessage else Ok ())"

definition message_from_octets :: "octets \<Rightarrow> (message, short_message) result" where
  "message_from_octets octs = rbind (message_check_slice octs) (\<lambda>_. Ok octs)"

definition message_try_from_octets :: "octets \<Rightarrow> (message, octets) result" where
  "message_try_from_octets octs = (case message_check_slice octs of Err _ \<Rightarrow> Err octs | _ \<Rightarrow> Ok octs)"

definition NOERROR :: octet where "NOERROR = 0"

definition message_no_error :: "message \<Rightarrow> (bool, 'e) result" where
  "message_no_error m = rmap (\<lambda>h. rcode h = NOERROR) (header_for_message_slice m)"

definition message_is_error :: "message \<Rightarrow> (bool, 'e) result" where
  "message_is_error m = rmap (\<lambda>h. rcode h \<noteq> NOERROR) (header_for_message_slice m)"

section \<open>Counted iteration\<close>

type_synonym 'a item = "('a, parse_error) result option"

type_synonym counted = "parser \<times> (u16, parse_error) result"

text \<open>What the iterators over a section have in common: they parse as many values as the header says, until there is an error.\<close>

definition count_next :: "(parser \<Rightarrow> 'a parse_result) \<Rightarrow> counted \<Rightarrow> 'a item \<times> counted" where
  "count_next parse = (\<lambda>(parser, count).
     case count of
       Ok n \<Rightarrow>
         if n > 0 then
           (case parse parser of
              Ok (x, parser) \<Rightarrow> (Some (Ok x), parser, Ok (n - 1))
            | Err err \<Rightarrow> (Some (Err err), parser, Err err)
            | Panic \<Rightarrow> (Some Panic, parser, count))
         else (None, parser, count)
     | _ \<Rightarrow> (None, parser, count))"

fun left :: "counted \<Rightarrow> nat" where
  "left (p, Ok n) = unat n"
| "left (p, _) = 0"

lemma unat_pred: "(n :: u16) > 0 \<Longrightarrow> unat (n - 1) = unat n - 1"
  by (simp add: unat_minus_one word_gt_0)

lemma count_next_left: "count_next parse s = (Some r, s') \<Longrightarrow> r \<noteq> Panic \<Longrightarrow> left s' < left s"
  by (cases s) (auto simp: count_next_def unat_pred word_gt_0_no unat_gt_0 word_gt_0 split: result.splits if_splits prod.splits)

text \<open>\<open>while self.next().is_some() {}\<close>\<close>

function count_skip :: "(parser \<Rightarrow> 'a parse_result) \<Rightarrow> counted \<Rightarrow> (counted, 'e) result" where
  "count_skip parse s =
     (case count_next parse s of
        (None, s) \<Rightarrow> Ok s
      | (Some r, s) \<Rightarrow> (case r of Panic \<Rightarrow> Panic | _ \<Rightarrow> count_skip parse s))"
  by pat_completeness auto
termination
  by (relation "measure (\<lambda>(_, s). left s)") (auto dest!: sym [of "(_, _)"] count_next_left)

section \<open>The question section\<close>

record question_section =
  qs_parser :: parser
  qs_count :: "(u16, parse_error) result"

definition question_section_new :: "parser_ops \<Rightarrow> message \<Rightarrow> (question_section, 'e) result" where
  "question_section_new P m =
     rbind (runwrap (ps_advance P (ps_from_ref P m) 12)) (\<lambda>parser.
     rbind (counts_for_message_slice (ps_as_slice P parser)) (\<lambda>counts.
       Ok \<lparr>qs_parser = parser, qs_count = Ok (qdcount counts)\<rparr>))"

definition question_section_next :: "parser_ops \<Rightarrow> question_section \<Rightarrow> parsed_name question item \<times> question_section" where
  "question_section_next P s =
     (case count_next (question_parse P) (qs_parser s, qs_count s) of
        (item, parser, count) \<Rightarrow> (item, \<lparr>qs_parser = parser, qs_count = count\<rparr>))"

abbreviation qs_left :: "question_section \<Rightarrow> nat" where
  "qs_left s \<equiv> left (qs_parser s, qs_count s)"

lemma question_section_left: "question_section_next P s = (Some r, s') \<Longrightarrow> r \<noteq> Panic \<Longrightarrow> qs_left s' < qs_left s"
  by (auto simp: question_section_next_def split: prod.splits dest: count_next_left)

function question_section_eq :: "parser_ops \<Rightarrow> question_section \<Rightarrow> question_section \<Rightarrow> (bool, 'e) result" where
  "question_section_eq P me other =
     (case (question_section_next P me, question_section_next P other) of
        ((Some (Ok l), me), (Some (Ok r), other)) \<Rightarrow>
          if \<not> question_eq (question_view l) (question_view r) then Ok False else question_section_eq P me other
      | ((Some Panic, _), _) \<Rightarrow> Panic
      | (_, (Some Panic, _)) \<Rightarrow> Panic
      | ((None, _), (None, _)) \<Rightarrow> Ok True
      | _ \<Rightarrow> Ok False)"
  by pat_completeness auto
termination
  by (relation "measure (\<lambda>(_, s, _). qs_left s)") (auto dest!: sym [of "(_, _)"] question_section_left)

section \<open>Sections of records\<close>

datatype message_section = Answer | Authority | Additional

fun section_count :: "message_section \<Rightarrow> header_counts \<Rightarrow> u16" where
  "section_count Answer counts = ancount counts"
| "section_count Authority counts = nscount counts"
| "section_count Additional counts = arcount counts"

fun next_section :: "message_section \<Rightarrow> message_section option" where
  "next_section Answer = Some Authority"
| "next_section Authority = Some Additional"
| "next_section Additional = None"

record record_section =
  rs_parser :: parser
  rs_section :: message_section
  rs_count :: "(u16, parse_error) result"

definition record_section_new :: "parser_ops \<Rightarrow> parser \<Rightarrow> message_section \<Rightarrow> (record_section, 'e) result" where
  "record_section_new P parser sec =
     rbind (counts_for_message_slice (ps_as_slice P parser)) (\<lambda>counts.
       Ok \<lparr>rs_parser = parser, rs_section = sec, rs_count = Ok (section_count sec counts)\<rparr>)"

definition question_section_answer :: "parser_ops \<Rightarrow> question_section \<Rightarrow> (record_section, parse_error) result" where
  "question_section_answer P s =
     rbind (count_skip (question_parse P) (qs_parser s, qs_count s)) (\<lambda>(parser, count).
     rbind count (\<lambda>_. record_section_new P parser Answer))"

definition record_section_next :: "parser_ops \<Rightarrow> record_section \<Rightarrow> parsed_record item \<times> record_section" where
  "record_section_next P s =
     (case count_next (parsed_record_parse P) (rs_parser s, rs_count s) of
        (item, parser, count) \<Rightarrow> (item, s\<lparr>rs_parser := parser, rs_count := count\<rparr>))"

definition record_section_next_section :: "parser_ops \<Rightarrow> record_section \<Rightarrow> (record_section option, parse_error) result" where
  "record_section_next_section P s =
     (case next_section (rs_section s) of
        None \<Rightarrow> Ok None
      | Some sec \<Rightarrow>
          rbind (count_skip (\<lambda>p. rmap (\<lambda>p. ((), p)) (parsed_record_skip P p)) (rs_parser s, rs_count s)) (\<lambda>(parser, count).
          rbind count (\<lambda>_. rmap Some (record_section_new P parser sec))))"

abbreviation rs_left :: "record_section \<Rightarrow> nat" where
  "rs_left s \<equiv> left (rs_parser s, rs_count s)"

lemma record_section_left: "record_section_next P s = (Some r, s') \<Longrightarrow> r \<noteq> Panic \<Longrightarrow> rs_left s' < rs_left s"
  by (auto simp: record_section_next_def split: prod.splits dest: count_next_left)

text \<open>The iterator over the records whose data a type can parse.\<close>

function record_iter_next ::
    "parser_ops \<Rightarrow> 'd rdata_parse \<Rightarrow> bool \<Rightarrow> record_section \<Rightarrow> (parsed_name, 'd) dns_record item \<times> record_section" where
  "record_iter_next P parse in_only s =
     (case record_section_next P s of
        (Some (Ok rec), s) \<Rightarrow>
          if in_only \<and> rh_class (pr_header rec) \<noteq> CLASS_IN then record_iter_next P parse in_only s
          else (case parsed_to_record P parse rec of
                  Ok (Some rec) \<Rightarrow> (Some (Ok rec), s)
                | Err err \<Rightarrow> (Some (Err err), s)
                | Ok None \<Rightarrow> record_iter_next P parse in_only s
                | Panic \<Rightarrow> (Some Panic, s))
      | (Some (Err err), s) \<Rightarrow> (Some (Err err), s)
      | (Some Panic, s) \<Rightarrow> (Some Panic, s)
      | (None, s) \<Rightarrow> (None, s))"
  by pat_completeness auto
termination
  by (relation "measure (\<lambda>(_, _, _, s). rs_left s)") (auto dest!: sym [of "(_, _)"] record_section_left)

declare record_iter_next.simps [simp del] question_section_eq.simps [simp del] count_skip.simps [simp del]

definition any_record_iter_next ::
    "parser_ops \<Rightarrow> (u16 \<Rightarrow> parser \<Rightarrow> 'd parse_result) \<Rightarrow> record_section \<Rightarrow> (parsed_name, 'd) dns_record item \<times> record_section" where
  "any_record_iter_next P parse_any s =
     (case record_section_next P s of
        (Some (Ok rec), s) \<Rightarrow> (Some (parsed_to_any_record P parse_any rec), s)
      | (Some (Err err), s) \<Rightarrow> (Some (Err err), s)
      | (Some Panic, s) \<Rightarrow> (Some Panic, s)
      | (None, s) \<Rightarrow> (None, s))"

text \<open>The iterator over all records of a message.\<close>

fun sections_left :: "record_section option \<Rightarrow> nat" where
  "sections_left None = 0"
| "sections_left (Some s) = (case rs_section s of Answer \<Rightarrow> 3 | Authority \<Rightarrow> 2 | Additional \<Rightarrow> 1)"

lemma record_section_next_section_left:
  "record_section_next_section P s = Ok sec \<Longrightarrow> sections_left sec < sections_left (Some s)"
  by (cases "rs_section s") (auto simp: record_section_next_section_def rbind_Ok_iff rmap_Ok_iff record_section_new_def)

lemma record_section_next_same: "record_section_next P s = (r, s') \<Longrightarrow> rs_section s' = rs_section s"
  by (auto simp: record_section_next_def split: prod.splits)

function message_iter_next ::
    "parser_ops \<Rightarrow> record_section option \<Rightarrow> (parsed_record \<times> message_section) item \<times> record_section option" where
  "message_iter_next P None = (None, None)"
| "message_iter_next P (Some s) =
     (case record_section_next P s of
        (Some r, s) \<Rightarrow> (Some (rmap (\<lambda>rec. (rec, rs_section s)) r), Some s)
      | (None, s) \<Rightarrow>
          (case record_section_next_section P s of
             Ok sec \<Rightarrow> message_iter_next P sec
           | Err err \<Rightarrow> (Some (Err err), None)
           | Panic \<Rightarrow> (Some Panic, None)))"
  by pat_completeness auto
termination
  by (relation "measure (\<lambda>(_, s). sections_left s)")
    (auto dest!: sym [of "(_, _)"] record_section_next_section_left record_section_next_same)

declare message_iter_next.simps(2) [simp del]

section \<open>Accessing the sections\<close>

definition message_question :: "parser_ops \<Rightarrow> message \<Rightarrow> (question_section, 'e) result" where
  "message_question P m = question_section_new P m"

definition message_answer :: "parser_ops \<Rightarrow> message \<Rightarrow> (record_section, parse_error) result" where
  "message_answer P m = rbind (message_question P m) (question_section_answer P)"

definition message_authority :: "parser_ops \<Rightarrow> message \<Rightarrow> (record_section, parse_error) result" where
  "message_authority P m =
     rbind (message_answer P m) (\<lambda>s. rbind (record_section_next_section P s) expect_some)"

definition message_additional :: "parser_ops \<Rightarrow> message \<Rightarrow> (record_section, parse_error) result" where
  "message_additional P m =
     rbind (message_authority P m) (\<lambda>s. rbind (record_section_next_section P s) expect_some)"

definition message_sections ::
    "parser_ops \<Rightarrow> message \<Rightarrow> (question_section \<times> record_section \<times> record_section \<times> record_section, parse_error) result" where
  "message_sections P m =
     rbind (message_question P m) (\<lambda>question. rbind (question_section_answer P question) (\<lambda>answer.
     rbind (record_section_next_section P answer) (\<lambda>authority. rbind (expect_some authority) (\<lambda>authority.
     rbind (record_section_next_section P authority) (\<lambda>additional. rbind (expect_some additional) (\<lambda>additional.
       Ok (question, answer, authority, additional)))))))"

definition message_into_iter :: "parser_ops \<Rightarrow> message \<Rightarrow> (record_section option, 'e) result" where
  "message_into_iter P m = (case message_answer P m of Ok s \<Rightarrow> Ok (Some s) | Err _ \<Rightarrow> Ok None | Panic \<Rightarrow> Panic)"

section \<open>Questions and answers\<close>

definition message_is_answer :: "parser_ops \<Rightarrow> message \<Rightarrow> message \<Rightarrow> (bool, 'e) result" where
  "message_is_answer P m query =
     rbind (header_for_message_slice m) (\<lambda>h. rbind (header_for_message_slice query) (\<lambda>h'.
     if \<not> qr h \<or> header_id h \<noteq> header_id h' then Ok False
     else rbind (counts_for_message_slice m) (\<lambda>c. rbind (counts_for_message_slice query) (\<lambda>c'.
       if qdcount c \<noteq> qdcount c' then Ok False
       else rbind (message_question P m) (\<lambda>q. rbind (message_question P query) (question_section_eq P q))))))"

definition message_first_question :: "parser_ops \<Rightarrow> message \<Rightarrow> (parsed_name question option, 'e) result" where
  "message_first_question P m =
     rbind (message_question P m) (\<lambda>s.
       case fst (question_section_next P s) of
         Some (Ok question) \<Rightarrow> Ok (Some question)
       | Some Panic \<Rightarrow> Panic
       | _ \<Rightarrow> Ok None)"

definition message_sole_question :: "parser_ops \<Rightarrow> message \<Rightarrow> (parsed_name question, parse_error) result" where
  "message_sole_question P m =
     rbind (counts_for_message_slice m) (\<lambda>counts.
       if qdcount counts = 0 then Err (form_error ''no question'')
       else if qdcount counts \<noteq> 1 then Err (form_error ''multiple questions'')
       else rbind (message_question P m) (\<lambda>s. rbind (expect_some (fst (question_section_next P s))) (\<lambda>r. r)))"

definition message_qtype :: "parser_ops \<Rightarrow> message \<Rightarrow> (u16 option, 'e) result" where
  "message_qtype P m = rmap (map_option q_qtype) (message_first_question P m)"

definition AXFR_RTYPE :: u16 where "AXFR_RTYPE = 252"
definition IXFR_RTYPE :: u16 where "IXFR_RTYPE = 251"

definition message_is_xfr :: "parser_ops \<Rightarrow> message \<Rightarrow> (bool, 'e) result" where
  "message_is_xfr P m =
     rmap (\<lambda>q. case q of Some q \<Rightarrow> q_qtype q = AXFR_RTYPE \<or> q_qtype q = IXFR_RTYPE | None \<Rightarrow> False) (message_first_question P m)"

definition message_contains_answer :: "parser_ops \<Rightarrow> 'd rdata_parse \<Rightarrow> message \<Rightarrow> (bool, 'e) result" where
  "message_contains_answer P parse m =
     (case message_answer P m of
        Ok answer \<Rightarrow> (case fst (record_iter_next P parse False answer) of Some Panic \<Rightarrow> Panic | r \<Rightarrow> Ok (r \<noteq> None))
      | Err _ \<Rightarrow> Ok False
      | Panic \<Rightarrow> Panic)"

text \<open>One round of \<open>canonical_name\<close>: the first CNAME record with the owner.\<close>

lemma record_iter_left:
  "record_iter_next P parse in_only s = (Some r, s') \<Longrightarrow> r \<noteq> Panic \<Longrightarrow> rs_left s' < rs_left s"
proof (induction P parse in_only s rule: record_iter_next.induct)
  case (1 P parse in_only s)
  obtain item s1 where n: "record_section_next P s = (item, s1)" by fastforce
  show ?case
  proof (cases "\<exists>rec. item = Some (Ok rec)")
    case True
    then obtain rec where rec: "item = Some (Ok rec)" by blast
    with record_section_left n have l: "rs_left s1 < rs_left s" by blast
    note IH = 1(1) [OF n [symmetric] rec refl] 1(2) [OF n [symmetric] rec refl]
    show ?thesis
      using 1(3,4) l IH unfolding record_iter_next.simps [of P parse in_only s] n rec
      by (fastforce split: if_splits result.splits option.splits)
  next
    case False
    with 1(3,4) n show ?thesis
      unfolding record_iter_next.simps [of P parse in_only s]
      by (auto split: result.splits option.splits dest: record_section_left)
  qed
qed

function canonical_search :: "parser_ops \<Rightarrow> record_section \<Rightarrow> parsed_name \<Rightarrow> (parsed_name option, 'e) result" where
  "canonical_search P s name =
     (case record_iter_next P (name_type_parse_rdata CNAME_RTYPE P) False s of
        (Some (Ok rec), s) \<Rightarrow>
          if name_eq (pn_view (rec_owner rec)) (pn_view name) then Ok (Some (rec_data rec)) else canonical_search P s name
      | (Some (Err _), s) \<Rightarrow> canonical_search P s name
      | (Some Panic, _) \<Rightarrow> Panic
      | (None, _) \<Rightarrow> Ok None)"
  by pat_completeness auto
termination
  by (relation "measure (\<lambda>(_, s, _). rs_left s)") (auto dest!: sym [of "(_, _)"] record_iter_left)

declare canonical_search.simps [simp del]

fun canonical_loop :: "parser_ops \<Rightarrow> record_section \<Rightarrow> nat \<Rightarrow> parsed_name \<Rightarrow> (parsed_name option, 'e) result" where
  "canonical_loop P answer 0 name = Ok None"
| "canonical_loop P answer (Suc n) name =
     rbind (canonical_search P answer name) (\<lambda>found.
       case found of
         Some name \<Rightarrow> canonical_loop P answer n name
       | None \<Rightarrow> Ok (Some name))"

text \<open>The bound of the loop is a sum of \<open>u16\<close>.\<close>

definition message_canonical_name :: "parser_ops \<Rightarrow> message \<Rightarrow> (parsed_name option, 'e) result" where
  "message_canonical_name P m =
     rbind (message_first_question P m) (\<lambda>question.
       case question of
         None \<Rightarrow> Ok None
       | Some question \<Rightarrow>
           (case message_answer P m of
              Ok answer \<Rightarrow>
                rbind (counts_for_message_slice m) (\<lambda>counts.
                rbind (u16_add (Ok (ancount counts)) (Ok 1)) (\<lambda>n.
                  canonical_loop P answer (unat n) (q_qname question)))
            | Err _ \<Rightarrow> Ok None
            | Panic \<Rightarrow> Panic))"

function last_additional_loop :: "parser_ops \<Rightarrow> record_section \<Rightarrow> (record_section option, 'e) result" where
  "last_additional_loop P s =
     (case rs_count s of
        Ok n \<Rightarrow>
          if n = 0 then Ok None
          else if n = 1 then Ok (Some s)
          else (case record_section_next P s of (item, s) \<Rightarrow> if item = Some Panic then Panic else last_additional_loop P s)
      | _ \<Rightarrow> Ok None)"
  by pat_completeness auto
termination
proof (relation "measure (\<lambda>(_, s). rs_left s)")
  fix P s n item s'
  assume n: "rs_count s = Ok n" "n \<noteq> 0" "(item, s') = record_section_next P s" "item \<noteq> Some Panic"
  then have "item \<noteq> None" by (auto simp: record_section_next_def count_next_def word_gt_0 split: result.splits prod.splits)
  then obtain r where "item = Some r" by blast
  with n record_section_left [of P s r s'] show "((P, s'), P, s) \<in> measure (\<lambda>(_, s). rs_left s)" by simp
qed simp

declare last_additional_loop.simps [simp del]

definition message_get_last_additional :: "parser_ops \<Rightarrow> 'd rdata_parse \<Rightarrow> message \<Rightarrow> ((parsed_name, 'd) dns_record option, 'e) result" where
  "message_get_last_additional P parse m =
     (case message_additional P m of
        Ok sec \<Rightarrow>
          rbind (last_additional_loop P sec) (\<lambda>found.
            case found of
              None \<Rightarrow> Ok None
            | Some sec \<Rightarrow>
                (case parsed_record_parse P (rs_parser sec) of
                   Ok (rec, _) \<Rightarrow>
                     (case parsed_to_record P parse rec of
                        Ok r \<Rightarrow> Ok r
                      | Err _ \<Rightarrow> Ok None
                      | Panic \<Rightarrow> Panic)
                 | Err _ \<Rightarrow> Ok None
                 | Panic \<Rightarrow> Panic))
      | Err _ \<Rightarrow> Ok None
      | Panic \<Rightarrow> Panic)"

definition message_remove_last_additional :: "message \<Rightarrow> (unit, 'e) result \<times> message" where
  "message_remove_last_additional m = counts_for_message_slice_mut dec_arcount m"

section \<open>Arbitrary input\<close>

text \<open>A section of a message: its parser is within the message.\<close>

definition counted_wf :: "message \<Rightarrow> counted \<Rightarrow> bool" where
  "counted_wf m s \<longleftrightarrow> parser_wf (fst s) \<and> p_octets (fst s) = m \<and> p_len (fst s) = length m \<and> snd s \<noteq> Panic"

definition section_wf :: "message \<Rightarrow> message_section \<Rightarrow> record_section \<Rightarrow> bool" where
  "section_wf m sec s \<longleftrightarrow> counted_wf m (rs_parser s, rs_count s) \<and> rs_section s = sec"

lemma count_next_safe:
  assumes "safe parse" "counted_wf m s" "count_next parse s = (item, s')"
  shows "item \<noteq> Some Panic" "counted_wf m s'"
proof -
  obtain p c where s: "s = (p, c)" by fastforce
  note p = assms(2) [unfolded counted_wf_def s fst_conv snd_conv]
  note d = safeD [OF assms(1) conjunct1 [OF p]]
  have "counted_wf m (p', Ok n)" if "parse p = Ok (x, p')" for x p' n
    using d(2,3) [OF that] p by (auto simp: counted_wf_def)
  with assms(3) d(1) p show "item \<noteq> Some Panic" "counted_wf m s'"
    unfolding s by (auto simp: count_next_def counted_wf_def split: result.splits if_splits prod.splits)
qed

lemma count_next_done: "count_next parse s = (None, s') \<Longrightarrow> s' = s \<and> left s = 0"
  by (cases s) (auto simp: count_next_def word_gt_0 split: result.splits if_splits prod.splits)

lemma count_skip_safe:
  assumes "safe parse" "counted_wf m s"
  shows "\<exists>s'. count_skip parse s = Ok s' \<and> counted_wf m s' \<and> left s' = 0"
  using assms(2)
proof (induction "left s" arbitrary: s rule: less_induct)
  case less
  obtain item s1 where n: "count_next parse s = (item, s1)" by (cases "count_next parse s")
  note d = count_next_safe [OF assms(1) less.prems n]
  show ?case
  proof (cases item)
    case None
    with n count_next_done [of parse s s1] less.prems show ?thesis by (simp add: count_skip.simps [of parse s])
  next
    case (Some r)
    with d(1) have r: "r \<noteq> Panic" by simp
    from less.hyps [OF count_next_left [OF n [unfolded Some] r] d(2)] r show ?thesis
      unfolding count_skip.simps [of parse s] n Some by (cases r) simp_all
  qed
qed

context octseq_parser
begin

lemma safe_question [safe_intros]: "safe (question_parse P)"
  unfolding question_parse_def [abs_def] by (intro safe_intros)

lemma message_question_eq:
  "length m \<ge> 12 \<Longrightarrow> message_question P m =
    Ok \<lparr>qs_parser = \<lparr>p_octets = m, p_pos = 12, p_len = length m\<rparr>, qs_count = Ok (qdcount (take 8 (drop 4 m)))\<rparr>"
  by (simp add: message_question_def question_section_new_def ps_laws p_remaining_def p_forward_def ps_as_slice counts_for_message_slice_def)

lemma record_section_new_eq:
  assumes "length m \<ge> 12" "p_octets p = m" "p_len p = length m"
  shows "record_section_new P p sec = Ok \<lparr>rs_parser = p, rs_section = sec, rs_count = Ok (section_count sec (take 8 (drop 4 m)))\<rparr>"
  using assms by (simp add: record_section_new_def ps_as_slice counts_for_message_slice_def)

lemma record_section_new_wf:
  assumes "length m \<ge> 12" "counted_wf m (p, c)"
  shows "\<exists>s. record_section_new P p sec = Ok s \<and> section_wf m sec s"
  using record_section_new_eq [OF assms(1), of p sec] assms(2) by (auto simp: section_wf_def counted_wf_def)

lemma question_section_answer_wf:
  assumes "length m \<ge> 12" "counted_wf m (qs_parser q, qs_count q)"
  shows "case question_section_answer P q of Ok s \<Rightarrow> section_wf m Answer s | Err _ \<Rightarrow> True | Panic \<Rightarrow> False"
proof -
  from count_skip_safe [OF safe_question assms(2)] obtain p c where
    s: "count_skip (question_parse P) (qs_parser q, qs_count q) = (Ok (p, c) :: (counted, parse_error) result)" "counted_wf m (p, c)" by fastforce
  from record_section_new_wf [OF assms(1) s(2)] obtain a where "record_section_new P p Answer = (Ok a :: (_, parse_error) result)" "section_wf m Answer a"
    by blast
  with s show ?thesis by (cases c) (simp_all add: question_section_answer_def counted_wf_def)
qed

lemma record_section_next_section_wf:
  assumes "length m \<ge> 12" "section_wf m sec s"
  shows "case record_section_next_section P s of
      Ok s' \<Rightarrow> (case next_section sec of None \<Rightarrow> s' = None | Some sec' \<Rightarrow> \<exists>t. s' = Some t \<and> section_wf m sec' t)
    | Err _ \<Rightarrow> True | Panic \<Rightarrow> False"
proof (cases "next_section sec")
  case None
  with assms(2) show ?thesis by (simp add: record_section_next_section_def section_wf_def)
next
  case (Some sec')
  from assms(2) have "counted_wf m (rs_parser s, rs_count s)" "rs_section s = sec" by (simp_all add: section_wf_def)
  from count_skip_safe [OF safe_record_skip this(1)] obtain p c where
    p: "count_skip (\<lambda>p. rmap (\<lambda>p. ((), p)) (parsed_record_skip P p)) (rs_parser s, rs_count s) = (Ok (p, c) :: (counted, parse_error) result)"
      "counted_wf m (p, c)" by fastforce
  from record_section_new_wf [OF assms(1) p(2)] obtain t where "record_section_new P p sec' = (Ok t :: (_, parse_error) result)" "section_wf m sec' t"
    by blast
  with p Some \<open>rs_section s = sec\<close> show ?thesis by (cases c) (simp_all add: record_section_next_section_def counted_wf_def)
qed

text \<open>All sections are reached without a panic.\<close>

lemma message_question_wf:
  assumes "length m \<ge> 12"
  shows "\<exists>q. message_question P m = Ok q \<and> counted_wf m (qs_parser q, qs_count q)"
  using assms by (simp add: message_question_eq counted_wf_def parser_wf_def)

lemma message_answer_wf:
  assumes "length m \<ge> 12"
  shows "case message_answer P m of Ok s \<Rightarrow> section_wf m Answer s | Err _ \<Rightarrow> True | Panic \<Rightarrow> False"
  using message_question_eq [OF assms, where 'a = parse_error] question_section_answer_wf [OF assms]
  by (auto simp: message_answer_def counted_wf_def parser_wf_def assms)

lemma next_section_expect:
  assumes "length m \<ge> 12" "next_section sec = Some sec'"
    and "case r of Ok s \<Rightarrow> section_wf m sec s | Err _ \<Rightarrow> True | Panic \<Rightarrow> False"
  shows "case rbind r (\<lambda>s. rbind (record_section_next_section P s) expect_some) of
    Ok s \<Rightarrow> section_wf m sec' s | Err _ \<Rightarrow> True | Panic \<Rightarrow> False"
proof (cases r)
  case (Ok s)
  with assms(3) have "section_wf m sec s" by simp
  from record_section_next_section_wf [OF assms(1) this] assms(2) Ok show ?thesis
    by (cases "record_section_next_section P s") (auto simp: expect_some_def)
qed (use assms(3) in simp_all)

lemma message_authority_wf:
  "length m \<ge> 12 \<Longrightarrow> case message_authority P m of Ok s \<Rightarrow> section_wf m Authority s | Err _ \<Rightarrow> True | Panic \<Rightarrow> False"
  unfolding message_authority_def by (rule next_section_expect [OF _ _ message_answer_wf]) simp_all

lemma message_additional_wf:
  "length m \<ge> 12 \<Longrightarrow> case message_additional P m of Ok s \<Rightarrow> section_wf m Additional s | Err _ \<Rightarrow> True | Panic \<Rightarrow> False"
  unfolding message_additional_def by (rule next_section_expect [OF _ _ message_authority_wf]) simp_all

lemma message_sections_eq:
  "message_sections P m = rbind (message_question P m) (\<lambda>q. rbind (message_answer P m) (\<lambda>a.
     rbind (message_authority P m) (\<lambda>n. rbind (message_additional P m) (\<lambda>d. Ok (q, a, n, d)))))"
proof -
  let ?next = "\<lambda>s. rbind (record_section_next_section P s) expect_some"
  have sec: "message_sections P m = rbind (message_question P m) (\<lambda>q. rbind (question_section_answer P q) (\<lambda>a.
      rbind (?next a) (\<lambda>n. rbind (?next n) (\<lambda>d. Ok (q, a, n, d)))))"
    by (simp add: message_sections_def rbind_assoc)
  show ?thesis
  proof (cases "message_question P m :: (_, parse_error) result")
    case (Ok q)
    then show ?thesis
      unfolding sec message_additional_def message_authority_def message_answer_def
      by (cases "question_section_answer P q"; simp; rename_tac a; case_tac "?next a"; simp)
  qed (simp_all add: sec)
qed

lemma record_section_next_wf:
  assumes "section_wf m sec s" "record_section_next P s = (item, s')"
  shows "item \<noteq> Some Panic" "section_wf m sec s'"
  using assms count_next_safe [OF safe_parsed_record, of m "(rs_parser s, rs_count s)"]
  by (auto simp: section_wf_def record_section_next_def split: prod.splits)

lemma record_section_item_wf:
  assumes "section_wf m sec s" "record_section_next P s = (Some (Ok rec), s')"
  shows "parser_wf (pr_data rec)"
proof -
  from assms have p: "parser_wf (rs_parser s)" "\<exists>p'. parsed_record_parse P (rs_parser s) = Ok (rec, p')"
    by (auto simp: section_wf_def counted_wf_def record_section_next_def count_next_def split: prod.splits result.splits if_splits)
  then obtain h where "record_header_parse P (rs_parser s) = Ok (h, pr_data rec)"
    by (auto simp: parsed_record_parse_def rbind_Ok_iff Let_def)
  from safeD(3) [OF safe_record_header p(1) this] show ?thesis .
qed

lemma parsed_to_record_no_Panic:
  assumes "\<And>rtype. safe (parse rtype)" "parser_wf (pr_data r)"
  shows "parsed_to_record P parse r \<noteq> Panic"
proof -
  have "parser_wf ((pr_data r)\<lparr>p_len := p_pos (pr_data r) + n\<rparr>)" if "n \<le> p_remaining (pr_data r)" for n
    using assms(2) that by (auto simp: parser_wf_def p_remaining_def)
  with safeD(1) [OF assms(1)] show ?thesis
    by (auto simp: parsed_to_record_def header_parse_into_record_def ps_parse_parser rbind_Panic_iff Let_def)
qed

lemma record_iter_next_wf:
  assumes "\<And>rtype. safe (parse rtype)" "section_wf m sec s" "record_iter_next P parse in_only s = (item, s')"
  shows "item \<noteq> Some Panic \<and> section_wf m sec s'"
  using assms(2,3)
proof (induction "rs_left s" arbitrary: s rule: less_induct)
  case less
  obtain it s1 where n: "record_section_next P s = (it, s1)" by (cases "record_section_next P s")
  note d = record_section_next_wf [OF less.prems(1) n]
  show ?case
  proof (cases "\<exists>rec. it = Some (Ok rec)")
    case True
    then obtain rec where rec: "it = Some (Ok rec)" by blast
    with record_section_left n have "rs_left s1 < rs_left s" by blast
    note IH = less.hyps [OF this d(2)]
    have "parsed_to_record P parse rec \<noteq> Panic"
      by (rule parsed_to_record_no_Panic [OF assms(1) record_section_item_wf [OF less.prems(1) n [unfolded rec]]])
    with less.prems(2) IH d(2) show ?thesis
      unfolding record_iter_next.simps [of P parse in_only s] n rec by (auto split: if_splits result.splits option.splits)
  next
    case False
    with less.prems(2) d show ?thesis
      unfolding record_iter_next.simps [of P parse in_only s] n by (auto split: result.splits option.splits)
  qed
qed

lemma safe_name_type: "safe (name_type_parse_rdata RTYPE P rtype)"
proof -
  have eq: "rmap (\<lambda>(d, p). (Some d, p)) r = rbind r (\<lambda>(d, p). Ok (Some d, p))" for r :: "parsed_name parse_result"
    by (cases r) auto
  have "name_type_parse_rdata RTYPE P rtype =
      (if rtype = RTYPE then (\<lambda>p. rbind (parsed_name_parse P p) (\<lambda>(d, p). Ok (Some d, p))) else (\<lambda>p. Ok (None, p)))"
    by (rule ext) (simp add: name_type_parse_rdata_def parse_rdata_of_def eq)
  then show ?thesis by (auto intro: safe_intros)
qed

lemma canonical_search_no_Panic: "section_wf m sec s \<Longrightarrow> canonical_search P s name \<noteq> Panic"
proof (induction "rs_left s" arbitrary: s rule: less_induct)
  case less
  obtain it s1 where n: "record_iter_next P (name_type_parse_rdata CNAME_RTYPE P) False s = (it, s1)"
    by (cases "record_iter_next P (name_type_parse_rdata CNAME_RTYPE P) False s")
  note d = record_iter_next_wf [OF safe_name_type less.prems n]
  show ?case
  proof (cases it)
    case None
    with n show ?thesis by (simp add: canonical_search.simps [of P s])
  next
    case (Some r)
    with d have r: "r \<noteq> Panic" "section_wf m sec s1" by simp_all
    from less.hyps [OF record_iter_left [OF n [unfolded Some] r(1)] r(2)] r(1) show ?thesis
      unfolding canonical_search.simps [of P s] n Some by (cases r) simp_all
  qed
qed

lemma canonical_loop_no_Panic: "section_wf m sec s \<Longrightarrow> canonical_loop P s n name \<noteq> Panic"
  by (induction n arbitrary: name) (auto simp: rbind_Panic_iff canonical_search_no_Panic split: option.splits)

lemma message_first_question_no_Panic: "length m \<ge> 12 \<Longrightarrow> message_first_question P m \<noteq> Panic"
  using count_next_safe(1) [OF safe_question, of m "(\<lparr>p_octets = m, p_pos = 12, p_len = length m\<rparr>, Ok (qdcount (take 8 (drop 4 m))))"]
  by (auto simp: message_first_question_def message_question_eq question_section_next_def counted_wf_def parser_wf_def
      split: option.splits result.splits prod.splits)

lemma message_canonical_name_Panic:
  assumes "length m \<ge> 12"
  shows "message_canonical_name P m = (Panic :: (_, 'e) result) \<longleftrightarrow>
    (\<exists>q. message_first_question P m = (Ok (Some q) :: (_, 'e) result)) \<and> (\<exists>s. message_answer P m = Ok s) \<and> ancount (take 8 (drop 4 m)) = 65535"
proof -
  note a = message_answer_wf [OF assms] and q = message_first_question_no_Panic [OF assms, where 'a = 'e]
  have add: "(u16_add (Ok n) (Ok 1) :: (u16, 'e) result) = (if n = 65535 then Panic else Ok (n + 1))" for n
  proof -
    have "n = 65535 \<longleftrightarrow> unat n = unat (65535 :: u16)" by (metis word_unat_eq_iff)
    moreover have "unat n < 65536" using unsigned_less [of n] by simp
    ultimately show ?thesis by (auto simp: u16_add_def)
  qed
  have c: "counts_for_message_slice m = (Ok (take 8 (drop 4 m)) :: (_, 'e) result)" using assms by (simp add: counts_for_message_slice_def)
  show ?thesis
  proof (cases "message_answer P m")
    case (Ok s)
    with a have "canonical_loop P s n name \<noteq> (Panic :: (_, 'e) result)" for n name using canonical_loop_no_Panic by simp
    with Ok q show ?thesis
      by (cases "message_first_question P m :: (_, 'e) result") (auto simp: message_canonical_name_def c add split: option.splits)
  next
    case (Err e)
    with q show ?thesis
      by (cases "message_first_question P m :: (_, 'e) result") (auto simp: message_canonical_name_def split: option.splits)
  qed (use a in simp)
qed

end

section \<open>Reading what was written\<close>

text \<open>Iterating to the end.\<close>

function count_items :: "(parser \<Rightarrow> 'a parse_result) \<Rightarrow> counted \<Rightarrow> ('a, parse_error) result list \<times> counted" where
  "count_items parse s =
     (case count_next parse s of
        (None, s) \<Rightarrow> ([], s)
      | (Some r, s) \<Rightarrow> if r = Panic then ([Panic], s) else (case count_items parse s of (rs, s) \<Rightarrow> (r # rs, s)))"
  by pat_completeness auto
termination
  by (relation "measure (\<lambda>(_, s). left s)") (auto dest!: sym [of "(_, _)"] count_next_left)

declare count_items.simps [simp del]

function question_items :: "parser_ops \<Rightarrow> question_section \<Rightarrow> (parsed_name question, parse_error) result list" where
  "question_items P s =
     (case question_section_next P s of
        (None, _) \<Rightarrow> []
      | (Some r, s) \<Rightarrow> if r = Panic then [Panic] else r # question_items P s)"
  by pat_completeness auto
termination
  by (relation "measure (\<lambda>(_, s). qs_left s)") (auto dest!: sym [of "(_, _)"] question_section_left)

function record_items :: "parser_ops \<Rightarrow> record_section \<Rightarrow> (parsed_record, parse_error) result list" where
  "record_items P s =
     (case record_section_next P s of
        (None, _) \<Rightarrow> []
      | (Some r, s) \<Rightarrow> if r = Panic then [Panic] else r # record_items P s)"
  by pat_completeness auto
termination
  by (relation "measure (\<lambda>(_, s). rs_left s)") (auto dest!: sym [of "(_, _)"] record_section_left)

declare question_items.simps [simp del] record_items.simps [simp del]

lemma question_items_count: "question_items P s = fst (count_items (question_parse P) (qs_parser s, qs_count s))"
proof (induction P s rule: question_items.induct)
  case (1 P s)
  obtain item p c where n: "count_next (question_parse P) (qs_parser s, qs_count s) = (item, p, c)" by (metis surj_pair)
  then have q: "question_section_next P s = (item, \<lparr>qs_parser = p, qs_count = c\<rparr>)" by (simp add: question_section_next_def)
  show ?case
    using 1 [OF q [symmetric]]
    unfolding question_items.simps [of P s] count_items.simps [of _ "(qs_parser s, qs_count s)"] n q
    by (auto split: option.splits prod.splits)
qed

lemma record_items_count: "record_items P s = fst (count_items (parsed_record_parse P) (rs_parser s, rs_count s))"
proof (induction P s rule: record_items.induct)
  case (1 P s)
  obtain item p c where n: "count_next (parsed_record_parse P) (rs_parser s, rs_count s) = (item, p, c)" by (metis surj_pair)
  then have q: "record_section_next P s = (item, s\<lparr>rs_parser := p, rs_count := c\<rparr>)" by (simp add: record_section_next_def)
  show ?case
    using 1 [OF q [symmetric]]
    unfolding record_items.simps [of P s] count_items.simps [of _ "(rs_parser s, rs_count s)"] n q
    by (auto split: option.splits prod.splits)
qed

lemma count_skip_items:
  "Panic \<notin> set (fst (count_items parse s)) \<Longrightarrow> count_skip parse s = Ok (snd (count_items parse s))"
proof (induction parse s rule: count_items.induct)
  case (1 parse s)
  obtain item s1 where n: "count_next parse s = (item, s1)" by (cases "count_next parse s")
  show ?case
  proof (cases item)
    case (Some r)
    with 1(2) n have "r \<noteq> Panic" unfolding count_items.simps [of parse s] by auto
    with 1 n Some show ?thesis
      unfolding count_items.simps [of parse s] count_skip.simps [of parse s] by (cases r) (auto split: prod.splits)
  qed (simp add: count_items.simps [of parse s] count_skip.simps [of parse s] n)
qed

lemma count_items_reads:
  assumes "\<forall>(Q, R) \<in> set ms. reads parse Q R" "written (p_octets p) (p_pos p) b (seq_all (map fst ms))" "parser_wf p" "b \<le> p_len p"
    and "length ms < 2 ^ 16"
  shows "\<exists>xs. count_items parse (p, Ok (of_nat (length ms))) = (map Ok xs, p\<lparr>p_pos := b\<rparr>, Ok 0) \<and> list_all2 (\<lambda>(Q, R) x. R x) ms xs"
  using assms
proof (induction ms arbitrary: p)
  case Nil
  then show ?case by (simp add: count_items.simps [of parse "(p, _)"] count_next_def written_octets)
next
  case (Cons QR ms)
  obtain Q R where QR: "QR = (Q, R)" by fastforce
  from Cons.prems(2) QR obtain c where c: "written (p_octets p) (p_pos p) c Q" "written (p_octets p) c b (seq_all (map fst ms))"
    by (auto simp: written_seq)
  then have le: "c \<le> b" "p_pos p \<le> c" by (simp_all add: written_def)
  obtain x where x: "parse p = Ok (x, p\<lparr>p_pos := c\<rparr>)" "R x"
    by (rule readsD [of parse Q R p c]) (use Cons.prems QR c le in auto)
  have "unat (of_nat (Suc (length ms)) :: u16) = Suc (length ms)" using Cons.prems(5) by (simp add: unat_of_nat del: of_nat_Suc)
  then have n: "(of_nat (Suc (length ms)) :: u16) > 0" "(of_nat (Suc (length ms)) :: u16) - 1 = of_nat (length ms)"
    by (simp_all add: word_gt_0 flip: unat_gt_0)
  have "\<exists>xs. count_items parse (p\<lparr>p_pos := c\<rparr>, Ok (of_nat (length ms))) = (map Ok xs, p\<lparr>p_pos := c, p_pos := b\<rparr>, Ok 0) \<and>
      list_all2 (\<lambda>(Q, R) x. R x) ms xs"
    by (rule Cons.IH) (use Cons.prems c le in \<open>auto simp: parser_wf_def\<close>)
  then obtain xs where xs: "count_items parse (p\<lparr>p_pos := c\<rparr>, Ok (of_nat (length ms))) = (map Ok xs, p\<lparr>p_pos := b\<rparr>, Ok 0)"
    "list_all2 (\<lambda>(Q, R) x. R x) ms xs" by auto
  have "count_next parse (p, Ok (of_nat (length (QR # ms)))) = (Some (Ok x), p\<lparr>p_pos := c\<rparr>, Ok (of_nat (length ms)))"
    using n x by (simp add: count_next_def del: of_nat_Suc)
  then have "count_items parse (p, Ok (of_nat (length (QR # ms)))) = (map Ok (x # xs), p\<lparr>p_pos := b\<rparr>, Ok 0)"
    using xs(1) by (simp add: count_items.simps [of parse "(p, _)"] del: of_nat_Suc)
  with x(2) xs(2) QR show ?case by (intro exI [of _ "x # xs"]) simp
qed

context octseq_parser
begin

lemma reads_skip:
  assumes "reads (parsed_record_parse P) Q R"
  shows "reads (\<lambda>p. rmap (\<lambda>p. ((), p)) (parsed_record_skip P p)) Q (\<lambda>_. True)"
  unfolding reads_def
proof (intro allI impI)
  fix p b
  assume p: "parser_wf p" "b \<le> p_len p" "written (p_octets p) (p_pos p) b Q"
  obtain x where "parsed_record_parse P p = Ok (x, p\<lparr>p_pos := b\<rparr>)" by (rule readsD [OF assms p])
  from parsed_record_skip_parse [OF p(1) this]
  show "\<exists>x. rmap (\<lambda>p. ((), p)) (parsed_record_skip P p) = Ok (x, p\<lparr>p_pos := b\<rparr>) \<and> True" by simp
qed

text \<open>The message has a section of given meanings between two positions.\<close>

lemma count_skip_reads:
  assumes "\<forall>(Q, R) \<in> set ms. reads parse Q R" "written m a b (seq_all (map fst ms))" "length ms < 2 ^ 16"
  shows "count_skip parse (\<lparr>p_octets = m, p_pos = a, p_len = length m\<rparr>, Ok (of_nat (length ms))) =
    Ok (\<lparr>p_octets = m, p_pos = b, p_len = length m\<rparr>, Ok 0)"
proof -
  have w: "a \<le> b" "b \<le> length m" using assms(2) by (simp_all add: written_def)
  from count_items_reads [OF assms(1), of "\<lparr>p_octets = m, p_pos = a, p_len = length m\<rparr>" b] assms(2,3) w
  obtain xs where "count_items parse (\<lparr>p_octets = m, p_pos = a, p_len = length m\<rparr>, Ok (of_nat (length ms))) =
      (map Ok xs, \<lparr>p_octets = m, p_pos = b, p_len = length m\<rparr>, Ok 0)" by (auto simp: parser_wf_def)
  with count_skip_items [of parse "(\<lparr>p_octets = m, p_pos = a, p_len = length m\<rparr>, Ok (of_nat (length ms)))"] show ?thesis by auto
qed

end

text \<open>A message with sections of given meanings.\<close>

definition message_written :: "message \<Rightarrow> meaning list \<Rightarrow> meaning list \<Rightarrow> meaning list \<Rightarrow> meaning list \<Rightarrow> bool" where
  "message_written m qs an ns ar \<longleftrightarrow> 12 \<le> length m \<and> (\<forall>ms \<in> {qs, an, ns, ar}. length ms < 2 ^ 16) \<and>
     all_counts (take 8 (drop 4 m)) = (of_nat (length qs), of_nat (length an), of_nat (length ns), of_nat (length ar)) \<and>
     (\<exists>a b c. written m 12 a (seq_all qs) \<and> written m a b (seq_all an) \<and> written m b c (seq_all ns) \<and> written m c (length m) (seq_all ar))"

abbreviation parser_at :: "message \<Rightarrow> nat \<Rightarrow> parser" where
  "parser_at m a \<equiv> \<lparr>p_octets = m, p_pos = a, p_len = length m\<rparr>"

abbreviation section_at :: "message \<Rightarrow> nat \<Rightarrow> message_section \<Rightarrow> nat \<Rightarrow> record_section" where
  "section_at m a sec n \<equiv> \<lparr>rs_parser = parser_at m a, rs_section = sec, rs_count = Ok (of_nat n)\<rparr>"

text \<open>Where the sections of such a message are, and what they hold.\<close>

definition section_holds :: "parser_ops \<Rightarrow> record_section \<Rightarrow> (meaning \<times> (parsed_record \<Rightarrow> bool)) list \<Rightarrow> nat \<Rightarrow> bool" where
  "section_holds P s ms b \<longleftrightarrow> (\<exists>xs. count_items (parsed_record_parse P) (rs_parser s, rs_count s) =
     (map Ok xs, (rs_parser s)\<lparr>p_pos := b\<rparr>, Ok 0) \<and> list_all2 (\<lambda>(Q, R) x. R x) ms xs)"

context octseq_parser
begin

lemma section_holdsI:
  assumes "\<forall>(Q, R) \<in> set ms. reads (parsed_record_parse P) Q R" "written m a b (seq_all (map fst ms))" "length ms < 2 ^ 16"
  shows "section_holds P (section_at m a sec (length ms)) ms b"
proof -
  have "a \<le> b" "b \<le> length m" using assms(2) by (simp_all add: written_def)
  with count_items_reads [OF assms(1), of "parser_at m a" b] assms(2,3) show ?thesis
    by (simp add: section_holds_def parser_wf_def)
qed

lemma next_section_reads:
  assumes "\<forall>(Q, R) \<in> set ms. reads (parsed_record_parse P) Q R" "written m a b (seq_all (map fst ms))" "length ms < 2 ^ 16" "12 \<le> length m"
    and "next_section sec = Some sec'" "section_count sec' (take 8 (drop 4 m)) = of_nat k"
  shows "record_section_next_section P (section_at m a sec (length ms)) = Ok (Some (section_at m b sec' k))"
proof -
  let ?ms = "map (\<lambda>x. (fst x, \<lambda>_. True)) ms"
  have fst: "map fst ?ms = map fst ms" by simp
  have "\<forall>(Q, R) \<in> set ?ms. reads (\<lambda>p. rmap (\<lambda>p. ((), p)) (parsed_record_skip P p)) Q R"
    using assms(1) reads_skip by fastforce
  from count_skip_reads [OF this, unfolded fst, OF assms(2)] assms(3) have "count_skip (\<lambda>p. rmap (\<lambda>p. ((), p)) (parsed_record_skip P p)) (parser_at m a, Ok (of_nat (length ms))) =
      (Ok (parser_at m b, Ok 0) :: (counted, parse_error) result)" by simp
  with assms(4-6) record_section_new_eq [where 'a = parse_error, of m "parser_at m b" sec'] show ?thesis by (simp add: record_section_next_section_def)
qed

lemma message_sections_reads:
  assumes w: "message_written m (map fst qs) (map fst an) (map fst ns) (map fst ar)"
    and q: "\<forall>(Q, R) \<in> set qs. reads (question_parse P) Q R"
    and r: "\<forall>(Q, R) \<in> set (an @ ns @ ar). reads (parsed_record_parse P) Q R"
  shows "\<exists>a b c. let q = \<lparr>qs_parser = parser_at m 12, qs_count = Ok (of_nat (length qs))\<rparr>;
      s = section_at m a Answer (length an); t = section_at m b Authority (length ns); u = section_at m c Additional (length ar) in
    message_sections P m = Ok (q, s, t, u) \<and> (\<exists>xs. question_items P q = map Ok xs \<and> list_all2 (\<lambda>(Q, R) x. R x) qs xs) \<and>
    section_holds P s an b \<and> section_holds P t ns c \<and> section_holds P u ar (length m) \<and>
    record_section_next_section P (section_at m b Answer 0) = Ok (Some t) \<and>
    record_section_next_section P (section_at m c Authority 0) = Ok (Some u)"
proof -
  from w obtain a b c where m: "12 \<le> length m" and len: "length qs < 2 ^ 16" "length an < 2 ^ 16" "length ns < 2 ^ 16" "length ar < 2 ^ 16"
    and counts: "qdcount (take 8 (drop 4 m)) = of_nat (length qs)" "ancount (take 8 (drop 4 m)) = of_nat (length an)"
      "nscount (take 8 (drop 4 m)) = of_nat (length ns)" "arcount (take 8 (drop 4 m)) = of_nat (length ar)"
    and s: "written m 12 a (seq_all (map fst qs))" "written m a b (seq_all (map fst an))" "written m b c (seq_all (map fst ns))"
      "written m c (length m) (seq_all (map fst ar))"
    by (auto simp: message_written_def all_counts_def)
  have ra: "\<forall>(Q, R) \<in> set an. reads (parsed_record_parse P) Q R" "\<forall>(Q, R) \<in> set ns. reads (parsed_record_parse P) Q R"
    "\<forall>(Q, R) \<in> set ar. reads (parsed_record_parse P) Q R" using r by auto
  let ?q = "\<lparr>qs_parser = parser_at m 12, qs_count = Ok (of_nat (length qs))\<rparr>"
  have skip: "count_skip (question_parse P) (parser_at m 12, Ok (of_nat (length qs))) = (Ok (parser_at m a, Ok 0) :: (counted, parse_error) result)"
    by (rule count_skip_reads [OF q s(1) len(1)])
  have "question_section_answer P ?q = Ok (section_at m a Answer (length an))"
    using record_section_new_eq [where 'a = parse_error, OF m, of "parser_at m a" Answer] counts(2)
    by (simp add: question_section_answer_def skip)
  moreover have t: "record_section_next_section P (section_at m a Answer (length an)) = Ok (Some (section_at m b Authority (length ns)))"
    by (rule next_section_reads [OF ra(1) s(2) len(2) m]) (simp_all add: counts)
  moreover have u: "record_section_next_section P (section_at m b Authority (length ns)) = Ok (Some (section_at m c Additional (length ar)))"
    by (rule next_section_reads [OF ra(2) s(3) len(3) m]) (simp_all add: counts)
  ultimately have sec: "message_sections P m =
      Ok (?q, section_at m a Answer (length an), section_at m b Authority (length ns), section_at m c Additional (length ar))"
    using message_question_eq [where 'a = parse_error, OF m] counts(1) by (simp add: message_sections_def expect_some_def)
  have "12 \<le> a" "a \<le> length m" using s(1) by (simp_all add: written_def)
  with count_items_reads [OF q, of "parser_at m 12" a] s(1) len(1) m
  have items: "\<exists>xs. question_items P ?q = map Ok xs \<and> list_all2 (\<lambda>(Q, R) x. R x) qs xs"
    by (auto simp: question_items_count parser_wf_def)
  have "b \<le> length m" "c \<le> length m" using s(2,3) by (simp_all add: written_def)
  then have "written m b b (seq_all (map fst []))" "written m c c (seq_all (map fst []))" by (simp_all add: written_octets)
  from next_section_reads [OF _ this(1) _ m, of Answer Authority] next_section_reads [OF _ this(2) _ m, of Authority Additional] counts
  have "record_section_next_section P (section_at m b Answer 0) = Ok (Some (section_at m b Authority (length ns)))"
    "record_section_next_section P (section_at m c Authority 0) = Ok (Some (section_at m c Additional (length ar)))" by simp_all
  with sec items section_holdsI [OF ra(1) s(2) len(2)] section_holdsI [OF ra(2) s(3) len(3)] section_holdsI [OF ra(3) s(4) len(4)]
  show ?thesis unfolding Let_def by blast
qed

end

text \<open>The iterator over all records goes through the sections in turn; it ends.\<close>

lemma message_iter_left:
  "message_iter_next P inner = (Some r, inner') \<Longrightarrow> r \<noteq> Panic \<Longrightarrow>
    sections_left inner' < sections_left inner \<or>
    (\<exists>s s'. inner = Some s \<and> inner' = Some s' \<and> rs_section s' = rs_section s \<and> rs_left s' < rs_left s)"
proof (induction P inner rule: message_iter_next.induct)
  case (2 P s)
  obtain item s1 where n: "record_section_next P s = (item, s1)" by (cases "record_section_next P s")
  show ?case
  proof (cases item)
    case None
    have same: "sections_left (Some s1) = sections_left (Some s)" using record_section_next_same [OF n] by simp
    show ?thesis
    proof (cases "record_section_next_section P s1")
      case (Ok sec)
      then have "sections_left sec < sections_left (Some s)" using record_section_next_section_left same by metis
      with 2(1) [OF n [symmetric] None Ok] 2(2,3) n None Ok show ?thesis
        unfolding message_iter_next.simps by (cases sec) auto
    qed (use 2 n None in \<open>auto simp: message_iter_next.simps(2) split: message_section.splits\<close>)
  next
    case (Some q)
    with 2(2,3) n have "q \<noteq> Panic" "inner' = Some s1" by (auto simp: message_iter_next.simps(2))
    with record_section_left [OF n [unfolded Some]] record_section_next_same [OF n] show ?thesis by simp
  qed
qed simp

function message_items :: "parser_ops \<Rightarrow> record_section option \<Rightarrow> (parsed_record \<times> message_section, parse_error) result list" where
  "message_items P inner =
     (case message_iter_next P inner of
        (None, _) \<Rightarrow> []
      | (Some r, inner) \<Rightarrow> if r = Panic then [Panic] else r # message_items P inner)"
  by pat_completeness auto
termination
proof (relation "measures [\<lambda>(_, s). sections_left s, \<lambda>(_, s). case s of None \<Rightarrow> 0 | Some s \<Rightarrow> rs_left s]")
  fix P inner a b r
  assume "(a, b) = message_iter_next P inner" "a = Some r" "\<not> r = Panic"
  with message_iter_left [of P inner r b] show "((P, b), P, inner) \<in>
      measures [\<lambda>(_, s). sections_left s, \<lambda>(_, s). case s of None \<Rightarrow> 0 | Some s \<Rightarrow> rs_left s]" by auto
qed simp

declare message_items.simps [simp del]

lemma message_items_section:
  assumes "count_items (parsed_record_parse P) (rs_parser s, rs_count s) = (map Ok xs, p, c)"
  shows "message_items P (Some s) = map (\<lambda>x. Ok (x, rs_section s)) xs @
    (case record_section_next_section P (s\<lparr>rs_parser := p, rs_count := c\<rparr>) of
       Ok sec \<Rightarrow> message_items P sec | Err e \<Rightarrow> Err e # message_items P None | Panic \<Rightarrow> [Panic])"
  using assms
proof (induction xs arbitrary: s)
  case Nil
  then have "record_section_next P s = (None, s\<lparr>rs_parser := p, rs_count := c\<rparr>)"
    by (auto simp: count_items.simps [of _ "(rs_parser s, rs_count s)"] record_section_next_def split: option.splits prod.splits if_splits)
  then have eq: "message_iter_next P (Some s) = (case record_section_next_section P (s\<lparr>rs_parser := p, rs_count := c\<rparr>) of
      Ok sec \<Rightarrow> message_iter_next P sec | Err e \<Rightarrow> (Some (Err e), None) | Panic \<Rightarrow> (Some Panic, None))"
    by (simp add: message_iter_next.simps(2))
  show ?case
    unfolding message_items.simps [of P "Some s"] eq
    by (cases "record_section_next_section P (s\<lparr>rs_parser := p, rs_count := c\<rparr>)") (simp_all add: message_items.simps [of P "_ :: _ option"] )
next
  case (Cons x xs)
  then obtain q d where q: "count_next (parsed_record_parse P) (rs_parser s, rs_count s) = (Some (Ok x), q, d)"
    "count_items (parsed_record_parse P) (q, d) = (map Ok xs, p, c)"
    by (auto simp: count_items.simps [of _ "(rs_parser s, rs_count s)"] split: option.splits prod.splits if_splits)
  let ?s = "s\<lparr>rs_parser := q, rs_count := d\<rparr>"
  have "message_iter_next P (Some s) = (Some (Ok (x, rs_section s)), Some ?s)"
    using q(1) by (simp add: message_iter_next.simps(2) record_section_next_def)
  with Cons.IH [of ?s] q(2) show ?case by (simp add: message_items.simps [of P "Some s"])
qed

lemma count_items_safe:
  assumes "safe parse" "counted_wf m s"
  shows "Panic \<notin> set (fst (count_items parse s))"
  using assms(2)
proof (induction "left s" arbitrary: s rule: less_induct)
  case less
  obtain item s1 where n: "count_next parse s = (item, s1)" by (cases "count_next parse s")
  note d = count_next_safe [OF assms(1) less.prems n]
  show ?case
  proof (cases item)
    case (Some r)
    with d(1) less.hyps [OF count_next_left d(2)] n show ?thesis
      by (auto simp: count_items.simps [of parse s] split: prod.splits)
  qed (simp add: count_items.simps [of parse s] n)
qed

context octseq_parser
begin

lemma record_items_safe:
  assumes "section_wf m sec s"
  shows "Panic \<notin> set (record_items P s)"
proof -
  have "counted_wf m (rs_parser s, rs_count s)" using assms by (simp add: section_wf_def)
  from count_items_safe [OF safe_parsed_record this] show ?thesis by (simp add: record_items_count)
qed

lemma message_iter_next_wf:
  assumes "length m \<ge> 12" "\<forall>s. inner = Some s \<longrightarrow> section_wf m (rs_section s) s" "message_iter_next P inner = (item, inner')"
  shows "item \<noteq> Some Panic \<and> (\<forall>s. inner' = Some s \<longrightarrow> section_wf m (rs_section s) s)"
  using assms(2,3)
proof (induction "sections_left inner" arbitrary: inner rule: less_induct)
  case less
  show ?case
  proof (cases inner)
    case (Some s)
    obtain it s1 where n: "record_section_next P s = (it, s1)" by (cases "record_section_next P s")
    note d = record_section_next_wf [OF less.prems(1) [rule_format, OF Some] n] and same = record_section_next_same [OF n]
    show ?thesis
    proof (cases it)
      case None
      note w = record_section_next_section_wf [OF assms(1) d(2)]
      show ?thesis
      proof (cases "record_section_next_section P s1")
        case (Ok sec)
        with w have "\<forall>s. sec = Some s \<longrightarrow> section_wf m (rs_section s) s" by (auto simp: section_wf_def split: option.splits)
        moreover have "sections_left sec < sections_left inner"
          using record_section_next_section_left [OF Ok] same Some by simp
        ultimately show ?thesis using less.hyps [of sec] less.prems(2) Some n None Ok by (simp add: message_iter_next.simps(2))
      qed (use w less.prems(2) Some n None in \<open>auto simp: message_iter_next.simps(2)\<close>)
    next
      case (Some r)
      with d same less.prems(2) \<open>inner = Some s\<close> n show ?thesis by (auto simp: message_iter_next.simps(2))
    qed
  qed (use less.prems in simp)
qed

lemma message_items_safe:
  assumes "length m \<ge> 12"
  shows "\<forall>s. inner = Some s \<longrightarrow> section_wf m (rs_section s) s \<Longrightarrow> Panic \<notin> set (message_items P inner)"
proof (induction "(sections_left inner, case inner of None \<Rightarrow> 0 | Some s \<Rightarrow> rs_left s)" arbitrary: inner
    rule: wf_induct_rule [OF wf_lex_prod [OF wf_less_than wf_less_than]])
  case 1
  obtain item inner1 where n: "message_iter_next P inner = (item, inner1)" by (cases "message_iter_next P inner")
  note d = message_iter_next_wf [OF assms 1(2) n]
  show ?case
  proof (cases item)
    case (Some r)
    with d message_iter_left [OF n [unfolded Some]] have "Panic \<notin> set (message_items P inner1)" by (intro 1(1)) auto
    with d n Some show ?thesis by (auto simp: message_items.simps [of P inner])
  qed (simp add: message_items.simps [of P inner] n)
qed

lemma question_section_eq_items:
  assumes "counted_wf m (qs_parser a, qs_count a)" "counted_wf m' (qs_parser b, qs_count b)"
  shows "question_section_eq P a b =
    Ok (list_all2 (\<lambda>x y. \<exists>l r. x = Ok l \<and> y = Ok r \<and> question_eq (question_view l) (question_view r)) (question_items P a) (question_items P b))"
  using assms
proof (induction "qs_left a" arbitrary: a b rule: less_induct)
  case less
  obtain x a1 where a: "question_section_next P a = (x, a1)" by (cases "question_section_next P a")
  obtain y b1 where b: "question_section_next P b = (y, b1)" by (cases "question_section_next P b")
  have wf: "x \<noteq> Some Panic" "counted_wf m (qs_parser a1, qs_count a1)" "y \<noteq> Some Panic" "counted_wf m' (qs_parser b1, qs_count b1)"
    using a b count_next_safe [OF safe_question less.prems(1)] count_next_safe [OF safe_question less.prems(2)]
    by (auto simp: question_section_next_def split: prod.splits)
  show ?case
  proof (cases "\<exists>l r. x = Some (Ok l) \<and> y = Some (Ok r)")
    case True
    then obtain l r where lr: "x = Some (Ok l)" "y = Some (Ok r)" by blast
    from question_section_left [OF a [unfolded lr]] less.hyps [OF _ wf(2,4)] a b lr show ?thesis
      by (simp add: question_section_eq.simps [of P a b] question_items.simps [of P a] question_items.simps [of P b])
  next
    case False
    with a b wf show ?thesis
      by (auto simp: question_section_eq.simps [of P a b] question_items.simps [of P a] question_items.simps [of P b]
          split: option.splits result.splits)
  qed
qed

end

section \<open>Properties\<close>



text \<open>A response with one question, for the address of the root, and a count of 65535 answers.\<close>

definition example_message :: message where
  "example_message = [0, 7, 128, 0, 0, 1, 255, 255, 0, 0, 0, 0, 0, 0, 1, 0, 1]"

lemma example_message_ok: "message_from_octets example_message = Ok example_message"
  by (simp add: message_from_octets_def message_check_slice_def example_message_def)

lemma example_message_question:
  "message_question slice_parser example_message =
    (Ok \<lparr>qs_parser = \<lparr>p_octets = example_message, p_pos = 12, p_len = 17\<rparr>, qs_count = Ok 1\<rparr> :: (_, unit) result)"
  by code_simp

lemma example_message_parse:
  "question_parse slice_parser \<lparr>p_octets = example_message, p_pos = 12, p_len = 17\<rparr> =
    Ok (question_new \<lparr>pn_octets = example_message, pn_pos = 12, pn_name_len = 1, pn_compressed = False\<rparr> 1 1,
      \<lparr>p_octets = example_message, p_pos = 17, p_len = 17\<rparr>)"
  by code_simp

lemma example_message_items:
  "question_items slice_parser \<lparr>qs_parser = \<lparr>p_octets = example_message, p_pos = 12, p_len = 17\<rparr>, qs_count = Ok 1\<rparr> =
    [Ok (question_new \<lparr>pn_octets = example_message, pn_pos = 12, pn_name_len = 1, pn_compressed = False\<rparr> 1 1)]"
  by (simp add: question_items.simps [of _ "\<lparr>qs_parser = \<lparr>p_octets = example_message, p_pos = 12, p_len = 17\<rparr>, qs_count = Ok 1\<rparr>"]
      question_items.simps [of _ "\<lparr>qs_parser = \<lparr>p_octets = example_message, p_pos = 17, p_len = 17\<rparr>, qs_count = Ok 0\<rparr>"]
      question_section_next_def count_next_def example_message_parse)

text \<open>
  C13.  A message is an answer to a query exactly if it is marked as a response, the identifiers and the numbers of questions agree,
  and the questions can all be parsed in both messages and are pairwise equal.
\<close>

theorem message_is_answer_correct:
  assumes "octseq_parser P" "message_from_octets octs = Ok m" "message_from_octets octs' = Ok query"
    and "message_question P m = (Ok q :: (_, 'e) result)" "message_question P query = (Ok q' :: (_, 'e) result)"
  shows "message_is_answer P m query = (Ok (qr (take 4 m) \<and> header_id (take 4 m) = header_id (take 4 query) \<and>
      qdcount (take 8 (drop 4 m)) = qdcount (take 8 (drop 4 query)) \<and>
      list_all2 (\<lambda>x y. \<exists>l r. x = Ok l \<and> y = Ok r \<and> question_eq (question_view l) (question_view r))
        (question_items P q) (question_items P q')) :: (bool, 'e) result)"
proof -
  from assms(2,3) have m: "length m \<ge> 12" "length query \<ge> 12"
    by (auto simp: message_from_octets_def message_check_slice_def split: if_splits)
  with octseq_parser.message_question_wf [OF assms(1), where 'a = 'e] assms(4,5)
  have wf: "counted_wf m (qs_parser q, qs_count q)" "counted_wf query (qs_parser q', qs_count q')" by fastforce+
  show ?thesis
    using m assms(4,5) octseq_parser.question_section_eq_items [OF assms(1) wf, where 'a = 'e]
    by (auto simp: message_is_answer_def header_for_message_slice_def counts_for_message_slice_def)
qed

theorem message_is_answer_correct_witness:
  "message_is_answer slice_parser example_message example_message = (Ok True :: (bool, unit) result)"
proof -
  let ?q = "question_new \<lparr>pn_octets = example_message, pn_pos = 12, pn_name_len = 1, pn_compressed = False\<rparr> 1 1"
  have "qr (take 4 example_message)" by code_simp
  have name: "parsed_name_parse slice_parser \<lparr>p_octets = example_message, p_pos = 12, p_len = 17\<rparr> =
      Ok (q_qname ?q, \<lparr>p_octets = example_message, p_pos = 13, p_len = 17\<rparr>)" by code_simp
  obtain ls where "pn_is (q_qname ?q) ls"
    using slice_parser.parsed_name_parse_spec [of "\<lparr>p_octets = example_message, p_pos = 12, p_len = 17\<rparr>"] unfolding name
    by (auto simp: at_spec_def parser_wf_def example_message_def)
  then have "question_eq (question_view ?q) (question_view ?q)"
    using name_eq_canonical [OF pn_is_view_ok(1) pn_is_view_ok(1)] by (simp add: question_eq_def question_view_def question_new_def)
  with \<open>qr _\<close> message_is_answer_correct [OF slice_parser.octseq_parser_axioms example_message_ok example_message_ok
      example_message_question example_message_question]
  show ?thesis by (simp add: example_message_items)
qed

text \<open>
  C40.  Following the CNAME records of the answer section returns, with or without a name, on every message except those with 65535
  records in the answer section: the bound of the loop is one more than that number, which overflows.
\<close>

theorem message_canonical_name_overflow:
  assumes "octseq_parser P" "message_from_octets octs = Ok m"
  shows "message_canonical_name P m = (Panic :: (_, 'e) result) \<longleftrightarrow>
    (\<exists>q. message_first_question P m = (Ok (Some q) :: (_, 'e) result)) \<and> (\<exists>s. message_answer P m = Ok s) \<and> ancount (take 8 (drop 4 m)) = 65535"
proof -
  from assms(2) have "length m \<ge> 12" by (auto simp: message_from_octets_def message_check_slice_def split: if_splits)
  then show ?thesis by (rule octseq_parser.message_canonical_name_Panic [OF assms(1)])
qed

theorem message_canonical_name_overflow_witness:
  "message_canonical_name slice_parser example_message = (Panic :: (_, unit) result)"
proof -
  let ?p = "\<lparr>p_octets = example_message, p_pos = 12, p_len = 17\<rparr>" and ?q = "\<lparr>p_octets = example_message, p_pos = 17, p_len = 17\<rparr>"
  have "count_skip (question_parse slice_parser) (?p, Ok 1) = (Ok (?q, Ok 0) :: (counted, parse_error) result)"
    by (simp add: count_skip.simps [of _ "(?p, Ok 1)"] count_skip.simps [of _ "(?q, Ok 0)"] count_next_def example_message_parse)
  moreover have "message_question slice_parser example_message = (Ok \<lparr>qs_parser = ?p, qs_count = Ok 1\<rparr> :: (_, parse_error) result)" by code_simp
  moreover have "length example_message = 17" by (simp add: example_message_def)
  ultimately have "\<exists>s. message_answer slice_parser example_message = Ok s"
    using slice_parser.record_section_new_eq [of example_message ?q Answer, where 'a = parse_error]
    by (simp add: message_answer_def question_section_answer_def)
  moreover have "ancount (take 8 (drop 4 example_message)) = 65535" by (simp add: ancount_def get_u16_def example_message_def from_be_bytes_def)
  moreover have "message_first_question slice_parser example_message =
      (Ok (Some (question_new \<lparr>pn_octets = example_message, pn_pos = 12, pn_name_len = 1, pn_compressed = False\<rparr> 1 1)) :: (_, unit) result)"
    by (simp add: message_first_question_def example_message_question question_section_next_def count_next_def example_message_parse)
  ultimately show ?thesis
    using message_canonical_name_overflow [OF slice_parser.octseq_parser_axioms example_message_ok, where 'e = unit] by auto
qed

end
