(* ===== verification/Spec2Isabelle.thy ===== *)
theory Spec2Isabelle
  imports Chain Message
begin

text \<open>
  A verification development for \<^verbatim>\<open>domain\<close>, a Rust library for the DNS.  It models the core of the module
  \<^verbatim>\<open>base\<close> and the basic record types of the module \<^verbatim>\<open>rdata\<close>: how domain names, the header, questions, records and their
  data are kept, compared, written into a message and read from one, how they are written and read as text, and how a message is gone through.

  \<^bold>\<open>How the parts interact.\<close>  Everything that is read comes from a \<open>Parser\<close> over a sequence of octets, and everything that is
  written goes to an octets builder; both belong to the crate \<^verbatim>\<open>octseq\<close>, which is not part of the repository.  Labels are the
  elements of names.  A name is flat (\<open>Name\<close>, \<open>RelativeName\<close>), a position in a message (\<open>ParsedName\<close>), or a combination of others
  (\<open>Chain\<close>, \<open>UncertainName\<close>); the traits \<open>ToLabelIter\<close>, \<open>ToName\<close> and \<open>ToRelativeName\<close> are what they share.  A composer is a builder that
  may also write a name as a pointer to an earlier occurrence.  Questions and record data consist of names, integers and octets.
  Records are data behind a header with their owner; a message is a header, questions, and three sections of records, found by counting.

  \<^bold>\<open>The theories\<close>, in the order in which they build on each other:
  \<^item> \<open>Prelude\<close>: results (\<open>Ok\<close>, \<open>Err\<close> and \<open>Panic\<close>: every panic of the source is a value), state-passing steps, orders (the locale
    \<open>total_cmp\<close>), big-endian integers, ASCII.
  \<^item> \<open>Octseq\<close>: the operations of \<^verbatim>\<open>octseq\<close> as the records \<open>parser_ops\<close> and \<open>builder_ops\<close>, which are parameters of all definitions that
    use them; what the crate documents of them are the laws of the locales \<open>octseq_parser\<close>, \<open>octets_target\<close> and
    \<open>octets_builder\<close>, with slices, vectors and arrays of a fixed size as instances.
  \<^item> \<open>Wire\<close> (\<^verbatim>\<open>base/wire.rs\<close>): parsing and composing of integers and addresses, the errors.
  \<^item> \<open>Label\<close> (\<^verbatim>\<open>base/name/label.rs\<close>): labels, their wire format, order and iterator.  \<open>Symbol\<close> (\<^verbatim>\<open>base/scan.rs\<close>): the symbols
    of the presentation format.
  \<^item> \<open>NameTraits\<close> (\<^verbatim>\<open>base/name/traits.rs\<close>): what the traits derive from the labels of a name; a name is seen through the record
    \<open>label_view\<close> (its labels from the front and from the back, its length, its flat octets if it has them).
  \<^item> \<open>Name\<close> (\<^verbatim>\<open>base/name/absolute.rs\<close>, \<^verbatim>\<open>relative.rs\<close>): checking, slicing, splitting, parsing, iterating, comparing.
  \<^item> \<open>NameBuilder\<close> (\<^verbatim>\<open>base/name/builder.rs\<close>): names built octet by octet, from text and from addresses.
  \<^item> \<open>Chain\<close> (\<^verbatim>\<open>base/name/chain.rs\<close>, \<^verbatim>\<open>uncertain.rs\<close>), \<open>ParsedName\<close> (\<^verbatim>\<open>base/name/parsed.rs\<close>), \<open>Serial\<close> (\<^verbatim>\<open>base/serial.rs\<close>).
  \<^item> \<open>Header\<close> (\<^verbatim>\<open>base/header.rs\<close>): the header section as twelve octets, its flags and counts.
  \<^item> \<open>Composer\<close>, \<open>Compress\<close>, \<open>HashCompress\<close> (the second half of \<^verbatim>\<open>base/message_builder.rs\<close>): stream targets and the three
    name compressors.  The hash table of the crate \<^verbatim>\<open>hashbrown\<close> is a parameter with the laws of a locale.
  \<^item> \<open>Writing\<close>: the theory of writing and reading that the components share.  A meaning says what the octets between two positions
    stand for; \<open>writes\<close> says that a step appends a meaning, for every composer, and \<open>reads\<close> that a parser reads it.
  \<^item> \<open>Decimal\<close>: decimal numbers as text.  \<open>Iana\<close> (\<^verbatim>\<open>base/iana\<close>): classes, record types, response codes and operation codes.
    \<open>Ttl\<close> (the end of \<^verbatim>\<open>base/record.rs\<close>).  \<open>Question\<close> (\<^verbatim>\<open>base/question.rs\<close>).
  \<^item> \<open>Rdata\<close> (\<^verbatim>\<open>base/rdata.rs\<close>): the traits of record data as the locales \<open>record_data\<close>, \<open>rdata_parser\<close> and \<open>canonical_ord\<close>, unknown
    record data, and the length in front of record data.  \<open>DataFields\<close>: what the fields of record data share.
  \<^item> \<open>RfcData\<close> (\<^verbatim>\<open>rdata/aaaa.rs\<close>, \<^verbatim>\<open>rdata/dname.rs\<close>, \<^verbatim>\<open>rdata/srv.rs\<close>, \<^verbatim>\<open>rdata/macros.rs\<close>, \<^verbatim>\<open>rdata/rfc1035\<close>): A, AAAA, the
    types that are a single name, MX, MINFO, SRV, SOA and NULL.  \<open>CharStr\<close> (\<^verbatim>\<open>base/charstr.rs\<close>, \<^verbatim>\<open>rdata/rfc1035/hinfo.rs\<close>,
    \<^verbatim>\<open>txt.rs\<close>): character strings, HINFO, TXT and its builder.
  \<^item> \<open>Records\<close> (\<^verbatim>\<open>base/record.rs\<close>): records, record headers, and records whose data is still in the message.
  \<^item> \<open>Message\<close> (\<^verbatim>\<open>base/message.rs\<close>): messages, their sections and the iterators over them.

  \<^bold>\<open>What the lemmas show.\<close>
  \<^item> Untrusted input: \<open>ParsedName::parse\<close> and \<open>Name::parse\<close> return without a panic on all octets, accept exactly
    the names of at most 255 octets (with backward pointers in the first case) and give their labels; the checks of slices accept exactly
    the well-formed names.
    Going through an arbitrary message and its records never panics, with one exception that is stated exactly.
  \<^item> Builders: every \<open>NameBuilder\<close> that calls lead to is well-formed, as long as none of them panics or runs out of space and no name
    is appended within a label; finishing it does not panic.  Finishing a \<open>TxtBuilder\<close> after successful calls gives what was appended.
  \<^item> Round trips: names, uncertain names, symbols, character strings, classes and record types and questions through
    text; names through each of the three compressors, for messages of up to 0x4000 octets and read one after the other from where
    they were written, and questions, record data and records through every composer that satisfies the contract \<open>composer\<close>.
  \<^item> Orders and equality: the order of names is the lexicographic order of RFC 4034, the optimised comparisons agree with the order of the
    labels or of the octets, and for record
    data \<open>canonical_cmp\<close> is the order of the octets that \<open>compose_canonical_rdata\<close> writes (the interpretations of \<open>canonical_ord\<close>).
  \<^item> Refinement: the setters of the header update one field of an abstract header and no other.
  \<^item> Integers keep their width: serial numbers are 32-bit words that wrap, and sums of TTL values and lengths of \<open>u16\<close> panic where
    the source does with overflow checks enabled.
  \<^item> Some theorems state that the code does not do what it means to; they say for which input, or for a concrete one.

  \<^bold>\<open>Loops.\<close>  Loops over a slice or a name are recursive functions with a termination proof.  The loops of
  \<open>ParsedName::parse\<close> and \<open>skip\<close> have fuel, 256 rounds before the first pointer and \<open>512 * (length + 1)\<close> after it: a label takes at least two
  octets of at most 255, and pointers only move backwards, so the fuel never runs out, which is part of the proof that there is no panic.
  The loop of \<open>SliceLabelsIter::next\<close> may run forever and is a partial function.

  \<^bold>\<open>Not modelled.\<close>  The builders of the sections in \<^verbatim>\<open>base/message_builder.rs\<close>, \<^verbatim>\<open>base/opt\<close>, the record types of DNSSEC, SVCB, TSIG and the enums over all record types: they consist of
  the parts modelled here.  The scanners of \<^verbatim>\<open>base/scan.rs\<close> and \<^verbatim>\<open>zonefile\<close>, \<^verbatim>\<open>zonetree\<close>, \<^verbatim>\<open>resolv\<close>, \<^verbatim>\<open>net\<close>, \<^verbatim>\<open>sign\<close>, \<^verbatim>\<open>tsig\<close>,
  \<^verbatim>\<open>validator\<close> and \<^verbatim>\<open>stelline\<close> are input and output, concurrency or cryptography.  \<open>Debug\<close>, serialisation with
  \<^verbatim>\<open>serde\<close> and conversions of the type of octets are left out too.
\<close>

end
